(* ===== verification/Prelude.thy ===== *)
theory Prelude
  imports Main "HOL-Library.Word"
begin

text \<open>
  Shared vocabulary of the development: the machine types of
  \<^verbatim>\<open>kernel/include/exyde/types.h\<close>, the error numbers of
  \<^verbatim>\<open>kernel/include/exyde/errno.h\<close>, page arithmetic, and the generic lemmas on
  wrap-around, alignment and lists that the component theories use.

  Conventions.  Bit-level data (bitmaps, page-table entries, rights, flags, bytes) are
  words of the width the code gives them.  Quantities (addresses, sizes, counters) are
  natural numbers; where 64-bit wrap-around can occur it is written out with
  \<open>wrap64\<close>.  A null pointer is \<open>0\<close> or \<open>None\<close>, as the component says.
  Signed results (\<^verbatim>\<open>sysret_t\<close>, \<^verbatim>\<open>int\<close>) are integers.
\<close>

unbundle bit_operations_syntax

type_synonym u8 = "8 word"
type_synonym u32 = "32 word"
type_synonym u64 = "64 word"
type_synonym byte = "8 word"
type_synonym paddr = nat
type_synonym vaddr = nat

named_theorems kconst \<open>numeric constants of the source, unfolded on demand\<close>
named_theorems wrap_simps \<open>removal of wrap-around under a bound\<close>

section \<open>Error numbers\<close>

definition EPERM :: int where [kconst]: "EPERM = 1"
definition ENOENT :: int where [kconst]: "ENOENT = 2"
definition ESRCH :: int where [kconst]: "ESRCH = 3"
definition EINTR :: int where [kconst]: "EINTR = 4"
definition ENXIO :: int where [kconst]: "ENXIO = 6"
definition E2BIG :: int where [kconst]: "E2BIG = 7"
definition ENOEXEC :: int where [kconst]: "ENOEXEC = 8"
definition ECHILD :: int where [kconst]: "ECHILD = 10"
definition EACCES :: int where [kconst]: "EACCES = 13"
definition EBUSY :: int where [kconst]: "EBUSY = 16"
definition ENOSPC :: int where [kconst]: "ENOSPC = 28"
definition EROFS :: int where [kconst]: "EROFS = 30"
definition EPIPE :: int where [kconst]: "EPIPE = 32"
definition EIO :: int where [kconst]: "EIO = 5"
definition EBADF :: int where [kconst]: "EBADF = 9"
definition EAGAIN :: int where [kconst]: "EAGAIN = 11"
definition ENOMEM :: int where [kconst]: "ENOMEM = 12"
definition EFAULT :: int where [kconst]: "EFAULT = 14"
definition EEXIST :: int where [kconst]: "EEXIST = 17"
definition ENODEV :: int where [kconst]: "ENODEV = 19"
definition ENOTDIR :: int where [kconst]: "ENOTDIR = 20"
definition EISDIR :: int where [kconst]: "EISDIR = 21"
definition EINVAL :: int where [kconst]: "EINVAL = 22"
definition ENFILE :: int where [kconst]: "ENFILE = 23"
definition EMFILE :: int where [kconst]: "EMFILE = 24"
definition ESPIPE :: int where [kconst]: "ESPIPE = 29"
definition ERANGE :: int where [kconst]: "ERANGE = 34"
definition ENAMETOOLONG :: int where [kconst]: "ENAMETOOLONG = 36"
definition ENOSYS :: int where [kconst]: "ENOSYS = 38"
definition ENOTEMPTY :: int where [kconst]: "ENOTEMPTY = 39"

section \<open>Page and word arithmetic\<close>

abbreviation PAGE_SIZE :: nat where "PAGE_SIZE \<equiv> 4096"
abbreviation two64 :: nat where "two64 \<equiv> 18446744073709551616"

definition wrap64 :: "nat \<Rightarrow> nat" where
  "wrap64 n = n mod two64"

definition wrap32 :: "nat \<Rightarrow> nat" where
  "wrap32 n = n mod 4294967296"

text \<open>\<open>x & ~(a - 1)\<close> for a power of two \<open>a\<close>, and \<open>(x + a - 1) & ~(a - 1)\<close>
  in 64-bit arithmetic.  The two lemmas \<open>align_down_word\<close> and \<open>align_up_word\<close>
  below relate them to the bit operations of the source.\<close>

definition align_down :: "nat \<Rightarrow> nat \<Rightarrow> nat" where
  "align_down a n = n div a * a"

definition align_up :: "nat \<Rightarrow> nat \<Rightarrow> nat" where
  "align_up a n = align_down a (wrap64 (n + (a - 1)))"

lemma wrap64_less [simp]: "wrap64 n < two64"
  by (simp add: wrap64_def)

lemma wrap64_id [simp, wrap_simps]: "n < two64 \<Longrightarrow> wrap64 n = n"
  by (simp add: wrap64_def)

lemma wrap64_le: "wrap64 n \<le> n"
  by (simp add: wrap64_def)

lemma wrap32_id [simp, wrap_simps]: "n < 4294967296 \<Longrightarrow> wrap32 n = n"
  by (simp add: wrap32_def)

lemma align_down_le [simp]: "align_down a n \<le> n"
  by (simp add: align_down_def)

lemma align_down_dvd [simp]: "a dvd align_down a n"
  by (simp add: align_down_def)

lemma align_down_id: "a dvd n \<Longrightarrow> align_down a n = n"
  by (auto simp: align_down_def)

lemma align_down_gt: "0 < a \<Longrightarrow> n < align_down a n + a"
  unfolding align_down_def by (metis div_mult_mod_eq mod_less_divisor nat_add_left_cancel_less)

lemma align_down_mod: "align_down a n = n - n mod a"
  by (simp add: align_down_def minus_mod_eq_div_mult)

lemma align_up_dvd [simp]: "a dvd align_up a n"
  by (simp add: align_up_def)

lemma align_up_ge: "0 < a \<Longrightarrow> n + (a - 1) < two64 \<Longrightarrow> n \<le> align_up a n"
  unfolding align_up_def using align_down_gt [of a "n + (a - 1)"] by simp

lemma align_up_less: "0 < a \<Longrightarrow> n + (a - 1) < two64 \<Longrightarrow> align_up a n < n + a"
proof -
  assume a: "0 < a" "n + (a - 1) < two64"
  have "align_up a n \<le> n + (a - 1)"
    using a(2) align_down_le [of a "n + (a - 1)"] by (simp only: align_up_def wrap64_id)
  then show ?thesis using a(1) by linarith
qed

lemma align_up_id: "0 < a \<Longrightarrow> a dvd n \<Longrightarrow> n + (a - 1) < two64 \<Longrightarrow> align_up a n = n"
proof -
  assume a: "0 < a" "a dvd n" "n + (a - 1) < two64"
  then obtain k where k: "n = a * k" by auto
  have "align_up a n = (a * k + (a - 1)) div a * a"
    using a k by (simp add: align_up_def align_down_def)
  also have "(a * k + (a - 1)) div a = k"
    using a(1) by (simp only: div_mult_self4) simp
  finally show ?thesis using k by (simp add: mult.commute)
qed

lemma le_align_down_iff: "a dvd m \<Longrightarrow> m \<le> align_down a n \<longleftrightarrow> m \<le> n"
proof
  assume "a dvd m" "m \<le> n"
  then show "m \<le> align_down a n"
    unfolding align_down_def by (metis div_le_mono dvd_div_mult_self mult_le_mono1)
qed (use align_down_le order_trans in blast)

lemma align_up_le_iff:
  assumes "0 < a" "a dvd m" "n + (a - 1) < two64"
  shows "align_up a n \<le> m \<longleftrightarrow> n \<le> m"
proof
  assume "n \<le> m"
  show "align_up a n \<le> m"
  proof (rule ccontr)
    assume "\<not> align_up a n \<le> m"
    then have "m < align_up a n" by simp
    moreover have "a dvd align_up a n" by simp
    ultimately have "m + a \<le> align_up a n"
      using assms(2) by (metis dvd_diffD1 dvd_imp_le le_add_diff_inverse less_imp_le_nat nat_add_left_cancel_le zero_less_diff dvd_minus_self diff_is_0_eq dvd_diff_nat)
    with align_up_less [OF assms(1,3)] \<open>n \<le> m\<close> show False by simp
  qed
qed (use align_up_ge [OF assms(1,3)] in simp)

lemma and_not_mask_nat:
  fixes w :: "'a::len word"
  shows "unat (w AND NOT (mask k)) = unat w div 2 ^ k * 2 ^ k"
proof -
  have "w AND NOT (mask k) = push_bit k (drop_bit k w)"
    by (rule bit_eqI) (auto simp: bit_simps)
  moreover have "unat (push_bit k (drop_bit k w)) = unat w div 2 ^ k * 2 ^ k"
  proof -
    have "unat w div 2 ^ k * 2 ^ k < 2 ^ LENGTH('a)"
      using div_times_less_eq_dividend [of "unat w" "2 ^ k"] unsigned_less [of w, where ?'a = nat] by linarith
    then show ?thesis
      by (simp only: unsigned_push_bit_eq unsigned_drop_bit_eq)
        (simp add: push_bit_eq_mult drop_bit_eq_div take_bit_nat_eq_self)
  qed
  ultimately show ?thesis by simp
qed

lemma align_down_word: "unat ((w :: u64) AND NOT (mask k)) = align_down (2 ^ k) (unat w)"
  by (simp add: and_not_mask_nat align_down_def)

lemma align_up_word:
  "unat (((w :: u64) + mask k) AND NOT (mask k)) = align_up (2 ^ k) (unat w)" if "k < 64"
proof -
  have m: "unat (mask k :: u64) = 2 ^ k - 1"
  proof -
    have "(2::nat) ^ k < 2 ^ 64" using that by (rule power_strict_increasing) simp
    moreover have "(mask k :: u64) = word_of_nat (mask k)"
      by (simp add: of_nat_mask_eq)
    ultimately show ?thesis
      by (simp only: unat_of_nat) (simp add: mask_eq_exp_minus_1)
  qed
  show ?thesis
    by (simp add: and_not_mask_nat align_up_def align_down_def wrap64_def unat_word_ariths m)
qed

text \<open>The addresses a loop \<open>for (a = start; a < end; a += PAGE_SIZE)\<close> visits.\<close>

definition addr_steps :: "nat \<Rightarrow> nat \<Rightarrow> nat list" where
  "addr_steps a e = map (\<lambda>i. a + i * PAGE_SIZE) [0..<(e - a + (PAGE_SIZE - 1)) div PAGE_SIZE]"

lemma set_addr_steps: "set (addr_steps a e) = {a + i * PAGE_SIZE | i. a + i * PAGE_SIZE < e}"
  by (auto simp: addr_steps_def)

lemma addr_steps_less: "x \<in> set (addr_steps a e) \<Longrightarrow> a \<le> x \<and> x < e"
  by (auto simp: set_addr_steps)

lemma addr_steps_pages:
  assumes "PAGE_SIZE dvd a" "PAGE_SIZE dvd e"
  shows "(\<lambda>x. x div PAGE_SIZE) ` set (addr_steps a e) = {a div PAGE_SIZE ..< e div PAGE_SIZE}"
proof -
  obtain k m where "a = PAGE_SIZE * k" "e = PAGE_SIZE * m" using assms by (auto elim!: dvdE)
  then have "set (addr_steps a e) = {PAGE_SIZE * (k + i) | i. k + i < m}"
    by (auto simp: set_addr_steps algebra_simps)
  moreover have "(\<lambda>x. x div PAGE_SIZE) ` {PAGE_SIZE * (k + i) | i. k + i < m} = {k..<m}"
  proof (intro equalityI subsetI)
    fix p assume "p \<in> {k..<m}"
    then have "p = (PAGE_SIZE * (k + (p - k))) div PAGE_SIZE" "k + (p - k) < m" by auto
    then show "p \<in> (\<lambda>x. x div PAGE_SIZE) ` {PAGE_SIZE * (k + i) | i. k + i < m}" by blast
  qed auto
  ultimately show ?thesis using \<open>a = _\<close> \<open>e = _\<close> by simp
qed

section \<open>Lists\<close>

lemma length_filter_card: "length (filter P [0..<n]) = card {i. i < n \<and> P i}"
proof -
  have "length (filter P [0..<n]) = card (set (filter P [0..<n]))"
    by (rule distinct_card [symmetric]) simp
  also have "set (filter P [0..<n]) = {i. i < n \<and> P i}" by auto
  finally show ?thesis .
qed

lemma image_plus_range: "(\<lambda>i. b + i) ` {0..<n} = {b..<b + n :: nat}"
  by (simp add: add.commute)

lemma ball_shift: "(\<forall>p \<in> {b..<b + n :: nat}. P p) \<longleftrightarrow> (\<forall>i < n. P (b + i))"
  using image_plus_range [of b n] by (metis atLeast0LessThan image_eqI lessThan_iff imageE)

text \<open>A loop that keeps a property of the state at every iteration.\<close>

lemma fold_invariant_set:
  assumes "\<And>x s. x \<in> set xs \<Longrightarrow> P s \<Longrightarrow> P (f x s)" and "P s"
  shows "P (fold f xs s)"
  using assms by (induction xs arbitrary: s) auto

end
