(* ===== verification/Memmap.thy ===== *)
theory Memmap
  imports Prelude
begin

text \<open>
  The physical memory map, \<^verbatim>\<open>kernel/core/memmap.c\<close>: a fixed array of regions
  and the number of them in use, filled from the boot loader's data.
\<close>

abbreviation MEMORY_USABLE :: nat where "MEMORY_USABLE \<equiv> 1"
abbreviation MEMORY_RESERVED :: nat where "MEMORY_RESERVED \<equiv> 2"
abbreviation MEMMAP_MAX_REGIONS :: nat where "MEMMAP_MAX_REGIONS \<equiv> 128"

record memory_region =
  mr_base :: paddr
  mr_size :: nat
  mr_type :: nat

record memmap =
  regions :: "memory_region list"   \<comment> \<open>the array, 128 slots\<close>
  region_count :: nat

definition memmap_reset :: "memmap \<Rightarrow> memmap" where
  "memmap_reset m = m\<lparr>region_count := 0\<rparr>"

definition memmap_add :: "paddr \<Rightarrow> nat \<Rightarrow> nat \<Rightarrow> memmap \<Rightarrow> bool \<times> memmap" where
  "memmap_add base sz ty m =
     (if sz = 0 then (False, m)
      else if region_count m \<ge> MEMMAP_MAX_REGIONS then (False, m)
      else (True, m\<lparr>regions := (regions m)[region_count m :=
                                  \<lparr>mr_base = base, mr_size = sz, mr_type = ty\<rparr>],
                    region_count := region_count m + 1\<rparr>))"

definition memmap_reserve :: "paddr \<Rightarrow> nat \<Rightarrow> memmap \<Rightarrow> bool \<times> memmap" where
  "memmap_reserve base sz m = memmap_add base sz MEMORY_RESERVED m"

definition memmap_count :: "memmap \<Rightarrow> nat" where
  "memmap_count m = region_count m"

definition memmap_get :: "memmap \<Rightarrow> nat \<Rightarrow> memory_region option" where
  "memmap_get m i = (if i \<ge> region_count m then None else Some (regions m ! i))"

definition memmap_max_paddr :: "memmap \<Rightarrow> paddr" where
  "memmap_max_paddr m =
     fold (\<lambda>i mx. let e = wrap64 (mr_base (regions m ! i) + mr_size (regions m ! i))
                  in if e > mx then e else mx) [0..<region_count m] 0"

section \<open>Invariant and abstraction\<close>

definition memmap_inv :: "memmap \<Rightarrow> bool" where
  "memmap_inv m \<longleftrightarrow> length (regions m) = MEMMAP_MAX_REGIONS \<and>
     region_count m \<le> MEMMAP_MAX_REGIONS \<and>
     (\<forall>i < region_count m. mr_size (regions m ! i) \<noteq> 0)"

definition memmap_list :: "memmap \<Rightarrow> memory_region list" where
  "memmap_list m = take (region_count m) (regions m)"

lemma memmap_inv_reset: "memmap_inv m \<Longrightarrow> memmap_inv (memmap_reset m)"
  by (simp add: memmap_inv_def memmap_reset_def)

lemma memmap_inv_add: "memmap_inv m \<Longrightarrow> memmap_inv (snd (memmap_add b z t m))"
  by (auto simp: memmap_inv_def memmap_add_def nth_list_update less_Suc_eq)

lemma memmap_list_add:
  assumes "memmap_inv m"
  shows "memmap_add b z t m =
    (if z = 0 \<or> length (memmap_list m) = MEMMAP_MAX_REGIONS then (False, m)
     else (True, snd (memmap_add b z t m))) \<and>
    memmap_list (snd (memmap_add b z t m)) =
      memmap_list m @ (if fst (memmap_add b z t m)
                       then [\<lparr>mr_base = b, mr_size = z, mr_type = t\<rparr>] else [])"
  using assms by (auto simp: memmap_inv_def memmap_add_def memmap_list_def take_Suc_conv_app_nth)

lemma memmap_get_nth:
  "memmap_inv m \<Longrightarrow> memmap_get m i = (if i < length (memmap_list m) then Some (memmap_list m ! i) else None)"
  by (auto simp: memmap_inv_def memmap_get_def memmap_list_def)

lemma memmap_scan:
  assumes "memmap_inv m"
  shows "fold (\<lambda>i. f (the (memmap_get m i))) [0..<memmap_count m] s = fold f (memmap_list m) s"
proof -
  have "map (\<lambda>i. the (memmap_get m i)) [0..<memmap_count m] = memmap_list m"
    using assms by (intro nth_equalityI)
      (auto simp: memmap_count_def memmap_get_def memmap_list_def memmap_inv_def)
  then have "fold f (map (\<lambda>i. the (memmap_get m i)) [0..<memmap_count m]) s = fold f (memmap_list m) s"
    by simp
  then show ?thesis by (simp add: fold_map comp_def)
qed

lemma fold_max_Max:
  "fold (\<lambda>r mx. if g r > mx then g r else mx) rs (x::nat) = Max (insert x (g ` set rs))"
proof -
  have "(\<lambda>r mx. if g r > mx then g r else mx) = (\<lambda>r. max (g r))"
    by (auto simp: fun_eq_iff max_def)
  then have "fold (\<lambda>r mx. if g r > mx then g r else mx) rs x = fold max (map g rs) x"
    by (simp add: fold_map comp_def)
  also have "\<dots> = Max (set (x # map g rs))" by (rule Max.set_eq_fold [symmetric])
  finally show ?thesis by simp
qed

end
