(* ===== verification/Pmm.thy ===== *)
theory Pmm
  imports Memmap
begin

text \<open>
  The physical page allocator, \<^verbatim>\<open>kernel/core/pmm.c\<close>: two bitmaps (used and
  permanently reserved), first-fit allocation of contiguous runs, validated frees.
  A panic of \<^verbatim>\<open>pmm_init\<close> is the result \<open>None\<close>.
\<close>

abbreviation PMM_MAX_TRACKED_BYTES :: nat where "PMM_MAX_TRACKED_BYTES \<equiv> 1073741824"
abbreviation PMM_BITMAP_MAX_BYTES :: nat where "PMM_BITMAP_MAX_BYTES \<equiv> 32768"

record pmm =
  used_bitmap :: "u64 list"
  resv_bitmap :: "u64 list"
  bitmap_words :: nat
  total_pages :: nat
  free_pages :: nat
  max_paddr :: paddr

section \<open>Bit helpers\<close>

definition bm_set :: "u64 list \<Rightarrow> nat \<Rightarrow> u64 list" where
  "bm_set bm p = bm[p div 64 := bm ! (p div 64) OR push_bit (p mod 64) 1]"

definition bm_clear :: "u64 list \<Rightarrow> nat \<Rightarrow> u64 list" where
  "bm_clear bm p = bm[p div 64 := bm ! (p div 64) AND NOT (push_bit (p mod 64) 1)]"

definition bm_get :: "u64 list \<Rightarrow> nat \<Rightarrow> bool" where
  "bm_get bm p \<longleftrightarrow> drop_bit (p mod 64) (bm ! (p div 64)) AND 1 \<noteq> 0"

definition used_set :: "nat \<Rightarrow> pmm \<Rightarrow> pmm" where
  "used_set p s = s\<lparr>used_bitmap := bm_set (used_bitmap s) p\<rparr>"

definition used_clear :: "nat \<Rightarrow> pmm \<Rightarrow> pmm" where
  "used_clear p s = s\<lparr>used_bitmap := bm_clear (used_bitmap s) p\<rparr>"

definition used_get :: "pmm \<Rightarrow> nat \<Rightarrow> bool" where
  "used_get s p = bm_get (used_bitmap s) p"

definition resv_set :: "nat \<Rightarrow> pmm \<Rightarrow> pmm" where
  "resv_set p s = s\<lparr>resv_bitmap := bm_set (resv_bitmap s) p\<rparr>"

definition resv_get :: "pmm \<Rightarrow> nat \<Rightarrow> bool" where
  "resv_get s p = bm_get (resv_bitmap s) p"

section \<open>Initialisation\<close>

definition mark_usable :: "paddr \<Rightarrow> nat \<Rightarrow> pmm \<Rightarrow> pmm" where
  "mark_usable base sz s =
     (let start = align_up PAGE_SIZE base;
          e = align_down PAGE_SIZE (wrap64 (base + sz));
          e = (if e > max_paddr s then max_paddr s else e)
      in if start \<ge> e then s
         else fold (\<lambda>a. used_clear (a div PAGE_SIZE)) (addr_steps start e) s)"

definition mark_reserved :: "paddr \<Rightarrow> nat \<Rightarrow> pmm \<Rightarrow> pmm" where
  "mark_reserved base sz s =
     (let start = align_down PAGE_SIZE base;
          e = align_up PAGE_SIZE (wrap64 (base + sz));
          e = (if e > max_paddr s then max_paddr s else e)
      in if start \<ge> e then s
         else fold (\<lambda>a s. let p = a div PAGE_SIZE in resv_set p (used_set p s))
                (addr_steps start e) s)"

definition usable_top :: "memmap \<Rightarrow> paddr" where
  "usable_top m =
     (let top = fold (\<lambda>i top. let r = the (memmap_get m i) in
                  if mr_type r \<noteq> MEMORY_USABLE then top
                  else let e = wrap64 (mr_base r + mr_size r) in if e > top then e else top)
                [0..<memmap_count m] 0
      in if top = 0 then 0 else align_up PAGE_SIZE top)"

definition pmm_init :: "memmap \<Rightarrow> pmm \<Rightarrow> pmm option" where
  "pmm_init m s =
     (let top = usable_top m in
      if top = 0 then None
      else
       let top = (if top > PMM_MAX_TRACKED_BYTES then PMM_MAX_TRACKED_BYTES else top);
           s = s\<lparr>max_paddr := top, total_pages := top div PAGE_SIZE\<rparr>;
           s = s\<lparr>bitmap_words := (total_pages s + 64 - 1) div 64\<rparr>
       in if bitmap_words s * 8 > PMM_BITMAP_MAX_BYTES then None
          else
           let s = fold (\<lambda>i s. s\<lparr>used_bitmap := (used_bitmap s)[i := NOT 0],
                                 resv_bitmap := (resv_bitmap s)[i := 0]\<rparr>)
                     [0..<bitmap_words s] s;
               s = fold (\<lambda>i s. let r = the (memmap_get m i) in
                            if mr_type r = MEMORY_USABLE
                            then mark_usable (mr_base r) (mr_size r) s else s)
                     [0..<memmap_count m] s;
               s = fold (\<lambda>i s. let r = the (memmap_get m i) in
                            if mr_type r \<noteq> MEMORY_USABLE
                            then mark_reserved (mr_base r) (mr_size r) s else s)
                     [0..<memmap_count m] s
           in Some (s\<lparr>free_pages :=
                 fold (\<lambda>i n. if \<not> used_get s i then n + 1 else n) [0..<total_pages s] 0\<rparr>))"

section \<open>Allocation and release\<close>

definition shl_page :: "nat \<Rightarrow> nat" where
  "shl_page n = wrap64 (n * PAGE_SIZE)"

function alloc_scan :: "nat \<Rightarrow> pmm \<Rightarrow> nat \<Rightarrow> nat \<Rightarrow> paddr \<times> pmm" where
  "alloc_scan cnt s i run =
     (if i < total_pages s then
        if used_get s i then alloc_scan cnt s (i + 1) 0
        else if run + 1 = cnt then
          let start = i + 1 - cnt;
              s' = fold (\<lambda>j. used_set (start + j)) [0..<cnt] s
          in (shl_page start, s'\<lparr>free_pages := free_pages s' - cnt\<rparr>)
        else alloc_scan cnt s (i + 1) (run + 1)
      else (0, s))"
  by pat_completeness auto
termination
  by (relation "measure (\<lambda>(cnt, s, i, run). total_pages s - i)") auto

declare alloc_scan.simps [simp del]

definition pmm_alloc_pages :: "nat \<Rightarrow> pmm \<Rightarrow> paddr \<times> pmm" where
  "pmm_alloc_pages cnt s =
     (if cnt = 0 \<or> cnt > free_pages s then (0, s) else alloc_scan cnt s 0 0)"

definition pmm_alloc_page :: "pmm \<Rightarrow> paddr \<times> pmm" where
  "pmm_alloc_page s = pmm_alloc_pages 1 s"

definition pmm_free_pages :: "paddr \<Rightarrow> nat \<Rightarrow> pmm \<Rightarrow> bool \<times> pmm" where
  "pmm_free_pages page cnt s =
     (if cnt = 0 then (False, s)
      else if page mod PAGE_SIZE \<noteq> 0 then (False, s)
      else if page \<ge> max_paddr s then (False, s)
      else if wrap64 (page + shl_page cnt) > max_paddr s then (False, s)
      else
        let start = page div PAGE_SIZE in
        if \<exists>i \<in> {0..<cnt}. resv_get s (start + i) \<or> \<not> used_get s (start + i) then (False, s)
        else let s' = fold (\<lambda>i. used_clear (start + i)) [0..<cnt] s
             in (True, s'\<lparr>free_pages := free_pages s' + cnt\<rparr>))"

definition pmm_free_page :: "paddr \<Rightarrow> pmm \<Rightarrow> bool \<times> pmm" where
  "pmm_free_page page s = pmm_free_pages page 1 s"

definition pmm_is_allocated :: "paddr \<Rightarrow> pmm \<Rightarrow> bool" where
  "pmm_is_allocated page s =
     (if page mod PAGE_SIZE \<noteq> 0 then False
      else if page \<ge> max_paddr s then False
      else used_get s (page div PAGE_SIZE))"

section \<open>Bitmap lemmas\<close>

lemma length_bm [simp]: "length (bm_set bm p) = length bm" "length (bm_clear bm p) = length bm"
  by (simp_all add: bm_set_def bm_clear_def)

lemma bm_get_bit: "bm_get bm p \<longleftrightarrow> bit (bm ! (p div 64)) (p mod 64)"
  by (simp add: bm_get_def and_one_eq bit_iff_odd_drop_bit odd_iff_mod_2_eq_one)

lemma div64_mod64_eq: "(q::nat) div 64 = p div 64 \<Longrightarrow> q mod 64 = p mod 64 \<longleftrightarrow> q = p"
  by (metis div_mult_mod_eq)

lemma bm_get_set:
  assumes "p div 64 < length bm"
  shows "bm_get (bm_set bm p) q \<longleftrightarrow> q = p \<or> bm_get bm q"
proof (cases "q div 64 = p div 64")
  case True
  with assms show ?thesis
    using div64_mod64_eq [OF True]
    by (auto simp: bm_get_bit bm_set_def bit_or_iff bit_exp_iff)
next
  case False
  with assms show ?thesis by (auto simp: bm_get_bit bm_set_def)
qed

lemma bm_get_clear:
  assumes "p div 64 < length bm"
  shows "bm_get (bm_clear bm p) q \<longleftrightarrow> q \<noteq> p \<and> bm_get bm q"
proof (cases "q div 64 = p div 64")
  case True
  with assms show ?thesis
    using div64_mod64_eq [OF True]
    by (auto simp: bm_get_bit bm_clear_def bit_and_iff bit_not_iff bit_exp_iff)
next
  case False
  with assms show ?thesis by (auto simp: bm_get_bit bm_clear_def)
qed

lemma bm_eqI:
  assumes "length a = length b" "\<And>q. q < 64 * length a \<Longrightarrow> bm_get a q = bm_get b q"
  shows "a = b"
proof (rule nth_equalityI)
  fix i assume i: "i < length a"
  show "a ! i = b ! i"
  proof (rule bit_word_eqI)
    fix n assume "n < LENGTH(64)"
    then have n: "n < 64" by simp
    then have "(64 * i + n) div 64 = i" "(64 * i + n) mod 64 = n" by simp_all
    moreover have "64 * i + n < 64 * length a" using i n by linarith
    ultimately show "bit (a ! i) n = bit (b ! i) n"
      using assms(2) [of "64 * i + n"] by (simp add: bm_get_bit)
  qed
qed (rule assms(1))

lemma bm_fold_set:
  assumes "\<forall>x \<in> set xs. f x div 64 < length bm"
  shows "length (fold (\<lambda>x bm. bm_set bm (f x)) xs bm) = length bm \<and>
    bm_get (fold (\<lambda>x bm. bm_set bm (f x)) xs bm) q = (q \<in> f ` set xs \<or> bm_get bm q)"
  using assms by (induction xs arbitrary: bm) (auto simp: bm_get_set)

lemma bm_fold_clear:
  assumes "\<forall>x \<in> set xs. f x div 64 < length bm"
  shows "length (fold (\<lambda>x bm. bm_clear bm (f x)) xs bm) = length bm \<and>
    bm_get (fold (\<lambda>x bm. bm_clear bm (f x)) xs bm) q = (q \<notin> f ` set xs \<and> bm_get bm q)"
  using assms by (induction xs arbitrary: bm) (auto simp: bm_get_clear)

lemma fold_used_set:
  "fold (\<lambda>x. used_set (f x)) xs s =
     s\<lparr>used_bitmap := fold (\<lambda>x bm. bm_set bm (f x)) xs (used_bitmap s)\<rparr>"
  by (induction xs arbitrary: s) (simp_all add: used_set_def)

lemma fold_used_clear:
  "fold (\<lambda>x. used_clear (f x)) xs s =
     s\<lparr>used_bitmap := fold (\<lambda>x bm. bm_clear bm (f x)) xs (used_bitmap s)\<rparr>"
  by (induction xs arbitrary: s) (simp_all add: used_clear_def)

lemma fold_resv_set:
  "fold (\<lambda>x s. let p = f x in resv_set p (used_set p s)) xs s =
     s\<lparr>used_bitmap := fold (\<lambda>x bm. bm_set bm (f x)) xs (used_bitmap s),
       resv_bitmap := fold (\<lambda>x bm. bm_set bm (f x)) xs (resv_bitmap s)\<rparr>"
  by (induction xs arbitrary: s) (simp_all add: used_set_def resv_set_def Let_def)

section \<open>Invariant\<close>

definition pmm_shape :: "pmm \<Rightarrow> bool" where
  "pmm_shape s \<longleftrightarrow> total_pages s \<le> 64 * length (used_bitmap s) \<and>
     total_pages s \<le> 64 * length (resv_bitmap s) \<and>
     max_paddr s = total_pages s * PAGE_SIZE \<and> max_paddr s \<le> PMM_MAX_TRACKED_BYTES"

definition pmm_free_set :: "pmm \<Rightarrow> nat set" where
  "pmm_free_set s = {p. p < total_pages s \<and> \<not> used_get s p}"

definition pmm_inv :: "pmm \<Rightarrow> bool" where
  "pmm_inv s \<longleftrightarrow> pmm_shape s \<and> free_pages s = card (pmm_free_set s) \<and>
     (\<forall>p < total_pages s. resv_get s p \<longrightarrow> used_get s p)"

lemma finite_pmm_free_set [simp]: "finite (pmm_free_set s)"
  by (simp add: pmm_free_set_def)

lemma shape_div: "pmm_shape s \<Longrightarrow> p < total_pages s \<Longrightarrow>
    p div 64 < length (used_bitmap s) \<and> p div 64 < length (resv_bitmap s)"
  by (auto simp: pmm_shape_def)

definition free_run :: "pmm \<Rightarrow> nat \<Rightarrow> nat \<Rightarrow> bool" where
  "free_run s b n \<longleftrightarrow> b + n \<le> total_pages s \<and> (\<forall>j < n. \<not> used_get s (b + j))"

definition take_run :: "nat \<Rightarrow> nat \<Rightarrow> pmm \<Rightarrow> pmm" where
  "take_run b n s = (let s' = fold (\<lambda>j. used_set (b + j)) [0..<n] s
                     in s'\<lparr>free_pages := free_pages s' - n\<rparr>)"

text \<open>The scan finds the lowest run, from any point of the loop.\<close>

lemma alloc_scan_spec:
  assumes "0 < n" "run < n" "run \<le> i" "\<forall>j \<in> {i - run..<i}. \<not> used_get s j"
    and "\<forall>b. free_run s b n \<longrightarrow> i - run \<le> b"
  shows "alloc_scan n s i run =
    (if \<exists>b. free_run s b n
     then let b = (LEAST b. free_run s b n) in (shl_page b, take_run b n s) else (0, s))"
  using assms
proof (induction n s i run rule: alloc_scan.induct)
  case (1 n s i run)
  note prems = "1.prems"
  consider (stop) "\<not> i < total_pages s" | (used) "i < total_pages s" "used_get s i"
    | (hit) "i < total_pages s" "\<not> used_get s i" "run + 1 = n"
    | (go) "i < total_pages s" "\<not> used_get s i" "run + 1 \<noteq> n" by blast
  then show ?case
  proof cases
    case stop
    have "\<not> free_run s b n" for b
    proof
      assume r: "free_run s b n"
      then have "i - run \<le> b" using prems(5) by blast
      then show False using r stop prems(2,3) by (auto simp: free_run_def)
    qed
    with stop show ?thesis by (simp add: alloc_scan.simps)
  next
    case used
    have "i + 1 \<le> b" if r: "free_run s b n" for b
    proof (rule ccontr)
      assume "\<not> i + 1 \<le> b"
      moreover have "i - run \<le> b" using prems(5) r by blast
      ultimately have "b + (i - b) = i" "i - b < n" using prems(2,3) by auto
      then show False using r used(2) by (auto simp: free_run_def)
    qed
    then show ?thesis
      using used prems "1.IH"(1) by (subst alloc_scan.simps) simp
  next
    case hit
    let ?b = "i - run"
    have fr: "free_run s ?b n"
      unfolding free_run_def
    proof (intro conjI allI impI)
      show "?b + n \<le> total_pages s" using hit prems by simp
      fix j assume "j < n"
      then have "?b + j \<in> {?b..<i} \<or> ?b + j = i" using hit(3) prems(3) by auto
      then show "\<not> used_get s (?b + j)" using hit(2) prems(4) by auto
    qed
    then have "(LEAST b. free_run s b n) = ?b"
      using prems(5) by (intro Least_equality) auto
    moreover have "i + 1 - n = ?b" using hit prems by simp
    ultimately show ?thesis
      using hit fr by (subst alloc_scan.simps) (auto simp: take_run_def Let_def)
  next
    case go
    have "\<forall>j \<in> {i + 1 - (run + 1)..<i + 1}. \<not> used_get s j"
      using prems(4) go(2) by (auto simp: less_Suc_eq)
    then show ?thesis
      using go prems "1.IH"(2) by (subst alloc_scan.simps) simp
  qed
qed

section \<open>Allocation\<close>

lemma free_run_card:
  assumes "free_run s b n"
  shows "n \<le> card (pmm_free_set s)"
proof -
  have "{b..<b + n} \<subseteq> pmm_free_set s"
  proof
    fix q assume "q \<in> {b..<b + n}"
    then obtain j where "q = b + j" "j < n" by (metis atLeastLessThan_iff le_Suc_ex nat_add_left_cancel_less)
    then show "q \<in> pmm_free_set s" using assms by (auto simp: free_run_def pmm_free_set_def)
  qed
  then have "card {b..<b + n} \<le> card (pmm_free_set s)" by (rule card_mono [rotated]) simp
  then show ?thesis by simp
qed

lemma shl_page_id: "pmm_shape s \<Longrightarrow> b \<le> total_pages s \<Longrightarrow> shl_page b = b * PAGE_SIZE"
  by (auto simp: shl_page_def pmm_shape_def)

lemma pmm_alloc_pages_eq:
  assumes inv: "pmm_inv s"
  shows "pmm_alloc_pages n s =
    (if 0 < n \<and> (\<exists>b. free_run s b n)
     then let b = (LEAST b. free_run s b n) in (b * PAGE_SIZE, take_run b n s) else (0, s))"
proof (cases "0 < n \<and> (\<exists>b. free_run s b n)")
  case True
  then obtain b where b: "free_run s b n" by blast
  with inv have "n \<le> free_pages s" by (auto simp: pmm_inv_def dest: free_run_card)
  then have "pmm_alloc_pages n s = alloc_scan n s 0 0" using True by (simp add: pmm_alloc_pages_def)
  also have "\<dots> = (let b = (LEAST b. free_run s b n) in (shl_page b, take_run b n s))"
    using True by (simp add: alloc_scan_spec)
  finally have 1: "pmm_alloc_pages n s = (let b = (LEAST b. free_run s b n) in (shl_page b, take_run b n s))" .
  have "free_run s (LEAST b. free_run s b n) n" using b by (rule LeastI)
  then have "(LEAST b. free_run s b n) \<le> total_pages s" by (simp add: free_run_def)
  with inv have "shl_page (LEAST b. free_run s b n) = (LEAST b. free_run s b n) * PAGE_SIZE"
    by (metis pmm_inv_def shl_page_id)
  with True 1 show ?thesis by (simp add: Let_def)
next
  case False
  then show ?thesis
    by (auto simp: pmm_alloc_pages_def alloc_scan_spec)
qed

lemma take_run_fields [simp]:
  "total_pages (take_run b n s) = total_pages s" "resv_bitmap (take_run b n s) = resv_bitmap s"
  "max_paddr (take_run b n s) = max_paddr s" "bitmap_words (take_run b n s) = bitmap_words s"
  "free_pages (take_run b n s) = free_pages s - n"
  by (simp_all add: take_run_def fold_used_set Let_def)

lemma take_run_used:
  assumes "pmm_shape s" "b + n \<le> total_pages s"
  shows "length (used_bitmap (take_run b n s)) = length (used_bitmap s)"
    and "used_get (take_run b n s) q \<longleftrightarrow> q \<in> {b..<b + n} \<or> used_get s q"
proof -
  have "\<forall>j \<in> set [0..<n]. (b + j) div 64 < length (used_bitmap s)"
    using shape_div [OF assms(1)] assms(2) by auto
  note f = bm_fold_set [OF this, of q]
  have "(\<lambda>j. b + j) ` set [0..<n] = {b..<b + n}" by (simp only: set_upt image_plus_range)
  with f show "length (used_bitmap (take_run b n s)) = length (used_bitmap s)"
    "used_get (take_run b n s) q \<longleftrightarrow> q \<in> {b..<b + n} \<or> used_get s q"
    by (auto simp: take_run_def fold_used_set Let_def used_get_def)
qed

lemma resv_get_take_run [simp]: "resv_get (take_run b n s) q = resv_get s q"
  by (simp add: resv_get_def)

lemma take_run_free_set:
  assumes "pmm_shape s" "free_run s b n"
  shows "pmm_free_set (take_run b n s) = pmm_free_set s - {b..<b + n}"
  using assms by (auto simp: pmm_free_set_def free_run_def take_run_used)

lemma free_run_subset: "free_run s b n \<Longrightarrow> {b..<b + n} \<subseteq> pmm_free_set s"
proof
  fix q assume "free_run s b n" "q \<in> {b..<b + n}"
  then have "q = b + (q - b)" "q - b < n" "b + n \<le> total_pages s" by (auto simp: free_run_def)
  with \<open>free_run s b n\<close> show "q \<in> pmm_free_set s"
    unfolding free_run_def pmm_free_set_def by (metis (mono_tags, lifting) mem_Collect_eq nat_add_left_cancel_less order_less_le_trans)
qed

lemma take_run_inv:
  assumes "pmm_inv s" "free_run s b n"
  shows "pmm_inv (take_run b n s)"
proof -
  have sh: "pmm_shape s" and fr: "free_pages s = card (pmm_free_set s)"
    and rs: "\<forall>p < total_pages s. resv_get s p \<longrightarrow> used_get s p"
    using assms(1) by (auto simp: pmm_inv_def)
  have le: "b + n \<le> total_pages s" using assms(2) by (simp add: free_run_def)
  have "pmm_shape (take_run b n s)"
    using sh take_run_used(1) [OF sh le] by (simp add: pmm_shape_def)
  moreover have "free_pages (take_run b n s) = card (pmm_free_set (take_run b n s))"
    using fr free_run_subset [OF assms(2)] take_run_free_set [OF sh assms(2)]
    by (simp add: card_Diff_subset)
  moreover have "\<forall>p < total_pages (take_run b n s).
      resv_get (take_run b n s) p \<longrightarrow> used_get (take_run b n s) p"
    using rs take_run_used(2) [OF sh le] by simp
  ultimately show ?thesis by (simp add: pmm_inv_def)
qed

section \<open>Release\<close>

definition give_run :: "nat \<Rightarrow> nat \<Rightarrow> pmm \<Rightarrow> pmm" where
  "give_run b n s = (let s' = fold (\<lambda>j. used_clear (b + j)) [0..<n] s
                     in s'\<lparr>free_pages := free_pages s' + n\<rparr>)"

lemma give_run_fields [simp]:
  "total_pages (give_run b n s) = total_pages s" "resv_bitmap (give_run b n s) = resv_bitmap s"
  "max_paddr (give_run b n s) = max_paddr s" "bitmap_words (give_run b n s) = bitmap_words s"
  "free_pages (give_run b n s) = free_pages s + n"
  by (simp_all add: give_run_def fold_used_clear Let_def)

lemma give_run_used:
  assumes "pmm_shape s" "b + n \<le> total_pages s"
  shows "length (used_bitmap (give_run b n s)) = length (used_bitmap s)"
    and "used_get (give_run b n s) q \<longleftrightarrow> q \<notin> {b..<b + n} \<and> used_get s q"
proof -
  have "\<forall>j \<in> set [0..<n]. (b + j) div 64 < length (used_bitmap s)"
    using shape_div [OF assms(1)] assms(2) by auto
  note f = bm_fold_clear [OF this, of q]
  have "(\<lambda>j. b + j) ` set [0..<n] = {b..<b + n}" by (simp only: set_upt image_plus_range)
  with f show "length (used_bitmap (give_run b n s)) = length (used_bitmap s)"
    "used_get (give_run b n s) q \<longleftrightarrow> q \<notin> {b..<b + n} \<and> used_get s q"
    by (auto simp: give_run_def fold_used_clear Let_def used_get_def)
qed

text \<open>When a run may be freed: what the checks of \<open>pmm_free_pages\<close> amount to.\<close>

definition freeable :: "pmm \<Rightarrow> paddr \<Rightarrow> nat \<Rightarrow> bool" where
  "freeable s a n \<longleftrightarrow> 0 < n \<and> PAGE_SIZE dvd a \<and> a div PAGE_SIZE + n \<le> total_pages s \<and>
     (\<forall>p \<in> {a div PAGE_SIZE..<a div PAGE_SIZE + n}. used_get s p \<and> \<not> resv_get s p)"

lemma free_range_check:
  assumes sh: "pmm_shape s" and n: "n < 2251799813685248" and a: "PAGE_SIZE dvd a" "a < max_paddr s"
  shows "wrap64 (a + shl_page n) > max_paddr s \<longleftrightarrow> total_pages s < a div PAGE_SIZE + n"
proof -
  obtain k where k: "a = PAGE_SIZE * k" using a(1) unfolding dvd_def by blast
  have "shl_page n = n * PAGE_SIZE" using n by (simp add: shl_page_def)
  moreover have "a + n * PAGE_SIZE < two64" using n a(2) sh by (simp add: pmm_shape_def)
  ultimately have "wrap64 (a + shl_page n) = (k + n) * PAGE_SIZE" using k by simp
  moreover have "total_pages s * PAGE_SIZE < (k + n) * PAGE_SIZE \<longleftrightarrow> total_pages s < k + n"
    by (rule mult_less_cancel2 [THEN trans]) simp
  ultimately show ?thesis using k sh by (simp add: pmm_shape_def)
qed

lemma pmm_free_pages_eq:
  assumes sh: "pmm_shape s" and n: "n < 2251799813685248"
  shows "pmm_free_pages a n s =
    (if freeable s a n then (True, give_run (a div PAGE_SIZE) n s) else (False, s))"
proof -
  let ?b = "a div PAGE_SIZE"
  have img: "(\<exists>i \<in> {0..<n}. resv_get s (?b + i) \<or> \<not> used_get s (?b + i)) \<longleftrightarrow>
      \<not> (\<forall>p \<in> {?b..<?b + n}. used_get s p \<and> \<not> resv_get s p)"
    unfolding ball_shift by (auto simp: Bex_def)
  have lt: "a < max_paddr s" if "PAGE_SIZE dvd a" "?b + n \<le> total_pages s" "0 < n"
  proof -
    have "a = ?b * PAGE_SIZE" using that(1) by simp
    moreover have "?b < total_pages s" using that(2,3) by simp
    ultimately show ?thesis using sh unfolding pmm_shape_def
      by (metis mult_less_mono1 zero_less_numeral)
  qed
  show ?thesis
  proof (cases "n = 0 \<or> \<not> PAGE_SIZE dvd a \<or> a \<ge> max_paddr s")
    case True
    then have "\<not> freeable s a n" using lt by (auto simp: freeable_def)
    then show ?thesis using True by (auto simp: pmm_free_pages_def mod_eq_0_iff_dvd)
  next
    case False
    then have 1: "pmm_free_pages a n s =
       (if total_pages s < ?b + n then (False, s)
        else if \<exists>i \<in> {0..<n}. resv_get s (?b + i) \<or> \<not> used_get s (?b + i) then (False, s)
        else (True, give_run ?b n s))"
      using free_range_check [OF sh n, of a]
      by (simp add: pmm_free_pages_def give_run_def mod_eq_0_iff_dvd Let_def)
    show ?thesis unfolding 1 img freeable_def using False by auto
  qed
qed

lemma give_run_inv_aux:
  assumes inv: "pmm_inv s" and le: "b + n \<le> total_pages s"
    and us: "\<forall>p \<in> {b..<b + n}. used_get s p \<and> \<not> resv_get s p"
  shows "pmm_inv (give_run b n s) \<and> pmm_free_set (give_run b n s) = pmm_free_set s \<union> {b..<b + n}"
proof -
  have sh: "pmm_shape s" using inv by (simp add: pmm_inv_def)
  have fs: "pmm_free_set (give_run b n s) = pmm_free_set s \<union> {b..<b + n}"
    using le by (auto simp: pmm_free_set_def give_run_used(2) [OF sh le])
  have "pmm_free_set s \<inter> {b..<b + n} = {}"
    using us unfolding pmm_free_set_def by blast
  then have "card (pmm_free_set (give_run b n s)) = free_pages s + n"
    using inv by (simp add: fs card_Un_disjoint pmm_inv_def)
  moreover have "pmm_shape (give_run b n s)"
    using sh give_run_used(1) [OF sh le] by (simp add: pmm_shape_def)
  moreover have "used_get (give_run b n s) p" if "p < total_pages s" "resv_get s p" for p
  proof -
    have "used_get s p" using inv that by (simp add: pmm_inv_def)
    moreover have "p \<notin> {b..<b + n}" using us that(2) by blast
    ultimately show ?thesis using give_run_used(2) [OF sh le, of p] by blast
  qed
  moreover have "resv_get (give_run b n s) p = resv_get s p" for p by (simp add: resv_get_def)
  ultimately show ?thesis
    using fs by (simp add: pmm_inv_def)
qed

lemma give_run_inv:
  assumes inv: "pmm_inv s" and fr: "freeable s a n"
  shows "pmm_inv (give_run (a div PAGE_SIZE) n s)"
    and "pmm_free_set (give_run (a div PAGE_SIZE) n s) =
         pmm_free_set s \<union> {a div PAGE_SIZE..<a div PAGE_SIZE + n}"
  using give_run_inv_aux [OF inv, of "a div PAGE_SIZE" n] fr unfolding freeable_def by blast+

lemma give_take_run:
  assumes "pmm_shape s" "free_run s b n" "n \<le> free_pages s"
  shows "give_run b n (take_run b n s) = s"
proof -
  have le: "b + n \<le> total_pages s" using assms(2) by (simp add: free_run_def)
  have sh: "pmm_shape (take_run b n s)"
    using assms(1) take_run_used(1) [OF assms(1) le] by (simp add: pmm_shape_def)
  have nf: "q \<in> {b..<b + n} \<Longrightarrow> \<not> used_get s q" for q
    using free_run_subset [OF assms(2)] by (auto simp: pmm_free_set_def)
  have "used_bitmap (give_run b n (take_run b n s)) = used_bitmap s"
  proof (rule bm_eqI)
    show "length (used_bitmap (give_run b n (take_run b n s))) = length (used_bitmap s)"
      using give_run_used(1) [OF sh] take_run_used(1) [OF assms(1) le] le by simp
    fix q
    have "used_get (give_run b n (take_run b n s)) q = used_get s q"
      using give_run_used(2) [OF sh, of b n q] take_run_used(2) [OF assms(1) le, of q] nf [of q] le
      by simp blast
    then show "bm_get (used_bitmap (give_run b n (take_run b n s))) q = bm_get (used_bitmap s) q"
      by (simp add: used_get_def)
  qed
  then show ?thesis
    using assms(3) by (intro pmm.equality) simp_all
qed

section \<open>Initialisation\<close>

text \<open>A page lies wholly inside a region, or shares a byte with it.\<close>

definition covers :: "memory_region \<Rightarrow> nat \<Rightarrow> bool" where
  "covers r p \<longleftrightarrow> mr_base r \<le> p * PAGE_SIZE \<and> (p + 1) * PAGE_SIZE \<le> mr_base r + mr_size r"

definition touches :: "memory_region \<Rightarrow> nat \<Rightarrow> bool" where
  "touches r p \<longleftrightarrow> mr_base r < (p + 1) * PAGE_SIZE \<and> p * PAGE_SIZE < mr_base r + mr_size r"

definition region_ok :: "memory_region \<Rightarrow> bool" where
  "region_ok r \<longleftrightarrow> mr_size r \<noteq> 0 \<and> mr_base r + mr_size r + PAGE_SIZE \<le> two64"

lemma page_in_range:
  assumes "PAGE_SIZE dvd a" "PAGE_SIZE dvd e"
  shows "p \<in> {a div PAGE_SIZE..<e div PAGE_SIZE} \<longleftrightarrow> a \<le> p * PAGE_SIZE \<and> (p + 1) * PAGE_SIZE \<le> e"
proof -
  obtain k m where "a = PAGE_SIZE * k" "e = PAGE_SIZE * m" using assms unfolding dvd_def by blast
  then show ?thesis by auto
qed

lemma cap_dvd: "pmm_shape s \<Longrightarrow> PAGE_SIZE dvd e \<Longrightarrow> PAGE_SIZE dvd (if e > max_paddr s then max_paddr s else e)"
  by (auto simp: pmm_shape_def)

lemma steps_shape:
  assumes "pmm_shape s" "e \<le> max_paddr s"
  shows "\<forall>x \<in> set (addr_steps a e). x div PAGE_SIZE div 64 < length (used_bitmap s) \<and>
           x div PAGE_SIZE div 64 < length (resv_bitmap s)"
proof
  fix x assume "x \<in> set (addr_steps a e)"
  then have "x < max_paddr s" using assms(2) addr_steps_less [of x a e] by linarith
  then have "x div PAGE_SIZE < total_pages s"
    using assms(1) by (simp add: pmm_shape_def less_mult_imp_div_less)
  then show "x div PAGE_SIZE div 64 < length (used_bitmap s) \<and>
           x div PAGE_SIZE div 64 < length (resv_bitmap s)"
    using shape_div [OF assms(1)] by blast
qed

lemma mark_usable_spec:
  assumes sh: "pmm_shape s" and ok: "region_ok r"
  obtains u where "mark_usable (mr_base r) (mr_size r) s = s\<lparr>used_bitmap := u\<rparr>"
    and "length u = length (used_bitmap s)"
    and "\<And>p. p < total_pages s \<Longrightarrow> bm_get u p \<longleftrightarrow> used_get s p \<and> \<not> covers r p"
proof -
  let ?a = "align_up PAGE_SIZE (mr_base r)"
  let ?z = "align_down PAGE_SIZE (mr_base r + mr_size r)"
  let ?e = "if ?z > max_paddr s then max_paddr s else ?z"
  let ?u = "fold (\<lambda>x bm. bm_clear bm (x div PAGE_SIZE)) (addr_steps ?a ?e) (used_bitmap s)"
  have w: "wrap64 (mr_base r + mr_size r) = mr_base r + mr_size r" and b: "mr_base r + (PAGE_SIZE - 1) < two64"
    using ok by (auto simp: region_ok_def)
  have "addr_steps ?a ?e = []" if "?a \<ge> ?e" using that by (simp add: addr_steps_def)
  then have eq: "mark_usable (mr_base r) (mr_size r) s = s\<lparr>used_bitmap := ?u\<rparr>"
    by (simp add: mark_usable_def w Let_def fold_used_clear)
  have le: "?e \<le> max_paddr s" by simp
  have f: "length ?u = length (used_bitmap s) \<and>
      bm_get ?u p = (p \<notin> (\<lambda>x. x div PAGE_SIZE) ` set (addr_steps ?a ?e) \<and> bm_get (used_bitmap s) p)" for p
    by (rule bm_fold_clear) (use steps_shape [OF sh le] in blast)
  have d: "PAGE_SIZE dvd ?a" "PAGE_SIZE dvd ?e" using cap_dvd [OF sh] by simp_all
  have cov: "(?a \<le> p * PAGE_SIZE \<and> (p + 1) * PAGE_SIZE \<le> ?e) = covers r p" if "p < total_pages s" for p
  proof -
    have "(p + 1) * PAGE_SIZE \<le> max_paddr s"
      using that sh unfolding pmm_shape_def by (metis Suc_eq_plus1 Suc_leI mult_le_mono1)
    then have "(p + 1) * PAGE_SIZE \<le> ?e \<longleftrightarrow> (p + 1) * PAGE_SIZE \<le> ?z" by auto
    also have "\<dots> \<longleftrightarrow> (p + 1) * PAGE_SIZE \<le> mr_base r + mr_size r"
      by (rule le_align_down_iff) simp
    finally show ?thesis
      using align_up_le_iff [of PAGE_SIZE "p * PAGE_SIZE" "mr_base r"] b by (simp add: covers_def)
  qed
  show thesis
  proof (rule that [OF eq])
    show "length ?u = length (used_bitmap s)" using f by blast
    show "bm_get ?u p \<longleftrightarrow> used_get s p \<and> \<not> covers r p" if "p < total_pages s" for p
      using f [of p] cov [OF that] unfolding addr_steps_pages [OF d] page_in_range [OF d] used_get_def
      by blast
  qed
qed

lemma mark_reserved_spec:
  assumes sh: "pmm_shape s" and ok: "region_ok r"
  obtains u v where
    "mark_reserved (mr_base r) (mr_size r) s = s\<lparr>used_bitmap := u, resv_bitmap := v\<rparr>"
    and "length u = length (used_bitmap s)" and "length v = length (resv_bitmap s)"
    and "\<And>p. p < total_pages s \<Longrightarrow> bm_get u p \<longleftrightarrow> used_get s p \<or> touches r p"
    and "\<And>p. p < total_pages s \<Longrightarrow> bm_get v p \<longleftrightarrow> resv_get s p \<or> touches r p"
proof -
  let ?a = "align_down PAGE_SIZE (mr_base r)"
  let ?z = "align_up PAGE_SIZE (mr_base r + mr_size r)"
  let ?e = "if ?z > max_paddr s then max_paddr s else ?z"
  let ?f = "\<lambda>bm. fold (\<lambda>x bm. bm_set bm (x div PAGE_SIZE)) (addr_steps ?a ?e) bm"
  have w: "wrap64 (mr_base r + mr_size r) = mr_base r + mr_size r"
    and b: "mr_base r + mr_size r + (PAGE_SIZE - 1) < two64"
    using ok by (auto simp: region_ok_def)
  have "addr_steps ?a ?e = []" if "?a \<ge> ?e" using that by (simp add: addr_steps_def)
  then have eq: "mark_reserved (mr_base r) (mr_size r) s =
      s\<lparr>used_bitmap := ?f (used_bitmap s), resv_bitmap := ?f (resv_bitmap s)\<rparr>"
    by (simp add: mark_reserved_def w Let_def fold_resv_set [unfolded Let_def])
  have le: "?e \<le> max_paddr s" by simp
  have f: "length (?f bm) = length bm \<and>
      bm_get (?f bm) p = (p \<in> (\<lambda>x. x div PAGE_SIZE) ` set (addr_steps ?a ?e) \<or> bm_get bm p)"
    if "bm = used_bitmap s \<or> bm = resv_bitmap s" for p bm
    by (rule bm_fold_set) (use steps_shape [OF sh le] that in blast)
  have d: "PAGE_SIZE dvd ?a" "PAGE_SIZE dvd ?e" using cap_dvd [OF sh] by simp_all
  have tch: "(?a \<le> p * PAGE_SIZE \<and> (p + 1) * PAGE_SIZE \<le> ?e) = touches r p" if "p < total_pages s" for p
  proof -
    have m: "(p + 1) * PAGE_SIZE \<le> max_paddr s"
      using that sh unfolding pmm_shape_def by (metis Suc_eq_plus1 Suc_leI mult_le_mono1)
    have "(p + 1) * PAGE_SIZE \<le> ?z \<longleftrightarrow> p * PAGE_SIZE < ?z"
    proof -
      obtain k where "?z = PAGE_SIZE * k" using align_up_dvd [of PAGE_SIZE] unfolding dvd_def by blast
      then show ?thesis by auto
    qed
    also have "\<dots> \<longleftrightarrow> p * PAGE_SIZE < mr_base r + mr_size r"
      using align_up_le_iff [of PAGE_SIZE "p * PAGE_SIZE" "mr_base r + mr_size r"] b by (simp add: not_le [symmetric])
    finally have 1: "(p + 1) * PAGE_SIZE \<le> ?e \<longleftrightarrow> p * PAGE_SIZE < mr_base r + mr_size r" using m by auto
    have "?a \<le> p * PAGE_SIZE \<longleftrightarrow> ?a < (p + 1) * PAGE_SIZE"
    proof -
      obtain k where "?a = PAGE_SIZE * k" using align_down_dvd [of PAGE_SIZE] unfolding dvd_def by blast
      then show ?thesis by auto
    qed
    also have "\<dots> \<longleftrightarrow> mr_base r < (p + 1) * PAGE_SIZE"
      using le_align_down_iff [of PAGE_SIZE "(p + 1) * PAGE_SIZE" "mr_base r"] by (simp add: not_le [symmetric])
    finally show ?thesis using 1 by (simp add: touches_def)
  qed
  show thesis
  proof (rule that [OF eq])
    show "length (?f (used_bitmap s)) = length (used_bitmap s)"
      "length (?f (resv_bitmap s)) = length (resv_bitmap s)" using f by blast+
    show "bm_get (?f (used_bitmap s)) p \<longleftrightarrow> used_get s p \<or> touches r p" if "p < total_pages s" for p
      using f [of "used_bitmap s" p] tch [OF that]
      unfolding addr_steps_pages [OF d] page_in_range [OF d] used_get_def by blast
    show "bm_get (?f (resv_bitmap s)) p \<longleftrightarrow> resv_get s p \<or> touches r p" if "p < total_pages s" for p
      using f [of "resv_bitmap s" p] tch [OF that]
      unfolding addr_steps_pages [OF d] page_in_range [OF d] resv_get_def by blast
  qed
qed

lemma mark_usable_fold:
  assumes "pmm_shape s" "\<forall>r \<in> set rs. region_ok r"
  shows "\<exists>u. fold (\<lambda>r s. if mr_type r = MEMORY_USABLE then mark_usable (mr_base r) (mr_size r) s else s) rs s
               = s\<lparr>used_bitmap := u\<rparr> \<and> length u = length (used_bitmap s) \<and>
           (\<forall>p < total_pages s. bm_get u p \<longleftrightarrow>
              used_get s p \<and> \<not> (\<exists>r \<in> set rs. mr_type r = MEMORY_USABLE \<and> covers r p))"
  using assms
proof (induction rs arbitrary: s)
  case Nil
  show ?case by (intro exI [of _ "used_bitmap s"]) (simp add: used_get_def)
next
  case (Cons r rs)
  show ?case
  proof (cases "mr_type r = MEMORY_USABLE")
    case True
    obtain u where u: "mark_usable (mr_base r) (mr_size r) s = s\<lparr>used_bitmap := u\<rparr>"
      "length u = length (used_bitmap s)"
      "\<And>p. p < total_pages s \<Longrightarrow> bm_get u p \<longleftrightarrow> used_get s p \<and> \<not> covers r p"
      using mark_usable_spec [of s r] Cons.prems by auto
    have "pmm_shape (s\<lparr>used_bitmap := u\<rparr>)" using Cons.prems(1) u(2) by (simp add: pmm_shape_def)
    with Cons.IH [of "s\<lparr>used_bitmap := u\<rparr>"] Cons.prems(2) show ?thesis
      by (auto simp: True u used_get_def)
  qed (use Cons in auto)
qed

lemma mark_reserved_fold:
  assumes "pmm_shape s" "\<forall>r \<in> set rs. region_ok r"
  shows "\<exists>u v. fold (\<lambda>r s. if mr_type r \<noteq> MEMORY_USABLE then mark_reserved (mr_base r) (mr_size r) s else s) rs s
               = s\<lparr>used_bitmap := u, resv_bitmap := v\<rparr> \<and>
           length u = length (used_bitmap s) \<and> length v = length (resv_bitmap s) \<and>
           (\<forall>p < total_pages s.
              (bm_get u p \<longleftrightarrow> used_get s p \<or> (\<exists>r \<in> set rs. mr_type r \<noteq> MEMORY_USABLE \<and> touches r p)) \<and>
              (bm_get v p \<longleftrightarrow> resv_get s p \<or> (\<exists>r \<in> set rs. mr_type r \<noteq> MEMORY_USABLE \<and> touches r p)))"
  using assms
proof (induction rs arbitrary: s)
  case Nil
  show ?case by (intro exI [of _ "used_bitmap s"] exI [of _ "resv_bitmap s"]) (simp add: used_get_def resv_get_def)
next
  case (Cons r rs)
  show ?case
  proof (cases "mr_type r = MEMORY_USABLE")
    case False
    obtain u v where u: "mark_reserved (mr_base r) (mr_size r) s = s\<lparr>used_bitmap := u, resv_bitmap := v\<rparr>"
      "length u = length (used_bitmap s)" "length v = length (resv_bitmap s)"
      "\<And>p. p < total_pages s \<Longrightarrow> bm_get u p \<longleftrightarrow> used_get s p \<or> touches r p"
      "\<And>p. p < total_pages s \<Longrightarrow> bm_get v p \<longleftrightarrow> resv_get s p \<or> touches r p"
      by (rule mark_reserved_spec [of s r]) (use Cons.prems in \<open>auto simp del: One_nat_def\<close>)
    have "pmm_shape (s\<lparr>used_bitmap := u, resv_bitmap := v\<rparr>)"
      using Cons.prems(1) u(2,3) by (simp add: pmm_shape_def)
    with Cons.IH [of "s\<lparr>used_bitmap := u, resv_bitmap := v\<rparr>"] Cons.prems(2) show ?thesis
      by (auto simp: False u used_get_def resv_get_def simp del: One_nat_def)
  qed (use Cons in auto)
qed

lemma fill_loop:
  "n \<le> length u \<Longrightarrow> n \<le> length v \<Longrightarrow>
   fold (\<lambda>i s. s\<lparr>used_bitmap := (used_bitmap s)[i := a], resv_bitmap := (resv_bitmap s)[i := b]\<rparr>) [0..<n]
     (s\<lparr>used_bitmap := u, resv_bitmap := v\<rparr>) =
   s\<lparr>used_bitmap := replicate n a @ drop n u, resv_bitmap := replicate n b @ drop n v\<rparr>"
proof (induction n)
  case (Suc n)
  have "(replicate n x @ drop n w)[n := x] = replicate (Suc n) x @ drop (Suc n) w" if "Suc n \<le> length w" for x :: u64 and w
    using that by (simp add: list_update_append replicate_append_same Cons_nth_drop_Suc [symmetric])
  with Suc show ?case by simp
qed simp

lemma free_count:
  "fold (\<lambda>i n. if \<not> P i then n + 1 else n) [0..<k] (0::nat) = card {p. p < k \<and> \<not> P p}"
proof (induction k)
  case (Suc k)
  have "{p. p < Suc k \<and> \<not> P p} = (if P k then {} else {k}) \<union> {p. p < k \<and> \<not> P p}"
    by (auto simp: less_Suc_eq)
  with Suc show ?case by simp
qed simp

definition usable_end :: "memory_region list \<Rightarrow> nat" where
  "usable_end rs = Max (insert 0 ((\<lambda>r. mr_base r + mr_size r) ` set (filter (\<lambda>r. mr_type r = MEMORY_USABLE) rs)))"

lemma usable_top_eq:
  assumes "memmap_inv m" "\<forall>r \<in> set (memmap_list m). region_ok r"
  shows "usable_top m = align_up PAGE_SIZE (usable_end (memmap_list m))"
proof -
  let ?g = "\<lambda>r. if mr_type r = MEMORY_USABLE then mr_base r + mr_size r else 0"
  have "fold (\<lambda>r top. if mr_type r \<noteq> MEMORY_USABLE then top
                  else let e = wrap64 (mr_base r + mr_size r) in if e > top then e else top) (memmap_list m) 0
      = fold (\<lambda>r top. if ?g r > top then ?g r else top) (memmap_list m) 0"
  proof (intro fold_cong refl ext)
    fix r top assume "r \<in> set (memmap_list m)"
    then have "wrap64 (mr_base r + mr_size r) = mr_base r + mr_size r"
      using assms(2) by (auto simp: region_ok_def)
    then show "(if mr_type r \<noteq> MEMORY_USABLE then top
                  else let e = wrap64 (mr_base r + mr_size r) in if e > top then e else top) =
               (if ?g r > top then ?g r else top)" by simp
  qed
  also have "\<dots> = Max (insert 0 (?g ` set (memmap_list m)))" by (rule fold_max_Max)
  also have "\<dots> = usable_end (memmap_list m)"
    unfolding usable_end_def by (rule arg_cong [where f = Max]) auto
  finally show ?thesis
    using memmap_scan [OF assms(1), of "\<lambda>r top. if mr_type r \<noteq> MEMORY_USABLE then top
                  else let e = wrap64 (mr_base r + mr_size r) in if e > top then e else top" 0]
    by (auto simp: usable_top_def align_up_id Let_def)
qed

lemma usable_end_pos:
  assumes ok: "\<forall>r \<in> set rs. region_ok r" and us: "\<exists>r \<in> set rs. mr_type r = MEMORY_USABLE"
  shows "0 < align_up PAGE_SIZE (usable_end rs)"
proof -
  have pos: "usable_end rs > 0"
    using us ok unfolding usable_end_def region_ok_def by (subst Max_gr_iff) auto
  have "usable_end rs \<le> two64 - PAGE_SIZE"
    using ok unfolding usable_end_def region_ok_def by (subst Max_le_iff) auto
  then have "usable_end rs + (PAGE_SIZE - 1) < two64" by simp
  then show ?thesis using align_up_ge [of PAGE_SIZE "usable_end rs"] pos by simp
qed

abbreviation is_usable :: "memory_region \<Rightarrow> bool" where
  "is_usable r \<equiv> mr_type r = MEMORY_USABLE"

text \<open>The three loops of \<open>pmm_init\<close> as one composition over the list of regions.\<close>

lemma pmm_init_steps:
  assumes inv: "memmap_inv m" and t: "usable_top m = t" "0 < t" and mx: "mx = min PMM_MAX_TRACKED_BYTES t"
    and n: "n = mx div PAGE_SIZE" and w: "w = (n + 64 - 1) div 64"
    and len: "length (used_bitmap s) = 4096" "length (resv_bitmap s) = 4096"
  shows "w \<le> 4096 \<and> pmm_init m s =
    (let s1 = s\<lparr>max_paddr := mx, total_pages := n, bitmap_words := w,
               used_bitmap := replicate w (NOT 0) @ drop w (used_bitmap s),
               resv_bitmap := replicate w 0 @ drop w (resv_bitmap s)\<rparr>;
         s2 = fold (\<lambda>r s. if is_usable r then mark_usable (mr_base r) (mr_size r) s else s) (memmap_list m) s1;
         s3 = fold (\<lambda>r s. if \<not> is_usable r then mark_reserved (mr_base r) (mr_size r) s else s) (memmap_list m) s2
     in Some (s3\<lparr>free_pages := card (pmm_free_set s3)\<rparr>))"
proof -
  have "n \<le> 262144" using n mx by simp
  then have w4: "w \<le> 4096" using w by linarith
  have w': "(63 + n) div 64 = w" using w by simp
  have "(if t > PMM_MAX_TRACKED_BYTES then PMM_MAX_TRACKED_BYTES else t) = mx" using mx by simp
  moreover have "fold (\<lambda>i s. s\<lparr>used_bitmap := (used_bitmap s)[i := NOT 0], resv_bitmap := (resv_bitmap s)[i := 0]\<rparr>)
      [0..<w] (s\<lparr>max_paddr := mx, total_pages := n, bitmap_words := w\<rparr>) =
      s\<lparr>max_paddr := mx, total_pages := n, bitmap_words := w,
        used_bitmap := replicate w (NOT 0) @ drop w (used_bitmap s),
        resv_bitmap := replicate w 0 @ drop w (resv_bitmap s)\<rparr>"
    using fill_loop [where n = w and a = "NOT 0" and b = 0 and u = "used_bitmap s" and v = "resv_bitmap s"
        and s = "s\<lparr>max_paddr := mx, total_pages := n, bitmap_words := w\<rparr>"] w4 len by simp
  ultimately show ?thesis
    unfolding pmm_init_def Let_def t(1)
      memmap_scan [OF inv, of "\<lambda>r s. if is_usable r then mark_usable (mr_base r) (mr_size r) s else s"]
      memmap_scan [OF inv, of "\<lambda>r s. if \<not> is_usable r then mark_reserved (mr_base r) (mr_size r) s else s"]
    using t(2) w4 w' by (simp add: n [symmetric] free_count pmm_free_set_def)
qed

section \<open>The interface to the clients of the allocator\<close>

text \<open>What the page-table code and the heap rely on: single pages, handed out and taken
  back.  \<open>free s\<close> is the set of addresses of free pages.\<close>

locale page_allocator =
  fixes inv :: "'s \<Rightarrow> bool"
    and free :: "'s \<Rightarrow> paddr set"
    and alloc :: "'s \<Rightarrow> paddr \<times> 's"
    and release :: "paddr \<Rightarrow> 's \<Rightarrow> bool \<times> 's"
  assumes alloc_ok: "inv s \<Longrightarrow> free s \<noteq> {} \<Longrightarrow> alloc s = (a, s') \<Longrightarrow>
      a \<in> free s \<and> free s' = free s - {a} \<and> inv s'"
    and alloc_empty: "inv s \<Longrightarrow> free s = {} \<Longrightarrow> alloc s = (0, s)"
    and free_aligned: "inv s \<Longrightarrow> a \<in> free s \<Longrightarrow> a \<noteq> 0 \<and> PAGE_SIZE dvd a"
    and release_ok: "inv s \<Longrightarrow> release a s = (True, s') \<Longrightarrow>
      a \<notin> free s \<and> a \<noteq> 0 \<and> free s' = insert a (free s) \<and> inv s'"
    and release_bad: "inv s \<Longrightarrow> release a s = (False, s') \<Longrightarrow> s' = s"
begin

lemma alloc_cases:
  assumes "inv s" "alloc s = (a, s')"
  shows "inv s' \<and> free s' = free s - {a} \<and>
    (if a = 0 then free s = {} \<and> s' = s else a \<in> free s \<and> PAGE_SIZE dvd a)"
proof (cases "free s = {}")
  case True
  then show ?thesis using alloc_empty [OF assms(1)] assms by simp
next
  case False
  then show ?thesis using alloc_ok [OF assms(1) _ assms(2)] free_aligned [OF assms(1)] by auto
qed

lemma release_cases:
  assumes "inv s" "release a s = (ok, s')"
  shows "inv s' \<and> free s' = (if ok then insert a (free s) else free s) \<and> (ok \<longrightarrow> a \<notin> free s \<and> a \<noteq> 0)"
  using release_ok [OF assms(1)] release_bad [OF assms(1)] assms by (cases ok) auto

text \<open>Two pages handed out with no release between them differ.\<close>

lemma alloc_twice:
  assumes "inv s" "alloc s = (a, s1)" "inv s1" "free s1 \<subseteq> free s - {a}" "alloc s1 = (b, s2)" "b \<noteq> 0"
  shows "a \<noteq> b"
  using alloc_cases [OF assms(3,5)] assms(4,6) by auto

end

text \<open>Page 0 is reserved (\<^verbatim>\<open>kmain\<close> reserves the first megabyte), so that the address
  \<open>0\<close> can stand for failure.\<close>

definition pmm_ok :: "pmm \<Rightarrow> bool" where
  "pmm_ok s \<longleftrightarrow> pmm_inv s \<and> resv_get s 0"

definition free_addrs :: "pmm \<Rightarrow> paddr set" where
  "free_addrs s = (\<lambda>p. p * PAGE_SIZE) ` pmm_free_set s"

lemma free_addrs_iff: "a \<in> free_addrs s \<longleftrightarrow> PAGE_SIZE dvd a \<and> a div PAGE_SIZE \<in> pmm_free_set s"
  by (auto simp: free_addrs_def image_iff)

lemma free_run_1: "free_run s b 1 \<longleftrightarrow> b \<in> pmm_free_set s"
  by (auto simp: free_run_def pmm_free_set_def)

lemma pmm_alloc_page_law:
  assumes ok: "pmm_ok s" and ne: "free_addrs s \<noteq> {}" and al: "pmm_alloc_page s = (a, s')"
  shows "a \<in> free_addrs s \<and> free_addrs s' = free_addrs s - {a} \<and> pmm_ok s'"
proof -
  define b where "b = (LEAST b. free_run s b 1)"
  have inv: "pmm_inv s" "pmm_shape s" using ok by (simp_all add: pmm_ok_def pmm_inv_def)
  have ex: "\<exists>b. free_run s b 1" using ne unfolding free_run_1 by (auto simp: free_addrs_def)
  then have r: "free_run s b 1" unfolding b_def by (metis LeastI)
  have e: "a = b * PAGE_SIZE" "s' = take_run b 1 s"
    using al ex pmm_alloc_pages_eq [OF inv(1), of 1] by (simp_all add: pmm_alloc_page_def Let_def b_def)
  have f: "pmm_free_set s' = pmm_free_set s - {b}" "b \<in> pmm_free_set s"
    using take_run_free_set [OF inv(2) r] r unfolding e(2) free_run_1 by simp_all
  have "pmm_ok s'" unfolding e(2) using take_run_inv [OF inv(1) r] ok by (simp add: pmm_ok_def)
  moreover have "free_addrs s' = free_addrs s - {b * PAGE_SIZE}"
    unfolding free_addrs_def f(1) by (auto simp: inj_on_def)
  ultimately show ?thesis using f(2) unfolding e(1) free_addrs_def by blast
qed

lemma pmm_free_page_law:
  assumes ok: "pmm_ok s" and fr: "pmm_free_page a s = (True, s')"
  shows "a \<notin> free_addrs s \<and> a \<noteq> 0 \<and> free_addrs s' = insert a (free_addrs s) \<and> pmm_ok s'"
proof -
  let ?b = "a div PAGE_SIZE"
  have inv: "pmm_inv s" "pmm_shape s" using ok by (simp_all add: pmm_ok_def pmm_inv_def)
  have fb: "freeable s a 1" "s' = give_run ?b 1 s"
    using fr pmm_free_pages_eq [OF inv(2), of 1 a] by (simp_all add: pmm_free_page_def split: if_splits)
  have d: "PAGE_SIZE dvd a" "used_get s ?b" "\<not> resv_get s ?b" using fb(1) by (simp_all add: freeable_def)
  then have "a \<noteq> 0" using ok unfolding pmm_ok_def by (metis div_0)
  moreover have "a \<notin> free_addrs s" using d(2) by (simp add: free_addrs_iff pmm_free_set_def)
  moreover have "free_addrs s' = insert a (free_addrs s)"
  proof -
    have "free_addrs s' = (\<lambda>p. p * PAGE_SIZE) ` (pmm_free_set s \<union> {?b..<?b + 1})"
      unfolding free_addrs_def fb(2) give_run_inv(2) [OF inv(1) fb(1)] ..
    also have "\<dots> = insert (?b * PAGE_SIZE) (free_addrs s)" by (simp add: free_addrs_def)
    finally show ?thesis using d(1) by (simp only: dvd_div_mult_self)
  qed
  moreover have "pmm_ok s'"
    using give_run_inv(1) [OF inv(1) fb(1)] ok by (simp add: fb(2) pmm_ok_def resv_get_def)
  ultimately show ?thesis by blast
qed

interpretation pmm: page_allocator pmm_ok free_addrs pmm_alloc_page pmm_free_page
proof
  fix s a s'
  assume ok: "pmm_ok s"
  then have inv: "pmm_inv s" "pmm_shape s" by (simp_all add: pmm_ok_def pmm_inv_def)
  show "pmm_alloc_page s = (0, s)" if "free_addrs s = {}"
    using that pmm_alloc_pages_eq [OF inv(1), of 1] unfolding pmm_alloc_page_def free_run_1
    by (simp add: free_addrs_def)
  show "a \<noteq> 0 \<and> PAGE_SIZE dvd a" if "a \<in> free_addrs s"
    using that ok by (cases "a = 0") (auto simp: free_addrs_iff pmm_ok_def pmm_inv_def pmm_free_set_def)
  show "s' = s" if "pmm_free_page a s = (False, s')"
    using that pmm_free_pages_eq [OF inv(2), of 1 a] by (simp add: pmm_free_page_def split: if_splits)
qed (fact pmm_alloc_page_law pmm_free_page_law)+

section \<open>Properties\<close>

text \<open>C4: \<open>pmm_init\<close> succeeds on every memory map that has a usable region (none of them
  running into the top of the address space) and establishes the allocator's invariant.  It
  tracks memory up to the end of the highest usable region, at most 1 GiB, and leaves free
  exactly the pages that a usable region covers completely and that no other region
  touches; the reserved pages are exactly those touched by a non-usable region.\<close>

theorem pmm_init_correct:
  assumes inv: "memmap_inv m" and ok: "\<forall>r \<in> set (memmap_list m). region_ok r"
    and us: "\<exists>r \<in> set (memmap_list m). mr_type r = MEMORY_USABLE"
    and len: "length (used_bitmap s) = 4096" "length (resv_bitmap s) = 4096"
  shows "\<exists>s'. pmm_init m s = Some s' \<and> pmm_inv s' \<and>
    total_pages s' = min PMM_MAX_TRACKED_BYTES (align_up PAGE_SIZE (usable_end (memmap_list m))) div PAGE_SIZE \<and>
    (\<forall>p < total_pages s'.
       (\<not> used_get s' p \<longleftrightarrow> (\<exists>r \<in> set (memmap_list m). mr_type r = MEMORY_USABLE \<and> covers r p) \<and>
                         \<not> (\<exists>r \<in> set (memmap_list m). mr_type r \<noteq> MEMORY_USABLE \<and> touches r p)) \<and>
       (resv_get s' p \<longleftrightarrow> (\<exists>r \<in> set (memmap_list m). mr_type r \<noteq> MEMORY_USABLE \<and> touches r p)))"
proof -
  let ?R = "set (memmap_list m)"
  define t mx n w where "t = align_up PAGE_SIZE (usable_end (memmap_list m))"
    and "mx = min PMM_MAX_TRACKED_BYTES t" and "n = mx div PAGE_SIZE" and "w = (n + 64 - 1) div 64"
  note d = this
  have t: "usable_top m = t" "0 < t" using usable_top_eq [OF inv ok] usable_end_pos [OF ok us] by (simp_all add: d)
  note st = pmm_init_steps [OF inv t d(2-4) len]
  define s1 where "s1 = s\<lparr>max_paddr := mx, total_pages := n, bitmap_words := w,
               used_bitmap := replicate w (NOT 0) @ drop w (used_bitmap s),
               resv_bitmap := replicate w 0 @ drop w (resv_bitmap s)\<rparr>"
  have "PAGE_SIZE dvd mx" "mx \<le> PMM_MAX_TRACKED_BYTES"
    by (cases "PMM_MAX_TRACKED_BYTES \<le> t") (simp_all add: d(1,2) min_def)
  then have sh: "pmm_shape s1" using st len d(3,4) by (simp add: pmm_shape_def s1_def)
  have b1: "used_get s1 p" "\<not> resv_get s1 p" if "p < total_pages s1" for p
  proof -
    have "p div 64 < w" using that d(4) by (simp add: s1_def)
    then show "used_get s1 p" "\<not> resv_get s1 p"
      by (auto simp: used_get_def resv_get_def bm_get_bit s1_def nth_append bit_not_iff)
  qed
  obtain u where u: "fold (\<lambda>r s. if is_usable r then mark_usable (mr_base r) (mr_size r) s else s)
       (memmap_list m) s1 = s1\<lparr>used_bitmap := u\<rparr>" "length u = length (used_bitmap s1)"
    "\<forall>p < total_pages s1. bm_get u p \<longleftrightarrow> used_get s1 p \<and> \<not> (\<exists>r \<in> ?R. is_usable r \<and> covers r p)"
    using mark_usable_fold [OF sh ok] by blast
  define s2 where "s2 = s1\<lparr>used_bitmap := u\<rparr>"
  have sh2: "pmm_shape s2" using sh u(2) by (simp add: pmm_shape_def s2_def)
  obtain v x where v: "fold (\<lambda>r s. if \<not> is_usable r then mark_reserved (mr_base r) (mr_size r) s else s)
       (memmap_list m) s2 = s2\<lparr>used_bitmap := v, resv_bitmap := x\<rparr>"
    "length v = length (used_bitmap s2)" "length x = length (resv_bitmap s2)"
    "\<forall>p < total_pages s2. (bm_get v p \<longleftrightarrow> used_get s2 p \<or> (\<exists>r \<in> ?R. \<not> is_usable r \<and> touches r p)) \<and>
       (bm_get x p \<longleftrightarrow> resv_get s2 p \<or> (\<exists>r \<in> ?R. \<not> is_usable r \<and> touches r p))"
    using mark_reserved_fold [OF sh2 ok] by blast
  define s3 where "s3 = s2\<lparr>used_bitmap := v, resv_bitmap := x\<rparr>"
  define s4 where "s4 = s3\<lparr>free_pages := card (pmm_free_set s3)\<rparr>"
  have init: "pmm_init m s = Some s4"
    using st unfolding Let_def s1_def [symmetric] u(1) s2_def [symmetric] v(1) s3_def [symmetric] s4_def [symmetric] by blast
  have g: "used_get s4 p = bm_get v p" "resv_get s4 p = bm_get x p" "used_get s2 p = bm_get u p"
    "resv_get s2 p = resv_get s1 p" for p
    by (simp_all add: used_get_def resv_get_def s2_def s3_def s4_def)
  have tp: "total_pages s4 = n" "total_pages s1 = n" "total_pages s2 = n"
    by (simp_all add: s1_def s2_def s3_def s4_def)
  have bits: "(used_get s4 p \<longleftrightarrow> \<not> (\<exists>r \<in> ?R. is_usable r \<and> covers r p) \<or> (\<exists>r \<in> ?R. \<not> is_usable r \<and> touches r p)) \<and>
      (resv_get s4 p \<longleftrightarrow> (\<exists>r \<in> ?R. \<not> is_usable r \<and> touches r p))" if "p < n" for p
    using u(3) v(4) b1 that unfolding g tp by blast
  have "pmm_free_set s4 = pmm_free_set s3" "free_pages s4 = card (pmm_free_set s3)"
    by (simp_all add: s4_def pmm_free_set_def used_get_def)
  moreover have "pmm_shape s4" using sh2 v(2,3) by (simp add: pmm_shape_def s3_def s4_def)
  ultimately have "pmm_inv s4" unfolding pmm_inv_def tp(1) using bits by auto
  moreover have "n = min PMM_MAX_TRACKED_BYTES t div PAGE_SIZE" by (simp only: d)
  ultimately show ?thesis using init bits tp(1) unfolding d(1) [symmetric]
    by (intro exI [of _ s4]) simp
qed

definition wit_map :: memmap where
  "wit_map = snd (memmap_reserve 0 4096 (snd (memmap_add 0 20480 MEMORY_USABLE
     \<lparr>regions = replicate 128 \<lparr>mr_base = 0, mr_size = 0, mr_type = 0\<rparr>, region_count = 0\<rparr>)))"

definition wit_pmm0 :: pmm where
  "wit_pmm0 = \<lparr>used_bitmap = replicate 4096 0, resv_bitmap = replicate 4096 0, bitmap_words = 0,
     total_pages = 0, free_pages = 0, max_paddr = 0\<rparr>"

lemma wit_map_list:
  "memmap_list wit_map = [\<lparr>mr_base = 0, mr_size = 20480, mr_type = 1\<rparr>, \<lparr>mr_base = 0, mr_size = 4096, mr_type = 2\<rparr>]"
  "memmap_inv wit_map"
proof -
  let ?m = "\<lparr>regions = replicate 128 \<lparr>mr_base = 0, mr_size = 0, mr_type = 0\<rparr>, region_count = 0\<rparr>"
  let ?n = "snd (memmap_add 0 20480 MEMORY_USABLE ?m)"
  have 0: "memmap_inv ?m" by (simp add: memmap_inv_def)
  have 1: "memmap_inv ?n" by (rule memmap_inv_add [OF 0])
  have 2: "memmap_list ?n = [\<lparr>mr_base = 0, mr_size = 20480, mr_type = 1\<rparr>]"
    using memmap_list_add [OF 0, of 0 20480 1] by (simp add: memmap_add_def memmap_list_def)
  show "memmap_inv wit_map" unfolding wit_map_def memmap_reserve_def by (rule memmap_inv_add [OF 1])
  show "memmap_list wit_map = [\<lparr>mr_base = 0, mr_size = 20480, mr_type = 1\<rparr>, \<lparr>mr_base = 0, mr_size = 4096, mr_type = 2\<rparr>]"
    using memmap_list_add [OF 1, of 0 4096 2] 2
    by (simp add: wit_map_def memmap_reserve_def) (simp add: memmap_add_def)
qed

lemma pmm_init_correct_witness:
  "\<exists>s'. pmm_init wit_map wit_pmm0 = Some s' \<and> pmm_inv s' \<and> total_pages s' = 5 \<and>
     used_get s' 0 \<and> \<not> used_get s' 3"
proof -
  have e: "usable_end (memmap_list wit_map) = 20480" by (simp add: wit_map_list usable_end_def)
  have "\<exists>s'. pmm_init wit_map wit_pmm0 = Some s' \<and> pmm_inv s' \<and>
    total_pages s' = min PMM_MAX_TRACKED_BYTES (align_up PAGE_SIZE (usable_end (memmap_list wit_map))) div PAGE_SIZE \<and>
    (\<forall>p < total_pages s'.
       (\<not> used_get s' p \<longleftrightarrow> (\<exists>r \<in> set (memmap_list wit_map). mr_type r = MEMORY_USABLE \<and> covers r p) \<and>
                         \<not> (\<exists>r \<in> set (memmap_list wit_map). mr_type r \<noteq> MEMORY_USABLE \<and> touches r p)) \<and>
       (resv_get s' p \<longleftrightarrow> (\<exists>r \<in> set (memmap_list wit_map). mr_type r \<noteq> MEMORY_USABLE \<and> touches r p)))"
    by (rule pmm_init_correct) (simp_all add: wit_map_list region_ok_def wit_pmm0_def)
  then obtain s' where s: "pmm_init wit_map wit_pmm0 = Some s'" "pmm_inv s'" "total_pages s' = 5"
    and p: "\<forall>p < 5. \<not> used_get s' p \<longleftrightarrow>
        (\<exists>r \<in> set (memmap_list wit_map). mr_type r = MEMORY_USABLE \<and> covers r p) \<and>
        \<not> (\<exists>r \<in> set (memmap_list wit_map). mr_type r \<noteq> MEMORY_USABLE \<and> touches r p)"
    unfolding e by (auto simp: align_up_def align_down_def)
  show ?thesis
    using s p [rule_format, of 0] p [rule_format, of 3]
    by (auto simp: wit_map_list covers_def touches_def)
qed

text \<open>C1: allocation is first fit.  \<open>pmm_alloc_pages n\<close> returns the address of the lowest run
  of \<open>n\<close> free pages and marks exactly that run used, keeping the invariant (in
  particular the free-page counter); it returns \<open>0\<close> and changes nothing exactly when
  \<open>n\<close> is zero or no such run exists.\<close>

theorem pmm_alloc_first_fit:
  assumes "pmm_inv s"
  shows "if 0 < n \<and> (\<exists>b. free_run s b n)
    then \<exists>b s'. pmm_alloc_pages n s = (b * PAGE_SIZE, s') \<and> free_run s b n \<and>
           (\<forall>b' < b. \<not> free_run s b' n) \<and> pmm_inv s' \<and>
           pmm_free_set s' = pmm_free_set s - {b..<b + n} \<and> free_pages s' + n = free_pages s
    else pmm_alloc_pages n s = (0, s)"
proof (cases "0 < n \<and> (\<exists>b. free_run s b n)")
  case True
  define b where "b = (LEAST b. free_run s b n)"
  have r: "free_run s b n" using True unfolding b_def by (metis LeastI)
  have l: "\<forall>b' < b. \<not> free_run s b' n" unfolding b_def using not_less_Least by blast
  have eq: "pmm_alloc_pages n s = (b * PAGE_SIZE, take_run b n s)"
    using True pmm_alloc_pages_eq [OF assms, of n] by (simp add: b_def Let_def)
  have "free_pages (take_run b n s) + n = free_pages s"
    using free_run_card [OF r] assms by (simp add: pmm_inv_def)
  moreover have "pmm_free_set (take_run b n s) = pmm_free_set s - {b..<b + n}"
    by (rule take_run_free_set [OF _ r]) (use assms in \<open>simp add: pmm_inv_def\<close>)
  ultimately have "\<exists>b s'. pmm_alloc_pages n s = (b * PAGE_SIZE, s') \<and> free_run s b n \<and>
           (\<forall>b' < b. \<not> free_run s b' n) \<and> pmm_inv s' \<and>
           pmm_free_set s' = pmm_free_set s - {b..<b + n} \<and> free_pages s' + n = free_pages s"
    using eq r l take_run_inv [OF assms r]
    by (intro exI [of _ b] exI [of _ "take_run b n s"]) simp
  then show ?thesis by (simp only: True if_True simp_thms)
next
  case False
  then show ?thesis using pmm_alloc_pages_eq [OF assms, of n] by (simp only: if_False)
qed

definition wit_pmm :: pmm where
  "wit_pmm = \<lparr>used_bitmap = [13], resv_bitmap = [1], bitmap_words = 1,
     total_pages = 8, free_pages = 5, max_paddr = 32768\<rparr>"

lemma wit_pmm_total: "total_pages wit_pmm = 8"
  by (simp add: wit_pmm_def)

lemma wit_pmm_get:
  assumes "p < 8"
  shows "used_get wit_pmm p \<longleftrightarrow> p = 0 \<or> p = 2 \<or> p = 3" "resv_get wit_pmm p \<longleftrightarrow> p = 0"
proof -
  consider "p = 0" | "p = 1" | "p = 2" | "p = 3" | "p = 4" | "p = 5" | "p = 6" | "p = 7"
    using assms by linarith
  then have "(used_get wit_pmm p \<longleftrightarrow> p = 0 \<or> p = 2 \<or> p = 3) \<and> (resv_get wit_pmm p \<longleftrightarrow> p = 0)"
    by cases (simp_all add: used_get_def resv_get_def bm_get_bit wit_pmm_def)
  then show "used_get wit_pmm p \<longleftrightarrow> p = 0 \<or> p = 2 \<or> p = 3" "resv_get wit_pmm p \<longleftrightarrow> p = 0"
    by blast+
qed

lemma wit_pmm_free: "pmm_free_set wit_pmm = {1, 4, 5, 6, 7}"
proof -
  have "pmm_free_set wit_pmm = {p. p < 8 \<and> \<not> (p = 0 \<or> p = 2 \<or> p = 3)}"
    unfolding pmm_free_set_def wit_pmm_total using wit_pmm_get(1) by blast
  also have "\<dots> = {1, 4, 5, 6, 7}" by (rule set_eqI) (simp, linarith)
  finally show ?thesis .
qed

lemma wit_pmm_inv: "pmm_inv wit_pmm"
proof -
  have "pmm_shape wit_pmm" "free_pages wit_pmm = 5" by (simp_all add: pmm_shape_def wit_pmm_def)
  then show ?thesis
    using wit_pmm_free wit_pmm_get wit_pmm_total by (simp add: pmm_inv_def)
qed

lemma wit_pmm_run: "free_run wit_pmm 4 2"
proof -
  have "j < 2 \<Longrightarrow> \<not> used_get wit_pmm (4 + j)" for j using wit_pmm_get(1) [of "4 + j"] by simp
  then show ?thesis by (simp add: free_run_def wit_pmm_total)
qed

lemma pmm_alloc_first_fit_witness:
  "\<exists>b s'. pmm_alloc_pages 2 wit_pmm = (b * PAGE_SIZE, s') \<and> free_run wit_pmm b 2 \<and> pmm_inv s'"
  using pmm_alloc_first_fit [OF wit_pmm_inv, of 2] wit_pmm_run by (auto split: if_splits)

text \<open>C2: \<open>pmm_free_pages\<close> accepts exactly the runs that lie inside tracked memory, are page
  aligned, fully allocated and free of reserved pages.  An accepted run, and nothing else,
  becomes free and the invariant is kept; a rejected call (a double free included) changes
  nothing.  The count is bounded so that the byte length does not wrap.\<close>

theorem pmm_free_exact:
  assumes "pmm_inv s" "n < 2251799813685248"
  shows "case pmm_free_pages a n s of (ok, s') \<Rightarrow>
      ok = freeable s a n \<and> pmm_inv s' \<and>
      pmm_free_set s' = pmm_free_set s \<union> (if ok then {a div PAGE_SIZE..<a div PAGE_SIZE + n} else {}) \<and>
      (\<not> ok \<longrightarrow> s' = s) \<and> (ok \<longrightarrow> pmm_free_pages a n s' = (False, s'))"
proof (cases "freeable s a n")
  case True
  let ?s = "give_run (a div PAGE_SIZE) n s"
  have sh: "pmm_shape s" using assms(1) by (simp add: pmm_inv_def)
  note i = give_run_inv [OF assms(1) True]
  have "\<not> freeable ?s a n"
  proof -
    have "a div PAGE_SIZE \<in> pmm_free_set ?s" using True i(2) by (simp add: freeable_def)
    moreover have "a div PAGE_SIZE \<in> {a div PAGE_SIZE..<a div PAGE_SIZE + n}"
      using True by (simp add: freeable_def)
    ultimately show ?thesis unfolding freeable_def pmm_free_set_def by blast
  qed
  then show ?thesis
    using True i pmm_free_pages_eq [OF sh assms(2), of a] pmm_free_pages_eq [of ?s n a] assms(2)
    by (simp add: pmm_inv_def)
qed (use assms pmm_free_pages_eq [of s n a] in \<open>simp add: pmm_inv_def\<close>)

lemma pmm_free_exact_witness:
  "pmm_inv wit_pmm \<and> fst (pmm_free_pages 8192 2 wit_pmm) \<and> \<not> fst (pmm_free_pages 4096 1 wit_pmm)"
proof -
  have "freeable wit_pmm 8192 2" "\<not> freeable wit_pmm 4096 1"
    unfolding freeable_def by (auto simp: wit_pmm_get wit_pmm_total)
  then show ?thesis
    using pmm_free_exact [OF wit_pmm_inv, of 2 8192] pmm_free_exact [OF wit_pmm_inv, of 1 4096] wit_pmm_inv
    by (auto split: prod.splits)
qed

text \<open>C23: releasing what was just allocated restores the allocator exactly: bitmaps, counters
  and limits are those before the allocation.\<close>

theorem pmm_alloc_free_roundtrip:
  assumes "pmm_inv s" "pmm_alloc_pages n s = (a, s')" "a \<noteq> 0"
  shows "pmm_free_pages a n s' = (True, s)"
proof -
  let ?b = "LEAST b. free_run s b n"
  have ex: "0 < n \<and> (\<exists>b. free_run s b n)" and s': "a = ?b * PAGE_SIZE" "s' = take_run ?b n s"
    using assms(2,3) pmm_alloc_pages_eq [OF assms(1), of n] by (auto simp: Let_def split: if_splits)
  have r: "free_run s ?b n" using ex by (metis LeastI)
  have sh: "pmm_shape s" and le: "?b + n \<le> total_pages s"
    using assms(1) r by (simp_all add: pmm_inv_def free_run_def)
  have sh': "pmm_shape s'" using take_run_inv [OF assms(1) r] s' by (simp add: pmm_inv_def)
  have n: "n \<le> free_pages s" "n < 2251799813685248"
    using free_run_card [OF r] assms(1) le sh by (simp_all add: pmm_inv_def pmm_shape_def)
  have "\<not> resv_get s p" if "p \<in> {?b..<?b + n}" for p
    using that free_run_subset [OF r] assms(1) unfolding pmm_inv_def pmm_free_set_def by blast
  then have "freeable s' a n"
    unfolding freeable_def s' using ex le take_run_used(2) [OF sh le] by simp
  then show ?thesis
    using pmm_free_pages_eq [OF sh' n(2)] give_take_run [OF sh r n(1)] s' by simp
qed

lemma pmm_alloc_free_roundtrip_witness:
  "fst (pmm_alloc_pages 1 wit_pmm) = 4096 \<and> pmm_free_pages 4096 1 (snd (pmm_alloc_pages 1 wit_pmm)) = (True, wit_pmm)"
proof -
  have "fst (pmm_alloc_pages 1 wit_pmm) = 4096"
    by (simp add: pmm_alloc_pages_def alloc_scan.simps [of _ wit_pmm] wit_pmm_get wit_pmm_total
        shl_page_def Let_def) (simp add: wit_pmm_def)
  then show ?thesis using pmm_alloc_free_roundtrip [OF wit_pmm_inv, of 1 4096] by (metis prod.collapse zero_neq_numeral)
qed

end
