(* ===== verification/Handle.thy ===== *)
theory Handle
  imports Prelude
begin

text \<open>
  Capability tables, \<^verbatim>\<open>kernel/core/handle.c\<close>.  A table has 64 slots and a search hint;
  objects are pointers.  The release callback is a code pointer (\<open>0\<close> is NULL); the
  parameter \<open>call\<close> gives the effect of calling a code pointer on the state
  \<open>'s\<close> outside the table.
\<close>

abbreviation HANDLE_INVALID :: nat where "HANDLE_INVALID \<equiv> 4294967295"
abbreviation HANDLE_MAX :: nat where "HANDLE_MAX \<equiv> 64"
abbreviation HANDLE_KIND_NONE :: u32 where "HANDLE_KIND_NONE \<equiv> 0"
abbreviation HANDLE_KIND_TEST :: u32 where "HANDLE_KIND_TEST \<equiv> 1"
abbreviation HANDLE_KIND_CHANNEL :: u32 where "HANDLE_KIND_CHANNEL \<equiv> 2"
abbreviation HANDLE_KIND_PROCESS :: u32 where "HANDLE_KIND_PROCESS \<equiv> 3"
abbreviation HANDLE_RIGHT_READ :: u32 where "HANDLE_RIGHT_READ \<equiv> 1"
abbreviation HANDLE_RIGHT_WRITE :: u32 where "HANDLE_RIGHT_WRITE \<equiv> 2"
abbreviation HANDLE_RIGHT_EXEC :: u32 where "HANDLE_RIGHT_EXEC \<equiv> 4"
abbreviation HANDLE_RIGHT_TRANSFER :: u32 where "HANDLE_RIGHT_TRANSFER \<equiv> 8"
abbreviation HANDLE_RIGHT_ALL :: u32 where "HANDLE_RIGHT_ALL \<equiv> 15"

record handle_entry =
  he_kind :: u32
  he_rights :: u32
  he_object :: nat
  he_in_use :: bool
  he_owns :: bool

record handle_table =
  entries :: "handle_entry list"
  next_hint :: nat
  release :: nat

definition empty_entry :: handle_entry where
  "empty_entry = \<lparr>he_kind = HANDLE_KIND_NONE, he_rights = 0, he_object = 0,
                  he_in_use = False, he_owns = False\<rparr>"

definition handle_table_init :: "nat \<Rightarrow> handle_table \<Rightarrow> handle_table" where
  "handle_table_init rel t =
     (let t = fold (\<lambda>i t. t\<lparr>entries := (entries t)[i := empty_entry]\<rparr>) [0..<HANDLE_MAX] t
      in t\<lparr>next_hint := 0, release := rel\<rparr>)"

function create_scan :: "handle_table \<Rightarrow> nat \<Rightarrow> handle_entry \<Rightarrow> nat \<times> handle_table" where
  "create_scan t i e =
     (if i < HANDLE_MAX then
        let idx = (next_hint t + i) mod HANDLE_MAX in
        if \<not> he_in_use (entries t ! idx)
        then (idx, t\<lparr>entries := (entries t)[idx := e], next_hint := (idx + 1) mod HANDLE_MAX\<rparr>)
        else create_scan t (i + 1) e
      else (HANDLE_INVALID, t))"
  by pat_completeness auto
termination
  by (relation "measure (\<lambda>(t, i, e). HANDLE_MAX - i)") auto

declare create_scan.simps [simp del]

definition handle_create_ex :: "u32 \<Rightarrow> u32 \<Rightarrow> nat \<Rightarrow> bool \<Rightarrow> handle_table \<Rightarrow> nat \<times> handle_table" where
  "handle_create_ex kd rts obj owns t =
     create_scan t 0 \<lparr>he_kind = kd, he_rights = rts, he_object = obj, he_in_use = True, he_owns = owns\<rparr>"

definition handle_create :: "u32 \<Rightarrow> u32 \<Rightarrow> nat \<Rightarrow> handle_table \<Rightarrow> nat \<times> handle_table" where
  "handle_create kd rts obj t = handle_create_ex kd rts obj True t"

definition handle_table_has_free_slot :: "handle_table \<Rightarrow> bool" where
  "handle_table_has_free_slot t \<longleftrightarrow> (\<exists>i \<in> set [0..<HANDLE_MAX]. \<not> he_in_use (entries t ! i))"

definition handle_lookup_full :: "handle_table \<Rightarrow> nat \<Rightarrow> u32 \<Rightarrow> (nat \<times> u32 \<times> u32) option" where
  "handle_lookup_full t h required =
     (if h \<ge> HANDLE_MAX then None
      else let e = entries t ! h in
        if \<not> he_in_use e then None
        else if he_rights e AND required \<noteq> required then None
        else Some (he_object e, he_kind e, he_rights e))"

definition handle_lookup :: "handle_table \<Rightarrow> nat \<Rightarrow> u32 \<Rightarrow> (nat \<times> u32) option" where
  "handle_lookup t h required = map_option (\<lambda>(ob, kd, _). (ob, kd)) (handle_lookup_full t h required)"

definition handle_close ::
  "(nat \<Rightarrow> u32 \<Rightarrow> nat \<Rightarrow> 's \<Rightarrow> 's) \<Rightarrow> nat \<Rightarrow> handle_table \<times> 's \<Rightarrow> bool \<times> handle_table \<times> 's" where
  "handle_close call h = (\<lambda>(t, s).
     if h \<ge> HANDLE_MAX then (False, t, s)
     else let e = entries t ! h in
       if \<not> he_in_use e then (False, t, s)
       else let s = (if he_owns e \<and> release t \<noteq> 0
                     then call (release t) (he_kind e) (he_object e) s else s)
            in (True, t\<lparr>entries := (entries t)[h := empty_entry]\<rparr>, s))"

definition handle_disown :: "nat \<Rightarrow> handle_table \<Rightarrow> bool \<times> handle_table" where
  "handle_disown h t =
     (if h \<ge> HANDLE_MAX then (False, t)
      else if \<not> he_in_use (entries t ! h) then (False, t)
      else (True, t\<lparr>entries := (entries t)[h := (entries t ! h)\<lparr>he_owns := False\<rparr>]\<rparr>))"

definition handle_table_destroy ::
  "(nat \<Rightarrow> u32 \<Rightarrow> nat \<Rightarrow> 's \<Rightarrow> 's) \<Rightarrow> handle_table \<times> 's \<Rightarrow> handle_table \<times> 's" where
  "handle_table_destroy call ts =
     (let (t, s) = fold (\<lambda>i (t, s). let e = entries t ! i in
              if \<not> he_in_use e then (t, s)
              else let s = (if he_owns e \<and> release t \<noteq> 0
                            then call (release t) (he_kind e) (he_object e) s else s)
                   in (t\<lparr>entries := (entries t)[i := empty_entry]\<rparr>, s))
            [0..<HANDLE_MAX] ts
      in (t\<lparr>next_hint := 0\<rparr>, s))"

section \<open>Invariant and abstraction\<close>

definition handle_inv :: "handle_table \<Rightarrow> bool" where
  "handle_inv t \<longleftrightarrow> length (entries t) = HANDLE_MAX \<and> next_hint t < HANDLE_MAX"

text \<open>A table as a finite map from handle numbers to entries.\<close>

definition htab :: "handle_table \<Rightarrow> nat \<Rightarrow> handle_entry option" where
  "htab t h = (if h < HANDLE_MAX \<and> he_in_use (entries t ! h) then Some (entries t ! h) else None)"

text \<open>The objects a table owns, in slot order.\<close>

definition owned :: "handle_table \<Rightarrow> (u32 \<times> nat) list" where
  "owned t = map (\<lambda>e. (he_kind e, he_object e)) (filter (\<lambda>e. he_in_use e \<and> he_owns e) (entries t))"

lemma empty_entry_simps [simp]: "\<not> he_in_use empty_entry" "\<not> he_owns empty_entry"
  by (simp_all add: empty_entry_def)

lemma handle_table_init_eq:
  assumes "length (entries t) = HANDLE_MAX"
  shows "handle_table_init rel t = t\<lparr>entries := replicate HANDLE_MAX empty_entry, next_hint := 0, release := rel\<rparr>"
proof -
  have "n \<le> HANDLE_MAX \<Longrightarrow> fold (\<lambda>i t. t\<lparr>entries := (entries t)[i := empty_entry]\<rparr>) [0..<n] t =
      t\<lparr>entries := replicate n empty_entry @ drop n (entries t)\<rparr>" for n
  proof (induction n)
    case (Suc n)
    then show ?case using assms
      by (simp add: list_update_append replicate_append_same Cons_nth_drop_Suc [symmetric])
  qed simp
  from this [of HANDLE_MAX] show ?thesis using assms by (simp add: handle_table_init_def Let_def)
qed

lemma handle_init_inv: "length (entries t) = HANDLE_MAX \<Longrightarrow> handle_inv (handle_table_init rel t)"
  by (simp add: handle_table_init_eq handle_inv_def)

lemma handle_init_htab: "length (entries t) = HANDLE_MAX \<Longrightarrow> htab (handle_table_init rel t) = Map.empty"
  by (auto simp: handle_table_init_eq htab_def fun_eq_iff)

text \<open>The slot the scan chooses: the first free one, cyclically from the hint.\<close>

definition slot :: "handle_table \<Rightarrow> nat \<Rightarrow> nat" where
  "slot t i = (next_hint t + i) mod HANDLE_MAX"

definition put_slot :: "nat \<Rightarrow> handle_entry \<Rightarrow> handle_table \<Rightarrow> handle_table" where
  "put_slot idx e t = t\<lparr>entries := (entries t)[idx := e], next_hint := (idx + 1) mod HANDLE_MAX\<rparr>"

lemma create_scan_spec:
  assumes "i \<le> HANDLE_MAX"
  shows "(\<forall>k \<in> {i..<HANDLE_MAX}. he_in_use (entries t ! slot t k)) \<and> create_scan t i e = (HANDLE_INVALID, t) \<or>
    (\<exists>k \<in> {i..<HANDLE_MAX}. \<not> he_in_use (entries t ! slot t k) \<and>
        (\<forall>j \<in> {i..<k}. he_in_use (entries t ! slot t j)) \<and>
        create_scan t i e = (slot t k, put_slot (slot t k) e t))"
  using assms
proof (induction t i e rule: create_scan.induct)
  case (1 t i e)
  consider "i = HANDLE_MAX" | "i < HANDLE_MAX" "\<not> he_in_use (entries t ! slot t i)"
    | (go) "i < HANDLE_MAX" "he_in_use (entries t ! slot t i)" using "1.prems" by linarith
  then show ?case
  proof cases
    case go
    have sp: "{i..<m} = insert i {i + 1..<m}" if "i < m" for m using that by auto
    have eq: "create_scan t i e = create_scan t (i + 1) e"
      using go by (subst create_scan.simps) (simp add: slot_def Let_def)
    have "i + 1 \<le> HANDLE_MAX" using go by simp
    note ih = "1.IH" [OF go(1) refl _ this]
    from ih consider
        (none) "\<forall>k \<in> {i + 1..<HANDLE_MAX}. he_in_use (entries t ! slot t k)" "create_scan t (i + 1) e = (HANDLE_INVALID, t)"
      | (some) k where "k \<in> {i + 1..<HANDLE_MAX}" "\<not> he_in_use (entries t ! slot t k)"
          "\<forall>j \<in> {i + 1..<k}. he_in_use (entries t ! slot t j)"
          "create_scan t (i + 1) e = (slot t k, put_slot (slot t k) e t)"
      using go by (auto simp: slot_def)
    then show ?thesis
    proof cases
      case none
      then show ?thesis using go eq sp [of HANDLE_MAX] by simp
    next
      case some
      then have "\<forall>j \<in> {i..<k}. he_in_use (entries t ! slot t j)" using go sp [of k] by auto
      moreover have "k \<in> {i..<HANDLE_MAX}" using some(1) by simp
      ultimately show ?thesis using some(2,4) eq by metis
    qed
  qed (auto simp: create_scan.simps slot_def put_slot_def Let_def intro!: bexI [of _ i])
qed

lemma slot_surj:
  assumes "handle_inv t" "h < HANDLE_MAX"
  shows "\<exists>k < HANDLE_MAX. slot t k = h"
proof (cases "next_hint t \<le> h")
  case True
  then show ?thesis using assms by (intro exI [of _ "h - next_hint t"]) (simp add: slot_def)
next
  case False
  then have "(next_hint t + (HANDLE_MAX + h - next_hint t)) mod HANDLE_MAX = h"
    using assms by (simp add: handle_inv_def)
  then show ?thesis using False assms
    by (intro exI [of _ "HANDLE_MAX + h - next_hint t"]) (simp add: slot_def handle_inv_def)
qed

lemma slot_less [simp]: "slot t k < HANDLE_MAX"
  by (simp add: slot_def)

lemma put_slot_inv: "handle_inv t \<Longrightarrow> handle_inv (put_slot i e t)"
  by (simp add: handle_inv_def put_slot_def)

lemma htab_update:
  "handle_inv t \<Longrightarrow> i < HANDLE_MAX \<Longrightarrow> entries t' = (entries t)[i := e] \<Longrightarrow>
   htab t' = (htab t)(i := if he_in_use e then Some e else None)"
  by (auto simp: htab_def handle_inv_def fun_eq_iff nth_list_update)

abbreviation mk_entry :: "u32 \<Rightarrow> u32 \<Rightarrow> nat \<Rightarrow> bool \<Rightarrow> handle_entry" where
  "mk_entry kd rts obj owns \<equiv>
     \<lparr>he_kind = kd, he_rights = rts, he_object = obj, he_in_use = True, he_owns = owns\<rparr>"

lemma handle_create_ex_cases:
  assumes "handle_inv t" "handle_create_ex kd rts obj owns t = (h, t')"
  obtains (full) "\<forall>i < HANDLE_MAX. htab t i \<noteq> None" "h = HANDLE_INVALID" "t' = t"
  | (new) k where "k < HANDLE_MAX" "h = slot t k" "\<forall>j < k. htab t (slot t j) \<noteq> None" "htab t h = None"
      "t' = put_slot h (mk_entry kd rts obj owns) t"
  using create_scan_spec [OF le0, of t "mk_entry kd rts obj owns"]
proof (elim disjE bexE conjE)
  assume a: "\<forall>k\<in>{0..<HANDLE_MAX}. he_in_use (entries t ! slot t k)"
    "create_scan t 0 (mk_entry kd rts obj owns) = (HANDLE_INVALID, t)"
  then have "\<forall>i < HANDLE_MAX. htab t i \<noteq> None"
    using slot_surj [OF assms(1)] by (fastforce simp: htab_def)
  then show thesis using a assms(2) by (intro full) (simp_all add: handle_create_ex_def)
next
  fix k assume "k \<in> {0..<HANDLE_MAX}" "\<not> he_in_use (entries t ! slot t k)"
    "\<forall>j\<in>{0..<k}. he_in_use (entries t ! slot t j)"
    "create_scan t 0 (mk_entry kd rts obj owns) = (slot t k, put_slot (slot t k) (mk_entry kd rts obj owns) t)"
  then show thesis using assms(2)
    by (intro new [of k]) (auto simp: handle_create_ex_def htab_def)
qed

lemma handle_create_ex_inv:
  assumes "handle_inv t"
  shows "handle_inv (snd (handle_create_ex kd rts obj owns t))"
proof (cases "handle_create_ex kd rts obj owns t")
  case (Pair h t')
  show ?thesis by (rule handle_create_ex_cases [OF assms Pair]) (simp_all add: Pair assms put_slot_inv)
qed

lemma handle_lookup_full_htab:
  "handle_lookup_full t h req =
     (case htab t h of None \<Rightarrow> None
      | Some e \<Rightarrow> if he_rights e AND req = req then Some (he_object e, he_kind e, he_rights e) else None)"
  by (auto simp: handle_lookup_full_def htab_def Let_def)

lemma has_free_slot_htab: "handle_table_has_free_slot t \<longleftrightarrow> (\<exists>i < HANDLE_MAX. htab t i = None)"
proof -
  have "htab t i = None \<longleftrightarrow> \<not> he_in_use (entries t ! i)" if "i < HANDLE_MAX" for i
    using that by (simp add: htab_def)
  then show ?thesis unfolding handle_table_has_free_slot_def set_upt by (metis atLeastLessThan_iff le0)
qed

lemma handle_close_htab:
  assumes "handle_inv t"
  shows "handle_close call h (t, s) =
     (case htab t h of None \<Rightarrow> (False, t, s)
      | Some e \<Rightarrow> (True, t\<lparr>entries := (entries t)[h := empty_entry]\<rparr>,
                  if he_owns e \<and> release t \<noteq> 0 then call (release t) (he_kind e) (he_object e) s else s))"
  by (auto simp: handle_close_def htab_def Let_def)

lemma handle_close_inv: "handle_inv t \<Longrightarrow> handle_inv (fst (snd (handle_close call h (t, s))))"
  by (auto simp: handle_close_htab handle_inv_def split: option.splits)

lemma handle_disown_inv: "handle_inv t \<Longrightarrow> handle_inv (snd (handle_disown h t))"
  by (auto simp: handle_disown_def handle_inv_def)

section \<open>Accounting of owned objects\<close>

definition weight :: "u32 \<times> nat \<Rightarrow> handle_entry \<Rightarrow> nat" where
  "weight x e = (if he_in_use e \<and> he_owns e \<and> (he_kind e, he_object e) = x then 1 else 0)"

lemma weight_empty [simp]: "weight x empty_entry = 0"
  by (simp add: weight_def)

lemma count_owned: "count_list (owned t) x = sum_list (map (weight x) (entries t))"
proof -
  have "count_list (map (\<lambda>e. (he_kind e, he_object e)) (filter (\<lambda>e. he_in_use e \<and> he_owns e) es)) x =
      sum_list (map (weight x) es)" for es
    by (induction es) (auto simp: weight_def)
  then show ?thesis by (simp add: owned_def)
qed

lemma sum_weight_update:
  "i < length es \<Longrightarrow> sum_list (map (weight x) (es[i := e])) + weight x (es ! i) = sum_list (map (weight x) es) + weight x e"
  by (induction es arbitrary: i) (auto split: nat.splits)

lemma count_owned_update:
  "handle_inv t \<Longrightarrow> i < HANDLE_MAX \<Longrightarrow> entries t' = (entries t)[i := e] \<Longrightarrow>
   count_list (owned t') x + weight x (entries t ! i) = count_list (owned t) x + weight x e"
  by (simp add: count_owned handle_inv_def sum_weight_update)

text \<open>Destruction visits the slots in order and releases what is owned there.\<close>

definition destroy_slot ::
  "(nat \<Rightarrow> u32 \<Rightarrow> nat \<Rightarrow> 's \<Rightarrow> 's) \<Rightarrow> nat \<Rightarrow> handle_table \<times> 's \<Rightarrow> handle_table \<times> 's" where
  "destroy_slot call i ts = snd (handle_close call i ts)"

lemma handle_table_destroy_eq:
  "handle_table_destroy call ts =
     (let (t, s) = fold (destroy_slot call) [0..<HANDLE_MAX] ts in (t\<lparr>next_hint := 0\<rparr>, s))"
proof -
  have "fold (\<lambda>i (t, s). let e = entries t ! i in
              if \<not> he_in_use e then (t, s)
              else let s = (if he_owns e \<and> release t \<noteq> 0
                            then call (release t) (he_kind e) (he_object e) s else s)
                   in (t\<lparr>entries := (entries t)[i := empty_entry]\<rparr>, s))
            [0..<HANDLE_MAX] ts = fold (destroy_slot call) [0..<HANDLE_MAX] ts"
    by (intro fold_cong refl ext) (auto simp: destroy_slot_def handle_close_def Let_def split: prod.splits)
  then show ?thesis by (simp add: handle_table_destroy_def)
qed

lemma destroy_slot_step:
  "n < HANDLE_MAX \<Longrightarrow> destroy_slot call n (t, s) =
     (if he_in_use (entries t ! n)
      then (t\<lparr>entries := (entries t)[n := empty_entry]\<rparr>,
            if he_owns (entries t ! n) \<and> release t \<noteq> 0
            then call (release t) (he_kind (entries t ! n)) (he_object (entries t ! n)) s else s)
      else (t, s))"
  by (simp add: destroy_slot_def handle_close_def Let_def)

lemma destroy_loop:
  assumes "length (entries t) = HANDLE_MAX" "release t \<noteq> 0" "n \<le> HANDLE_MAX"
  shows "fold (destroy_slot call) [0..<n] (t, s) =
    (t\<lparr>entries := map (\<lambda>e. if he_in_use e then empty_entry else e) (take n (entries t)) @ drop n (entries t)\<rparr>,
     fold (\<lambda>(kd, ob). call (release t) kd ob)
       (map (\<lambda>e. (he_kind e, he_object e)) (filter (\<lambda>e. he_in_use e \<and> he_owns e) (take n (entries t)))) s)"
  using assms(3)
proof (induction n)
  case (Suc n)
  let ?e = "entries t ! n"
  have n: "n < length (entries t)" using Suc.prems assms(1) by simp
  then have tk: "take (Suc n) (entries t) = take n (entries t) @ [?e]" "drop n (entries t) = ?e # drop (Suc n) (entries t)"
    by (simp_all add: take_Suc_conv_app_nth Cons_nth_drop_Suc)
  have nn: "(map (\<lambda>e. if he_in_use e then empty_entry else e) (take n (entries t)) @ drop n (entries t)) ! n = ?e"
    "\<And>v. (map (\<lambda>e. if he_in_use e then empty_entry else e) (take n (entries t)) @ drop n (entries t))[n := v] =
      map (\<lambda>e. if he_in_use e then empty_entry else e) (take n (entries t)) @ v # drop (Suc n) (entries t)"
    using n by (simp_all add: nth_append list_update_append tk(2))
  show ?case
    using Suc n assms(2)
    by (auto simp: destroy_slot_step nn tk(1) Cons_nth_drop_Suc)
qed simp

lemma handle_table_destroy_spec:
  assumes "handle_inv t" "release t \<noteq> 0"
  shows "handle_table_destroy call (t, s) =
    (t\<lparr>entries := map (\<lambda>e. if he_in_use e then empty_entry else e) (entries t), next_hint := 0\<rparr>,
     fold (\<lambda>(kd, ob). call (release t) kd ob) (owned t) s)"
  using assms destroy_loop [of t HANDLE_MAX call s]
  by (simp add: handle_table_destroy_eq handle_inv_def owned_def)

section \<open>Runs of a table with a log of releases\<close>

text \<open>The operations a client performs, with ghost lists of the objects handed to the table
  as owned and of those it gave up by \<open>handle_disown\<close>; the callback appends to a log.\<close>

datatype hop = HCreate u32 u32 nat bool | HClose nat | HDisown nat

record hrun =
  hr_table :: handle_table
  hr_log :: "(u32 \<times> nat) list"
  hr_taken :: "(u32 \<times> nat) list"
  hr_given :: "(u32 \<times> nat) list"

definition log_call :: "nat \<Rightarrow> u32 \<Rightarrow> nat \<Rightarrow> (u32 \<times> nat) list \<Rightarrow> (u32 \<times> nat) list" where
  "log_call rel kd ob l = l @ [(kd, ob)]"

fun hstep :: "hop \<Rightarrow> hrun \<Rightarrow> hrun" where
  "hstep (HCreate kd rts ob owns) r =
     (let (h, t) = handle_create_ex kd rts ob owns (hr_table r)
      in r\<lparr>hr_table := t,
           hr_taken := hr_taken r @ (if h \<noteq> HANDLE_INVALID \<and> owns then [(kd, ob)] else [])\<rparr>)"
| "hstep (HClose h) r =
     (let (ok, t, l) = handle_close log_call h (hr_table r, hr_log r)
      in r\<lparr>hr_table := t, hr_log := l\<rparr>)"
| "hstep (HDisown h) r =
     (let (ok, t) = handle_disown h (hr_table r)
      in r\<lparr>hr_table := t,
           hr_given := hr_given r @ (case htab (hr_table r) h of None \<Rightarrow> []
             | Some e \<Rightarrow> if he_owns e then [(he_kind e, he_object e)] else [])\<rparr>)"

definition hrun_ok :: "hrun \<Rightarrow> bool" where
  "hrun_ok r \<longleftrightarrow> handle_inv (hr_table r) \<and> release (hr_table r) \<noteq> 0 \<and>
     (\<forall>x. count_list (hr_log r) x + count_list (owned (hr_table r)) x + count_list (hr_given r) x =
          count_list (hr_taken r) x)"

lemma hrun_okI:
  assumes "hrun_ok r" "handle_inv t" "release t = release (hr_table r)"
    and "\<And>x. count_list l x + count_list (owned t) x + count_list g x + count_list (hr_taken r) x =
      count_list (hr_log r) x + count_list (owned (hr_table r)) x + count_list (hr_given r) x + count_list tk x"
  shows "hrun_ok \<lparr>hr_table = t, hr_log = l, hr_taken = tk, hr_given = g\<rparr>"
  unfolding hrun_ok_def
proof (intro conjI allI)
  fix x
  have "count_list (hr_log r) x + count_list (owned (hr_table r)) x + count_list (hr_given r) x =
        count_list (hr_taken r) x" using assms(1) by (simp only: hrun_ok_def)
  with assms(4) [of x] show "count_list (hr_log \<lparr>hr_table = t, hr_log = l, hr_taken = tk, hr_given = g\<rparr>) x +
      count_list (owned (hr_table \<lparr>hr_table = t, hr_log = l, hr_taken = tk, hr_given = g\<rparr>)) x +
      count_list (hr_given \<lparr>hr_table = t, hr_log = l, hr_taken = tk, hr_given = g\<rparr>) x =
      count_list (hr_taken \<lparr>hr_table = t, hr_log = l, hr_taken = tk, hr_given = g\<rparr>) x" by simp
qed (use assms in \<open>simp_all add: hrun_ok_def\<close>)

lemma count_weight: "he_in_use e \<Longrightarrow> count_list (if he_owns e then [(he_kind e, he_object e)] else []) x = weight x e"
  by (auto simp: weight_def)

lemma count_replace:
  assumes "handle_inv t" "htab t h = Some e" "weight x e' = 0"
  shows "count_list (owned (t\<lparr>entries := (entries t)[h := e']\<rparr>)) x + weight x e = count_list (owned t) x"
proof -
  have "h < HANDLE_MAX" "entries t ! h = e" using assms(2) by (auto simp: htab_def split: if_splits)
  then show ?thesis
    using count_owned_update [OF assms(1), of h "t\<lparr>entries := (entries t)[h := e']\<rparr>" e' x] assms(3) by simp
qed

lemma hstep_ok:
  assumes ok: "hrun_ok r"
  shows "hrun_ok (hstep op r)"
proof -
  let ?t = "hr_table r"
  have inv: "handle_inv ?t" "release ?t \<noteq> 0" using ok by (simp_all add: hrun_ok_def)
  have len: "handle_inv (?t\<lparr>entries := (entries ?t)[h := e]\<rparr>)" for h e using inv by (simp add: handle_inv_def)
  show ?thesis
  proof (cases op)
    case (HCreate kd rts ob owns)
    let ?e = "mk_entry kd rts ob owns"
    obtain h t' where c: "handle_create_ex kd rts ob owns ?t = (h, t')" by fastforce
    show ?thesis
    proof (rule handle_create_ex_cases [OF inv(1) c])
      assume "h = HANDLE_INVALID" "t' = ?t"
      then show ?thesis using ok c HCreate by simp
    next
      fix k assume k: "h = slot ?t k" "htab ?t h = None" "t' = put_slot h ?e ?t"
      have h: "h < HANDLE_MAX" unfolding k(1) by simp
      then have w: "weight x (entries ?t ! h) = 0" for x
        using k(2) by (auto simp: htab_def weight_def split: if_splits)
      have o: "count_list (owned t') x = count_list (owned ?t) x + weight x ?e" for x
        using count_owned_update [OF inv(1) h, of t' ?e x] w [of x] k(3) by (simp add: put_slot_def)
      have "hstep op r = \<lparr>hr_table = t', hr_log = hr_log r,
          hr_taken = hr_taken r @ (if he_owns ?e then [(he_kind ?e, he_object ?e)] else []), hr_given = hr_given r\<rparr>"
        using c HCreate h by simp
      also have "hrun_ok \<dots>"
        by (rule hrun_okI [OF ok])
          (use put_slot_inv [OF inv(1)] k(3) o count_weight [of ?e] in \<open>simp_all add: put_slot_def\<close>)
      finally show ?thesis .
    qed
  next
    case (HClose h)
    show ?thesis
    proof (cases "htab ?t h")
      case (Some e)
      then have u: "he_in_use e" by (auto simp: htab_def split: if_splits)
      have "hstep op r = \<lparr>hr_table = ?t\<lparr>entries := (entries ?t)[h := empty_entry]\<rparr>,
          hr_log = hr_log r @ (if he_owns e then [(he_kind e, he_object e)] else []),
          hr_taken = hr_taken r, hr_given = hr_given r\<rparr>"
        using HClose Some inv by (simp add: handle_close_htab log_call_def)
      also have "hrun_ok \<dots>"
        by (rule hrun_okI [OF ok len])
          (simp_all add: count_weight [OF u] count_replace [OF inv(1) Some weight_empty, symmetric])
      finally show ?thesis .
    qed (use ok HClose inv in \<open>simp add: handle_close_htab\<close>)
  next
    case (HDisown h)
    show ?thesis
    proof (cases "htab ?t h")
      case (Some e)
      then have u: "he_in_use e" "\<not> h \<ge> HANDLE_MAX" "entries ?t ! h = e" by (auto simp: htab_def split: if_splits)
      have w: "weight x (e\<lparr>he_owns := False\<rparr>) = 0" for x by (simp add: weight_def)
      have "hstep op r = \<lparr>hr_table = ?t\<lparr>entries := (entries ?t)[h := e\<lparr>he_owns := False\<rparr>]\<rparr>,
          hr_log = hr_log r, hr_taken = hr_taken r,
          hr_given = hr_given r @ (if he_owns e then [(he_kind e, he_object e)] else [])\<rparr>"
        using HDisown Some u by (simp add: handle_disown_def)
      also have "hrun_ok \<dots>"
        by (rule hrun_okI [OF ok len])
          (simp_all add: count_weight [OF u(1)] count_replace [OF inv(1) Some w, symmetric])
      finally show ?thesis .
    next
      case None
      then have "handle_disown h ?t = (False, ?t)" by (auto simp: handle_disown_def htab_def split: if_splits)
      then show ?thesis using ok HDisown None by simp
    qed
  qed
qed

section \<open>The interface to the system calls\<close>

text \<open>A capability table as seen by its clients: a partial map from handles to entries, in
  which insertion picks an unused handle.\<close>

locale cap_table =
  fixes inv :: "'t \<Rightarrow> bool"
    and entry :: "'t \<Rightarrow> nat \<Rightarrow> handle_entry option"
    and insert_cap :: "handle_entry \<Rightarrow> 't \<Rightarrow> nat \<times> 't"
    and remove_cap :: "nat \<Rightarrow> 't \<Rightarrow> 't"
  assumes insert_inv: "inv t \<Longrightarrow> he_in_use e \<Longrightarrow> insert_cap e t = (h, t') \<Longrightarrow> inv t'"
    and insert_entry: "inv t \<Longrightarrow> he_in_use e \<Longrightarrow> insert_cap e t = (h, t') \<Longrightarrow> h \<noteq> HANDLE_INVALID \<Longrightarrow>
      entry t h = None \<and> entry t' = (entry t)(h \<mapsto> e)"
    and insert_full: "inv t \<Longrightarrow> he_in_use e \<Longrightarrow> insert_cap e t = (HANDLE_INVALID, t') \<Longrightarrow>
      t' = t \<and> (\<forall>h < HANDLE_MAX. entry t h \<noteq> None)"
    and remove_inv: "inv t \<Longrightarrow> inv (remove_cap h t)"
    and remove_entry: "inv t \<Longrightarrow> entry (remove_cap h t) = (entry t)(h := None)"
begin

text \<open>A handle is never reused while it is open: two insertions give different handles.\<close>

lemma insert_distinct:
  assumes "inv t" "he_in_use e" "insert_cap e t = (h, t1)" "h \<noteq> HANDLE_INVALID"
    and "he_in_use e'" "insert_cap e' t1 = (h', t2)" "h' \<noteq> HANDLE_INVALID"
  shows "h \<noteq> h' \<and> entry t2 h = Some e \<and> entry t2 h' = Some e'"
  using insert_entry [OF assms(1-4)] insert_entry [OF insert_inv [OF assms(1-3)] assms(5-7)] by auto

lemma insert_remove:
  assumes "inv t" "he_in_use e" "insert_cap e t = (h, t')" "h \<noteq> HANDLE_INVALID"
  shows "entry (remove_cap h t') = entry t"
  using insert_entry [OF assms] remove_entry [OF insert_inv [OF assms(1-3)]] by (auto simp: fun_eq_iff)

end

definition insert_entry_slot :: "handle_entry \<Rightarrow> handle_table \<Rightarrow> nat \<times> handle_table" where
  "insert_entry_slot e t = handle_create_ex (he_kind e) (he_rights e) (he_object e) (he_owns e) t"

definition close_silent :: "nat \<Rightarrow> handle_table \<Rightarrow> handle_table" where
  "close_silent h t = fst (snd (handle_close (\<lambda>_ _ _ s. s) h (t, ())))"

lemma put_slot_htab:
  "handle_inv t \<Longrightarrow> h < HANDLE_MAX \<Longrightarrow> he_in_use e \<Longrightarrow> htab (put_slot h e t) = (htab t)(h \<mapsto> e)"
  using htab_update [of t h "put_slot h e t" e] by (simp add: put_slot_def)

lemma close_silent_eq:
  assumes "handle_inv t"
  shows "handle_inv (close_silent h t)" "htab (close_silent h t) = (htab t)(h := None)"
proof -
  show "handle_inv (close_silent h t)" using handle_close_inv [OF assms] by (simp add: close_silent_def)
  show "htab (close_silent h t) = (htab t)(h := None)"
  proof (cases "htab t h")
    case None
    then have "(htab t)(h := None) = htab t" by auto
    then show ?thesis using None by (simp add: close_silent_def handle_close_htab [OF assms])
  next
    case (Some e)
    then have "h < HANDLE_MAX" by (auto simp: htab_def split: if_splits)
    from htab_update [OF assms this, of _ empty_entry] show ?thesis
      using Some by (simp add: close_silent_def handle_close_htab [OF assms])
  qed
qed

interpretation caps: cap_table handle_inv htab insert_entry_slot close_silent
proof
  fix t :: handle_table and e :: handle_entry and h t'
  assume inv: "handle_inv t" and u: "he_in_use e"
  have e: "mk_entry (he_kind e) (he_rights e) (he_object e) (he_owns e) = e" using u by simp
  show "handle_inv t'" if "insert_entry_slot e t = (h, t')"
    using that handle_create_ex_inv [OF inv] unfolding insert_entry_slot_def by (metis snd_conv)
  show "htab t h = None \<and> htab t' = (htab t)(h \<mapsto> e)"
    if "insert_entry_slot e t = (h, t')" "h \<noteq> HANDLE_INVALID"
    by (rule handle_create_ex_cases [OF inv that(1) [unfolded insert_entry_slot_def]])
      (use that(2) u in \<open>auto simp: e put_slot_htab [OF inv]\<close>)
  show "t' = t \<and> (\<forall>h < HANDLE_MAX. htab t h \<noteq> None)" if "insert_entry_slot e t = (HANDLE_INVALID, t')"
  proof (rule handle_create_ex_cases [OF inv that [unfolded insert_entry_slot_def]])
    fix k assume k: "HANDLE_INVALID = slot t k"
    have "slot t k < HANDLE_MAX" by simp
    then show ?thesis unfolding k [symmetric] by simp
  qed simp
next
  fix t :: handle_table and h
  assume inv: "handle_inv t"
  show "handle_inv (close_silent h t)" by (rule close_silent_eq(1) [OF inv])
  show "htab (close_silent h t) = (htab t)(h := None)" by (rule close_silent_eq(2) [OF inv])
qed

section \<open>Properties\<close>

text \<open>C22: \<open>handle_create_ex\<close> on a well-formed table either finds every slot in use, returns
  \<open>HANDLE_INVALID\<close> and changes nothing, or returns a handle that was not open and binds
  exactly it to the new entry, every other handle keeping its meaning; lookups then see the
  object with exactly the rights it was created with.  The invariant is kept.\<close>

theorem handle_create_correct:
  assumes "handle_inv t"
  shows "case handle_create_ex kd rts obj owns t of (h, t') \<Rightarrow>
    handle_inv t' \<and> handle_table_has_free_slot t = (h \<noteq> HANDLE_INVALID) \<and>
    (if h = HANDLE_INVALID then t' = t
     else htab t h = None \<and> htab t' = (htab t)(h \<mapsto> mk_entry kd rts obj owns) \<and>
       handle_lookup_full t' h req = (if rts AND req = req then Some (obj, kd, rts) else None))"
proof (cases "handle_create_ex kd rts obj owns t")
  case (Pair h t')
  note fs = has_free_slot_htab [of t]
  have inv: "handle_inv t'" using handle_create_ex_inv [OF assms] Pair by (metis snd_conv)
  show ?thesis
  proof (rule handle_create_ex_cases [OF assms Pair])
    assume "\<forall>i < HANDLE_MAX. htab t i \<noteq> None" "h = HANDLE_INVALID" "t' = t"
    then show ?thesis using Pair fs inv by auto
  next
    fix k assume k: "h = slot t k" "htab t h = None" "t' = put_slot h (mk_entry kd rts obj owns) t"
    have h: "h < HANDLE_MAX" unfolding k(1) by simp
    then have "htab t' = (htab t)(h \<mapsto> mk_entry kd rts obj owns)" unfolding k(3) by (simp add: put_slot_htab assms)
    moreover have "h \<noteq> HANDLE_INVALID" using h by simp
    moreover have "handle_table_has_free_slot t" unfolding fs using h k(2) by blast
    ultimately show ?thesis using Pair inv k(2) by (simp add: handle_lookup_full_htab)
  qed
qed

definition wit_table :: handle_table where
  "wit_table = \<lparr>entries = replicate 64 empty_entry, next_hint = 5, release = 1\<rparr>"

lemma wit_table_inv: "handle_inv wit_table"
  by (simp add: wit_table_def handle_inv_def)

lemma handle_create_correct_witness:
  "handle_inv wit_table \<and> fst (handle_create_ex 2 3 77 True wit_table) \<noteq> HANDLE_INVALID"
proof -
  have "handle_table_has_free_slot wit_table"
    unfolding handle_table_has_free_slot_def set_upt
    by (rule bexI [of _ 0]) (simp_all add: wit_table_def)
  then show ?thesis
    using handle_create_correct [OF wit_table_inv, of 2 3 77 True 0] wit_table_inv
    by (cases "handle_create_ex 2 3 77 True wit_table") simp
qed

text \<open>C11: no object is leaked or released twice.  Start from a freshly initialised table with a
  release callback, perform any sequence of creations, closes and disowns, then destroy the
  table: for every object, the number of times the callback ran on it plus the number of
  times it was disowned while owned equals the number of times it was handed to the table as
  owned, and no handle is left open.\<close>

theorem handle_release_exactly_once:
  assumes "length (entries t) = HANDLE_MAX" "rel \<noteq> 0"
    and "r = fold hstep ops \<lparr>hr_table = handle_table_init rel t, hr_log = [], hr_taken = [], hr_given = []\<rparr>"
    and "handle_table_destroy log_call (hr_table r, hr_log r) = (t', l)"
  shows "count_list l x + count_list (hr_given r) x = count_list (hr_taken r) x \<and> htab t' = Map.empty"
proof -
  have "hrun_ok \<lparr>hr_table = handle_table_init rel t, hr_log = [], hr_taken = [], hr_given = []\<rparr>"
    using assms(1,2) handle_init_inv [OF assms(1), of rel]
    by (simp add: hrun_ok_def handle_table_init_eq owned_def)
  then have ok: "hrun_ok r" unfolding assms(3) by (intro fold_invariant_set [where P = hrun_ok] hstep_ok)
  have inv: "handle_inv (hr_table r)" "release (hr_table r) \<noteq> 0" using ok by (simp_all add: hrun_ok_def)
  note d = assms(4) [unfolded handle_table_destroy_spec [OF inv]]
  have lg: "fold (\<lambda>(kd, ob). log_call c kd ob) xs l = l @ xs" for c xs l
    by (induction xs arbitrary: l) (auto simp: log_call_def)
  have l: "l = hr_log r @ owned (hr_table r)" using d lg by simp
  have "count_list (hr_log r) x + count_list (owned (hr_table r)) x + count_list (hr_given r) x = count_list (hr_taken r) x"
    using ok unfolding hrun_ok_def by blast
  moreover have "htab t' = Map.empty"
    using d inv(1) by (auto simp: htab_def handle_inv_def fun_eq_iff split: if_splits)
  ultimately show ?thesis by (simp add: l)
qed

lemma handle_release_exactly_once_witness:
  "\<exists>r. r = fold hstep [HCreate 2 3 77 True] \<lparr>hr_table = handle_table_init 1 wit_table, hr_log = [], hr_taken = [], hr_given = []\<rparr> \<and>
     count_list (snd (handle_table_destroy log_call (hr_table r, hr_log r))) (2, 77) + count_list (hr_given r) (2, 77) =
       count_list (hr_taken r) (2, 77)"
proof -
  let ?r = "fold hstep [HCreate 2 3 77 True] \<lparr>hr_table = handle_table_init 1 wit_table, hr_log = [], hr_taken = [], hr_given = []\<rparr>"
  have "length (entries wit_table) = HANDLE_MAX" by (simp add: wit_table_def)
  from handle_release_exactly_once [OF this one_neq_zero refl prod.collapse [symmetric],
      of "[HCreate 2 3 77 True]" "(2, 77)"]
  show ?thesis by (intro exI [of _ ?r]) blast
qed

end
