(* ===== verification/Iqueue.thy ===== *)
theory Iqueue
  imports Prelude
begin

text \<open>
  Intrusive queues: the ready queue, the zombie list and the wait queues of the kernel are
  singly linked through a pointer field of the queued objects, with a head and a tail
  pointer and \<open>0\<close> as the null pointer.  This theory relates such a chain to the list
  of its elements and gives the laws of appending at the tail and removing at the head.
\<close>

fun chain :: "(nat \<Rightarrow> nat) \<Rightarrow> nat \<Rightarrow> nat list \<Rightarrow> bool" where
  "chain nx p [] \<longleftrightarrow> p = 0"
| "chain nx p (x # xs) \<longleftrightarrow> p = x \<and> x \<noteq> 0 \<and> chain nx (nx x) xs"

definition is_queue :: "(nat \<Rightarrow> nat) \<Rightarrow> nat \<Rightarrow> nat \<Rightarrow> nat list \<Rightarrow> bool" where
  "is_queue nx h t xs \<longleftrightarrow> chain nx h xs \<and> distinct xs \<and> t = (if xs = [] then 0 else last xs)"

lemma chain_upd [simp]: "x \<notin> set xs \<Longrightarrow> chain (nx(x := v)) p xs = chain nx p xs"
  by (induction xs arbitrary: p) auto

lemma chain_cong: "(\<And>x. x \<in> set xs \<Longrightarrow> nx x = ny x) \<Longrightarrow> chain nx p xs = chain ny p xs"
  by (induction xs arbitrary: p) auto

lemma chain_nonzero: "chain nx p xs \<Longrightarrow> 0 \<notin> set xs"
  by (induction xs arbitrary: p) auto

lemma chain_unique: "chain nx p xs \<Longrightarrow> chain nx p ys \<Longrightarrow> xs = ys"
proof (induction xs arbitrary: p ys)
  case Nil
  then show ?case by (cases ys) auto
next
  case (Cons x xs)
  then show ?case by (cases ys) auto
qed

lemma is_queue_unique: "is_queue nx h t xs \<Longrightarrow> is_queue nx h t ys \<Longrightarrow> xs = ys"
  unfolding is_queue_def using chain_unique by blast

lemma is_queue_empty [simp]: "is_queue nx 0 0 []"
  by (simp add: is_queue_def)

lemma is_queue_head: "is_queue nx h t xs \<Longrightarrow> h = 0 \<longleftrightarrow> xs = []"
  by (cases xs) (auto simp: is_queue_def)

lemma is_queue_tail: "is_queue nx h t xs \<Longrightarrow> t = 0 \<longleftrightarrow> xs = []"
proof -
  assume q: "is_queue nx h t xs"
  then have "0 \<notin> set xs" by (auto simp: is_queue_def dest: chain_nonzero)
  then have "xs \<noteq> [] \<Longrightarrow> last xs \<noteq> 0" using last_in_set [of xs] by metis
  then show ?thesis using q by (cases "xs = []") (auto simp: is_queue_def)
qed

lemma is_queue_cong:
  "(\<And>x. x \<in> set xs \<Longrightarrow> nx x = ny x) \<Longrightarrow> is_queue nx h t xs = is_queue ny h t xs"
  unfolding is_queue_def using chain_cong by blast

lemma is_queue_upd [simp]: "x \<notin> set xs \<Longrightarrow> is_queue (nx(x := v)) h t xs = is_queue nx h t xs"
  by (simp add: is_queue_def)

lemma chain_append:
  "distinct xs \<Longrightarrow> xs \<noteq> [] \<Longrightarrow> x \<notin> set xs \<Longrightarrow> x \<noteq> 0 \<Longrightarrow> chain nx p xs \<Longrightarrow>
   chain (nx(x := 0, last xs := x)) p (xs @ [x])"
proof (induction xs arbitrary: p)
  case (Cons a xs)
  show ?case
  proof (cases "xs = []")
    case False
    then have "a \<noteq> last xs" using Cons.prems(1) last_in_set by auto
    moreover have "chain (nx(x := 0, last xs := x)) (nx a) (xs @ [x])"
      by (rule Cons.IH) (use Cons.prems False in auto)
    ultimately show ?thesis using Cons.prems False by (simp del: fun_upd_apply) (simp add: fun_upd_def)
  qed (use Cons.prems in auto)
qed simp

text \<open>Appending at the tail.\<close>

lemma is_queue_push:
  assumes "is_queue nx h t xs" "x \<notin> set xs" "x \<noteq> 0"
  shows "is_queue (if t = 0 then nx(x := 0) else nx(x := 0, t := x))
    (if t = 0 then x else h) x (xs @ [x])"
proof (cases "xs = []")
  case True
  then show ?thesis using assms by (simp add: is_queue_def)
next
  case False
  moreover have "t \<noteq> 0" using is_queue_tail [OF assms(1)] False by simp
  moreover have "t = last xs" using assms(1) False by (simp add: is_queue_def)
  ultimately show ?thesis using assms chain_append [of xs x nx h] by (simp add: is_queue_def)
qed

text \<open>Removing the head.\<close>

lemma is_queue_pop:
  assumes "is_queue nx h t (x # xs)"
  shows "h = x" "x \<noteq> 0" "x \<notin> set xs" "nx x = 0 \<longleftrightarrow> xs = []"
    and "is_queue (nx(x := v)) (nx x) (if nx x = 0 then 0 else t) xs"
proof -
  show 1: "h = x" "x \<noteq> 0" "x \<notin> set xs" using assms by (auto simp: is_queue_def)
  show 2: "nx x = 0 \<longleftrightarrow> xs = []" using assms by (cases xs) (auto simp: is_queue_def)
  show "is_queue (nx(x := v)) (nx x) (if nx x = 0 then 0 else t) xs"
    using assms 1 2 by (auto simp: is_queue_def)
qed

end
