(* ===== verification/Sched.thy ===== *)
theory Sched
  imports Iqueue
begin

text \<open>
  Threads, the scheduler (\<^verbatim>\<open>kernel/core/sched.c\<close>) and wait queues
  (\<^verbatim>\<open>kernel/include/exyde/waitq.h\<close>).  Threads live in a store indexed by their
  address; the ready queue, the zombie list and the wait queues are chains through their
  fields \<open>next\<close> and \<open>wait_next\<close>.  The code runs each operation with interrupts
  disabled on one CPU, so an operation is one atomic state transformation; a panic is
  \<open>None\<close>.  \<open>sched_switch\<close> is \<^verbatim>\<open>sched_schedule\<close> up to the stack switch; the
  reaping of zombies that the resumed thread then performs is modelled with the process
  objects it releases.
\<close>

datatype thread_state = THREAD_READY | THREAD_RUNNING | THREAD_BLOCKED | THREAD_DEAD

record thread =
  th_rsp :: nat
  th_state :: thread_state
  th_id :: nat
  th_ticks_used :: nat
  th_stack_base :: vaddr
  th_stack_size :: nat
  th_kernel_stack_top :: vaddr
  th_space :: nat
  th_process :: nat
  th_entry :: nat
  th_arg :: nat
  th_next :: nat
  th_wait_next :: nat
  th_name :: string

record sched =
  threads :: "nat \<Rightarrow> thread"
  ready_head :: nat
  ready_tail :: nat
  current :: nat
  ready_count :: nat
  need_resched :: bool
  zombie_head :: nat
  zombie_tail :: nat
  kernel_stack :: vaddr     \<comment> \<open>what \<open>arch_set_kernel_stack\<close> last set\<close>
  active_space :: nat       \<comment> \<open>what \<open>vmm_switch\<close> last loaded\<close>

abbreviation SCHED_QUANTUM_TICKS :: nat where "SCHED_QUANTUM_TICKS \<equiv> 5"

definition th_upd :: "nat \<Rightarrow> (thread \<Rightarrow> thread) \<Rightarrow> sched \<Rightarrow> sched" where
  "th_upd t f s = s\<lparr>threads := (threads s)(t := f (threads s t))\<rparr>"

section \<open>Queues\<close>

definition sched_enqueue :: "nat \<Rightarrow> sched \<Rightarrow> sched" where
  "sched_enqueue t s =
     (let s = th_upd t (th_next_update (\<lambda>_. 0)) s;
          s = (if ready_tail s \<noteq> 0
               then (th_upd (ready_tail s) (th_next_update (\<lambda>_. t)) s)\<lparr>ready_tail := t\<rparr>
               else s\<lparr>ready_head := t, ready_tail := t\<rparr>)
      in s\<lparr>ready_count := ready_count s + 1\<rparr>)"

definition ready_dequeue :: "sched \<Rightarrow> nat \<times> sched" where
  "ready_dequeue s =
     (let t = ready_head s in
      if t = 0 then (0, s)
      else let s = s\<lparr>ready_head := th_next (threads s t)\<rparr>;
               s = (if ready_head s = 0 then s\<lparr>ready_tail := 0\<rparr> else s);
               s = th_upd t (th_next_update (\<lambda>_. 0)) s
           in (t, s\<lparr>ready_count := ready_count s - 1\<rparr>))"

definition zombie_push :: "nat \<Rightarrow> sched \<Rightarrow> sched" where
  "zombie_push t s =
     (let s = th_upd t (th_next_update (\<lambda>_. 0)) s
      in if zombie_tail s \<noteq> 0
         then (th_upd (zombie_tail s) (th_next_update (\<lambda>_. t)) s)\<lparr>zombie_tail := t\<rparr>
         else s\<lparr>zombie_head := t, zombie_tail := t\<rparr>)"

record waitq =
  wq_head :: nat
  wq_tail :: nat

definition waitq_init :: waitq where
  "waitq_init = \<lparr>wq_head = 0, wq_tail = 0\<rparr>"

definition waitq_empty :: "waitq \<Rightarrow> bool" where
  "waitq_empty q \<longleftrightarrow> wq_head q = 0"

definition waitq_push :: "nat \<Rightarrow> waitq \<times> sched \<Rightarrow> waitq \<times> sched" where
  "waitq_push t = (\<lambda>(q, s).
     let s = th_upd t (th_wait_next_update (\<lambda>_. 0)) s;
         (q, s) = (if wq_tail q \<noteq> 0
                   then (q, th_upd (wq_tail q) (th_wait_next_update (\<lambda>_. t)) s)
                   else (q\<lparr>wq_head := t\<rparr>, s))
     in (q\<lparr>wq_tail := t\<rparr>, s))"

definition waitq_pop :: "waitq \<times> sched \<Rightarrow> nat \<times> waitq \<times> sched" where
  "waitq_pop = (\<lambda>(q, s).
     let t = wq_head q in
     if t = 0 then (0, q, s)
     else let q = q\<lparr>wq_head := th_wait_next (threads s t)\<rparr>;
              q = (if wq_head q = 0 then q\<lparr>wq_tail := 0\<rparr> else q)
          in (t, q, th_upd t (th_wait_next_update (\<lambda>_. 0)) s))"

section \<open>Scheduling\<close>

definition sched_init :: "nat \<Rightarrow> vaddr \<Rightarrow> nat \<Rightarrow> sched \<Rightarrow> sched" where
  "sched_init boot_thread boot_top kspace s =
     s\<lparr>threads := (threads s)(boot_thread :=
         \<lparr>th_rsp = 0, th_state = THREAD_RUNNING, th_id = 0, th_ticks_used = 0, th_stack_base = 0,
          th_stack_size = 0, th_kernel_stack_top = boot_top, th_space = kspace, th_process = 0,
          th_entry = 0, th_arg = 0, th_next = 0, th_wait_next = 0, th_name = ''boot''\<rparr>),
       current := boot_thread, ready_head := 0, ready_tail := 0, ready_count := 0,
       need_resched := False, zombie_head := 0, zombie_tail := 0\<rparr>"

definition sched_switch :: "sched \<Rightarrow> sched option" where
  "sched_switch s =
     (let prev = current s;
          (nxt, s) = ready_dequeue s
      in if nxt = 0 then (if th_state (threads s prev) = THREAD_RUNNING then Some s else None)
         else
          let s = (if th_state (threads s prev) = THREAD_RUNNING
                   then sched_enqueue prev (th_upd prev (th_state_update (\<lambda>_. THREAD_READY)) s) else s);
              s = th_upd nxt (th_state_update (\<lambda>_. THREAD_RUNNING) \<circ> th_ticks_used_update (\<lambda>_. 0)) s;
              s = s\<lparr>current := nxt, kernel_stack := th_kernel_stack_top (threads s nxt)\<rparr>
          in Some (if th_space (threads s nxt) \<noteq> th_space (threads s prev) \<and> th_space (threads s nxt) \<noteq> 0
                   then s\<lparr>active_space := th_space (threads s nxt)\<rparr> else s))"

definition sched_yield :: "sched \<Rightarrow> sched option" where
  "sched_yield s = (if ready_head s \<noteq> 0 then sched_switch s else Some s)"

definition sched_tick :: "sched \<Rightarrow> sched" where
  "sched_tick s =
     (if current s = 0 then s
      else let s = th_upd (current s) (th_ticks_used_update (\<lambda>n. wrap32 (n + 1))) s in
        if th_ticks_used (threads s (current s)) \<ge> SCHED_QUANTUM_TICKS
        then let s = th_upd (current s) (th_ticks_used_update (\<lambda>_. 0)) s
             in if ready_head s \<noteq> 0 then s\<lparr>need_resched := True\<rparr> else s
        else s)"

definition sched_preempt_point :: "sched \<Rightarrow> sched option" where
  "sched_preempt_point s =
     (if need_resched s then sched_switch (s\<lparr>need_resched := False\<rparr>) else Some s)"

definition thread_exit :: "sched \<Rightarrow> sched option" where
  "thread_exit s =
     (let s = th_upd (current s) (th_state_update (\<lambda>_. THREAD_DEAD)) s
      in sched_switch (zombie_push (current s) s))"

definition sched_block :: "sched \<Rightarrow> sched option" where
  "sched_block s = sched_switch (th_upd (current s) (th_state_update (\<lambda>_. THREAD_BLOCKED)) s)"

definition sched_unblock :: "nat \<Rightarrow> sched \<Rightarrow> sched" where
  "sched_unblock t s =
     (if th_state (threads s t) \<noteq> THREAD_BLOCKED then s
      else sched_enqueue t (th_upd t (th_state_update (\<lambda>_. THREAD_READY)) s))"

text \<open>The common tail of every wake-up: pop one waiter and make it runnable.\<close>

definition wake_one :: "waitq \<times> sched \<Rightarrow> waitq \<times> sched" where
  "wake_one qs = (let (w, q, s) = waitq_pop qs in (q, if w \<noteq> 0 then sched_unblock w s else s))"

text \<open>The common head of every blocking loop: queue the current thread and block it.\<close>

definition wait_on :: "waitq \<times> sched \<Rightarrow> (waitq \<times> sched) option" where
  "wait_on qs = (let (q, s) = waitq_push (current (snd qs)) qs
                 in case sched_block s of None \<Rightarrow> None | Some s' \<Rightarrow> Some (q, s'))"

text \<open>The loop \<open>while ((w = waitq_pop(q))) sched_unblock(w)\<close>.\<close>

partial_function (option) wake_all :: "waitq \<times> sched \<Rightarrow> (waitq \<times> sched) option" where
  "wake_all qs = (case waitq_pop qs of (w, q, s) \<Rightarrow>
     if w = 0 then Some (q, s) else wake_all (q, sched_unblock w s))"

section \<open>Views of the thread store\<close>

definition nxf :: "sched \<Rightarrow> nat \<Rightarrow> nat" where "nxf s t = th_next (threads s t)"
definition wnf :: "sched \<Rightarrow> nat \<Rightarrow> nat" where "wnf s t = th_wait_next (threads s t)"
definition stf :: "sched \<Rightarrow> nat \<Rightarrow> thread_state" where "stf s t = th_state (threads s t)"

lemmas view_defs = nxf_def wnf_def stf_def fun_eq_iff

lemma th_upd_fields [simp]:
  "ready_head (th_upd t f s) = ready_head s" "ready_tail (th_upd t f s) = ready_tail s"
  "current (th_upd t f s) = current s" "ready_count (th_upd t f s) = ready_count s"
  "need_resched (th_upd t f s) = need_resched s" "zombie_head (th_upd t f s) = zombie_head s"
  "zombie_tail (th_upd t f s) = zombie_tail s" "kernel_stack (th_upd t f s) = kernel_stack s"
  "active_space (th_upd t f s) = active_space s"
  "threads (th_upd t f s) = (threads s)(t := f (threads s t))"
  by (simp_all add: th_upd_def)

lemma enqueue_views [simp]:
  "nxf (sched_enqueue t s) = (if ready_tail s = 0 then (nxf s)(t := 0) else (nxf s)(t := 0, ready_tail s := t))"
  "wnf (sched_enqueue t s) = wnf s" "stf (sched_enqueue t s) = stf s"
  "ready_head (sched_enqueue t s) = (if ready_tail s = 0 then t else ready_head s)"
  "ready_tail (sched_enqueue t s) = t" "current (sched_enqueue t s) = current s"
  "ready_count (sched_enqueue t s) = ready_count s + 1"
  "zombie_head (sched_enqueue t s) = zombie_head s" "zombie_tail (sched_enqueue t s) = zombie_tail s"
  "need_resched (sched_enqueue t s) = need_resched s"
  by (auto simp: sched_enqueue_def Let_def view_defs)

lemma zombie_push_views [simp]:
  "nxf (zombie_push t s) = (if zombie_tail s = 0 then (nxf s)(t := 0) else (nxf s)(t := 0, zombie_tail s := t))"
  "wnf (zombie_push t s) = wnf s" "stf (zombie_push t s) = stf s"
  "zombie_head (zombie_push t s) = (if zombie_tail s = 0 then t else zombie_head s)"
  "zombie_tail (zombie_push t s) = t" "current (zombie_push t s) = current s"
  "ready_head (zombie_push t s) = ready_head s" "ready_tail (zombie_push t s) = ready_tail s"
  "ready_count (zombie_push t s) = ready_count s" "need_resched (zombie_push t s) = need_resched s"
  by (auto simp: zombie_push_def Let_def view_defs)

lemma set_state_views [simp]:
  "nxf (th_upd t (th_state_update (\<lambda>_. x)) s) = nxf s" "wnf (th_upd t (th_state_update (\<lambda>_. x)) s) = wnf s"
  "stf (th_upd t (th_state_update (\<lambda>_. x)) s) = (stf s)(t := x)"
  by (auto simp: view_defs)

section \<open>Invariant\<close>

text \<open>\<open>T\<close> is the set of allocated threads, \<open>R\<close> the ready queue and \<open>Z\<close> the zombies:
  the queues are well formed and disjoint, the counter is right, and the state of every
  thread says exactly where it is.\<close>

definition sched_ok :: "nat set \<Rightarrow> sched \<Rightarrow> nat list \<Rightarrow> nat list \<Rightarrow> bool" where
  "sched_ok T s R Z \<longleftrightarrow>
     is_queue (nxf s) (ready_head s) (ready_tail s) R \<and>
     is_queue (nxf s) (zombie_head s) (zombie_tail s) Z \<and>
     ready_count s = length R \<and> current s \<in> T \<and> set R \<subseteq> T \<and> set Z \<subseteq> T \<and> 0 \<notin> T \<and>
     (\<forall>t \<in> T. (stf s t = THREAD_READY \<longleftrightarrow> t \<in> set R) \<and> (stf s t = THREAD_DEAD \<longleftrightarrow> t \<in> set Z) \<and>
              (stf s t = THREAD_RUNNING \<longleftrightarrow> t = current s))"

text \<open>The same while the current thread has just been blocked or declared dead: it is no
  longer running and about to be switched away from.\<close>

definition sched_mid :: "nat set \<Rightarrow> sched \<Rightarrow> nat list \<Rightarrow> nat list \<Rightarrow> bool" where
  "sched_mid T s R Z \<longleftrightarrow>
     is_queue (nxf s) (ready_head s) (ready_tail s) R \<and>
     is_queue (nxf s) (zombie_head s) (zombie_tail s) Z \<and>
     ready_count s = length R \<and> current s \<in> T \<and> set R \<subseteq> T \<and> set Z \<subseteq> T \<and> 0 \<notin> T \<and>
     (\<forall>t \<in> T. (stf s t = THREAD_READY \<longleftrightarrow> t \<in> set R) \<and> (stf s t = THREAD_DEAD \<longleftrightarrow> t \<in> set Z) \<and>
              stf s t \<noteq> THREAD_RUNNING)"

lemma sched_ok_disjoint: "sched_ok T s R Z \<Longrightarrow> set R \<inter> set Z = {}"
  unfolding sched_ok_def by (metis disjoint_iff subsetD thread_state.distinct(5))

lemma sched_mid_disjoint: "sched_mid T s R Z \<Longrightarrow> set R \<inter> set Z = {}"
  unfolding sched_mid_def by (metis disjoint_iff subsetD thread_state.distinct(5))

lemma queue_push_frame:
  assumes "is_queue nx h t xs" "x \<notin> set xs" "x \<noteq> 0"
    and "is_queue nx h' t' ys" "x \<notin> set ys" "set xs \<inter> set ys = {}"
  shows "is_queue (if t = 0 then nx(x := 0) else nx(x := 0, t := x)) (if t = 0 then x else h) x (xs @ [x])"
    and "is_queue (if t = 0 then nx(x := 0) else nx(x := 0, t := x)) h' t' ys"
proof -
  show "is_queue (if t = 0 then nx(x := 0) else nx(x := 0, t := x)) (if t = 0 then x else h) x (xs @ [x])"
    by (rule is_queue_push [OF assms(1-3)])
  have "t = 0 \<or> t \<in> set xs"
    using assms(1) is_queue_tail [OF assms(1)] by (auto simp: is_queue_def)
  then have "t = 0 \<or> t \<notin> set ys" using assms(6) by blast
  then show "is_queue (if t = 0 then nx(x := 0) else nx(x := 0, t := x)) h' t' ys"
    using assms(4,5) by (elim disjE) simp_all
qed

lemma dequeue_views:
  assumes "is_queue (nxf s) (ready_head s) (ready_tail s) (x # R)"
  obtains s' where "ready_dequeue s = (x, s')" "nxf s' = (nxf s)(x := 0)" "wnf s' = wnf s" "stf s' = stf s"
    "is_queue (nxf s') (ready_head s') (ready_tail s') R" "current s' = current s"
    "ready_count s' = ready_count s - 1" "zombie_head s' = zombie_head s" "zombie_tail s' = zombie_tail s"
    "need_resched s' = need_resched s"
    "\<And>t. th_space (threads s' t) = th_space (threads s t)"
    "\<And>t. th_kernel_stack_top (threads s' t) = th_kernel_stack_top (threads s t)"
proof -
  note p = is_queue_pop [OF assms]
  let ?s = "snd (ready_dequeue s)"
  have v: "nxf ?s = (nxf s)(x := 0)" "wnf ?s = wnf s" "stf ?s = stf s" "current ?s = current s"
    "ready_head ?s = nxf s x" "ready_tail ?s = (if nxf s x = 0 then 0 else ready_tail s)"
    "ready_count ?s = ready_count s - 1" "zombie_head ?s = zombie_head s" "zombie_tail ?s = zombie_tail s"
    "need_resched ?s = need_resched s"
    "\<And>t. th_space (threads ?s t) = th_space (threads s t)"
    "\<And>t. th_kernel_stack_top (threads ?s t) = th_kernel_stack_top (threads s t)"
    using p(1,2) by (auto simp: ready_dequeue_def Let_def view_defs)
  moreover have "ready_dequeue s = (x, ?s)" using p(1,2) by (simp add: ready_dequeue_def Let_def)
  moreover have "is_queue (nxf ?s) (ready_head ?s) (ready_tail ?s) R" unfolding v using p(5) .
  ultimately show thesis by (intro that [of ?s]) assumption+
qed

lemma dequeue_empty:
  "is_queue (nxf s) (ready_head s) (ready_tail s) [] \<Longrightarrow> ready_dequeue s = (0, s)"
  using is_queue_head by (fastforce simp: ready_dequeue_def)

text \<open>The effect of the last part of a switch on the views.\<close>

definition run_next :: "nat \<Rightarrow> nat \<Rightarrow> sched \<Rightarrow> sched" where
  "run_next prev nxt s =
     (let s = th_upd nxt (th_state_update (\<lambda>_. THREAD_RUNNING) \<circ> th_ticks_used_update (\<lambda>_. 0)) s;
          s = s\<lparr>current := nxt, kernel_stack := th_kernel_stack_top (threads s nxt)\<rparr>
      in if th_space (threads s nxt) \<noteq> th_space (threads s prev) \<and> th_space (threads s nxt) \<noteq> 0
         then s\<lparr>active_space := th_space (threads s nxt)\<rparr> else s)"

lemma run_next_views [simp]:
  "nxf (run_next p n s) = nxf s" "wnf (run_next p n s) = wnf s" "stf (run_next p n s) = (stf s)(n := THREAD_RUNNING)"
  "current (run_next p n s) = n" "ready_head (run_next p n s) = ready_head s"
  "ready_tail (run_next p n s) = ready_tail s" "ready_count (run_next p n s) = ready_count s"
  "zombie_head (run_next p n s) = zombie_head s" "zombie_tail (run_next p n s) = zombie_tail s"
  "need_resched (run_next p n s) = need_resched s"
  by (auto simp: run_next_def Let_def view_defs)

lemma sched_switch_eq:
  "sched_switch s =
     (let (nxt, s') = ready_dequeue s; prev = current s
      in if nxt = 0 then (if stf s' prev = THREAD_RUNNING then Some s' else None)
         else Some (run_next prev nxt
           (if stf s' prev = THREAD_RUNNING
            then sched_enqueue prev (th_upd prev (th_state_update (\<lambda>_. THREAD_READY)) s') else s')))"
  by (simp add: sched_switch_def run_next_def stf_def Let_def split: prod.splits)

lemma switch_running:
  assumes "sched_ok T s R Z"
  shows "case R of [] \<Rightarrow> sched_switch s = Some s
    | x # xs \<Rightarrow> (\<exists>s'. sched_switch s = Some s' \<and> sched_ok T s' (xs @ [current s]) Z \<and> current s' = x \<and>
        wnf s' = wnf s \<and> need_resched s' = need_resched s \<and>
        stf s' = (stf s)(current s := THREAD_READY, x := THREAD_RUNNING))"
proof (cases R)
  case Nil
  then show ?thesis
    using assms dequeue_empty [of s] by (auto simp: sched_ok_def sched_switch_eq Let_def)
next
  case (Cons x xs)
  let ?c = "current s"
  have q: "is_queue (nxf s) (ready_head s) (ready_tail s) (x # xs)"
    "is_queue (nxf s) (zombie_head s) (zombie_tail s) Z" using assms Cons by (auto simp: sched_ok_def)
  have st: "\<And>t. t \<in> T \<Longrightarrow> (stf s t = THREAD_READY \<longleftrightarrow> t \<in> set R) \<and> (stf s t = THREAD_DEAD \<longleftrightarrow> t \<in> set Z) \<and>
              (stf s t = THREAD_RUNNING \<longleftrightarrow> t = ?c)"
    and T: "?c \<in> T" "set R \<subseteq> T" "set Z \<subseteq> T" "0 \<notin> T" and rc: "ready_count s = length R"
    using assms by (auto simp: sched_ok_def)
  have c: "stf s ?c = THREAD_RUNNING" "?c \<notin> set R" "?c \<notin> set Z" using st [OF T(1)] by auto
  have c0: "?c \<noteq> 0" using T by metis
  have dj: "set (x # xs) \<inter> set Z = {}" using sched_ok_disjoint [OF assms] Cons by simp
  have x: "x \<noteq> 0" "x \<in> T" "x \<notin> set xs" using is_queue_pop(2,3) [OF q(1)] T Cons by auto
  obtain s1 where s1: "ready_dequeue s = (x, s1)" "nxf s1 = (nxf s)(x := 0)" "wnf s1 = wnf s" "stf s1 = stf s"
    "is_queue (nxf s1) (ready_head s1) (ready_tail s1) xs" "current s1 = ?c"
    "ready_count s1 = ready_count s - 1" "zombie_head s1 = zombie_head s" "zombie_tail s1 = zombie_tail s"
    "need_resched s1 = need_resched s"
    using dequeue_views [OF q(1)] by metis
  let ?s2 = "th_upd ?c (th_state_update (\<lambda>_. THREAD_READY)) s1"
  let ?s' = "run_next ?c x (sched_enqueue ?c ?s2)"
  have z1: "is_queue (nxf s1) (zombie_head s1) (zombie_tail s1) Z" using q(2) dj by (simp add: s1)
  have "?c \<notin> set xs" "set xs \<inter> set Z = {}" using c Cons dj by auto
  note pf = queue_push_frame [OF s1(5) this(1) c0 z1 c(3) this(2)]
  have eq: "sched_switch s = Some ?s'" using s1 c(1) x(1) by (simp add: sched_switch_eq Let_def)
  have stf': "stf ?s' = (stf s)(?c := THREAD_READY, x := THREAD_RUNNING)" by (simp add: s1)
  have "sched_ok T ?s' (xs @ [?c]) Z"
    unfolding sched_ok_def
  proof (intro conjI ballI)
    fix t assume t: "t \<in> T"
    have ne: "x \<noteq> ?c" using c(2) Cons by auto
    show "stf ?s' t = THREAD_READY \<longleftrightarrow> t \<in> set (xs @ [?c])"
      using st [OF t] Cons x(3) ne unfolding stf' by auto
    show "stf ?s' t = THREAD_DEAD \<longleftrightarrow> t \<in> set Z"
      using st [OF t] dj c(3) unfolding stf' by auto
    show "stf ?s' t = THREAD_RUNNING \<longleftrightarrow> t = current ?s'"
      using st [OF t] unfolding stf' by auto
  qed (use pf x T c rc Cons in \<open>auto simp: s1\<close>)
  with eq stf' show ?thesis using Cons s1 by auto
qed

lemma switch_stopped:
  assumes "sched_mid T s R Z"
  shows "case R of [] \<Rightarrow> sched_switch s = None
    | x # xs \<Rightarrow> (\<exists>s'. sched_switch s = Some s' \<and> sched_ok T s' xs Z \<and> current s' = x \<and>
        wnf s' = wnf s \<and> need_resched s' = need_resched s \<and> stf s' = (stf s)(x := THREAD_RUNNING))"
proof (cases R)
  case Nil
  then show ?thesis
    using assms dequeue_empty [of s] by (auto simp: sched_mid_def sched_switch_eq Let_def)
next
  case (Cons x xs)
  have q: "is_queue (nxf s) (ready_head s) (ready_tail s) (x # xs)"
    "is_queue (nxf s) (zombie_head s) (zombie_tail s) Z" using assms Cons by (auto simp: sched_mid_def)
  have st: "\<And>t. t \<in> T \<Longrightarrow> (stf s t = THREAD_READY \<longleftrightarrow> t \<in> set R) \<and> (stf s t = THREAD_DEAD \<longleftrightarrow> t \<in> set Z) \<and>
              stf s t \<noteq> THREAD_RUNNING"
    and T: "current s \<in> T" "set R \<subseteq> T" "set Z \<subseteq> T" "0 \<notin> T" and rc: "ready_count s = length R"
    using assms by (auto simp: sched_mid_def)
  have dj: "set (x # xs) \<inter> set Z = {}" using sched_mid_disjoint [OF assms] Cons by simp
  have x: "x \<noteq> 0" "x \<in> T" "x \<notin> set xs" using is_queue_pop(2,3) [OF q(1)] T Cons by auto
  obtain s1 where s1: "ready_dequeue s = (x, s1)" "nxf s1 = (nxf s)(x := 0)" "wnf s1 = wnf s" "stf s1 = stf s"
    "is_queue (nxf s1) (ready_head s1) (ready_tail s1) xs" "current s1 = current s"
    "ready_count s1 = ready_count s - 1" "zombie_head s1 = zombie_head s" "zombie_tail s1 = zombie_tail s"
    "need_resched s1 = need_resched s"
    using dequeue_views [OF q(1)] by metis
  let ?s' = "run_next (current s) x s1"
  have z1: "is_queue (nxf s1) (zombie_head s1) (zombie_tail s1) Z" using q(2) dj by (simp add: s1)
  have eq: "sched_switch s = Some ?s'"
    using s1 x(1) st [OF T(1)] by (simp add: sched_switch_eq Let_def)
  have stf': "stf ?s' = (stf s)(x := THREAD_RUNNING)" by (simp add: s1)
  have "sched_ok T ?s' xs Z"
    unfolding sched_ok_def
  proof (intro conjI ballI)
    fix t assume t: "t \<in> T"
    show "stf ?s' t = THREAD_READY \<longleftrightarrow> t \<in> set xs" using st [OF t] Cons x(3) unfolding stf' by auto
    show "stf ?s' t = THREAD_DEAD \<longleftrightarrow> t \<in> set Z" using st [OF t] dj unfolding stf' by auto
    show "stf ?s' t = THREAD_RUNNING \<longleftrightarrow> t = current ?s'" using st [OF t] unfolding stf' by auto
  qed (use s1 z1 x T rc Cons in auto)
  with eq stf' show ?thesis using Cons s1 by auto
qed

section \<open>The operations on the invariant\<close>

lemma resched_views [simp]:
  "nxf (s\<lparr>need_resched := b\<rparr>) = nxf s" "wnf (s\<lparr>need_resched := b\<rparr>) = wnf s" "stf (s\<lparr>need_resched := b\<rparr>) = stf s"
  by (auto simp: view_defs)

lemma sched_ok_resched [simp]: "sched_ok T (s\<lparr>need_resched := b\<rparr>) R Z = sched_ok T s R Z"
  by (simp add: sched_ok_def)

lemma ready_empty: "sched_ok T s R Z \<Longrightarrow> ready_head s = 0 \<longleftrightarrow> R = []"
  by (auto simp: sched_ok_def dest: is_queue_head)

lemma yield_ok:
  assumes "sched_ok T s R Z"
  shows "\<exists>s'. sched_yield s = Some s' \<and> wnf s' = wnf s \<and>
    (case R of [] \<Rightarrow> s' = s
     | x # xs \<Rightarrow> sched_ok T s' (xs @ [current s]) Z \<and> current s' = x \<and>
         stf s' = (stf s)(current s := THREAD_READY, x := THREAD_RUNNING))"
  using switch_running [OF assms] ready_empty [OF assms]
  by (cases R) (auto simp: sched_yield_def)

lemma preempt_ok:
  assumes "sched_ok T s R Z"
  shows "\<exists>s' R'. sched_preempt_point s = Some s' \<and> sched_ok T s' R' Z \<and> wnf s' = wnf s \<and>
    (\<forall>t \<in> T. stf s' t = THREAD_BLOCKED \<longleftrightarrow> stf s t = THREAD_BLOCKED)"
proof (cases "need_resched s")
  case True
  let ?s = "s\<lparr>need_resched := False\<rparr>"
  have "sched_ok T ?s R Z" using assms by simp
  note sw = switch_running [OF this]
  show ?thesis
  proof (cases R)
    case Nil
    then have "sched_preempt_point s = Some ?s" using sw True by (simp add: sched_preempt_point_def)
    then show ?thesis using assms by (intro exI [of _ ?s] exI [of _ R]) simp
  next
    case (Cons x xs)
    then obtain s' where s': "sched_switch ?s = Some s'" "sched_ok T s' (xs @ [current s]) Z"
      "wnf s' = wnf s" "stf s' = (stf s)(current s := THREAD_READY, x := THREAD_RUNNING)"
      using sw by auto
    have "current s \<in> T" "x \<in> T" "x \<in> set R" using assms Cons by (auto simp: sched_ok_def)
    then have "stf s x = THREAD_READY" "stf s (current s) = THREAD_RUNNING"
      using assms by (auto simp: sched_ok_def)
    then show ?thesis
      using True s' by (intro exI [of _ s'] exI [of _ "xs @ [current s]"]) (simp add: sched_preempt_point_def)
  qed
next
  case False
  then show ?thesis using assms by (intro exI [of _ s] exI [of _ R]) (simp add: sched_preempt_point_def)
qed

lemma tick_views [simp]:
  "nxf (sched_tick s) = nxf s" "wnf (sched_tick s) = wnf s" "stf (sched_tick s) = stf s"
  "current (sched_tick s) = current s" "ready_head (sched_tick s) = ready_head s"
  "ready_tail (sched_tick s) = ready_tail s" "ready_count (sched_tick s) = ready_count s"
  "zombie_head (sched_tick s) = zombie_head s" "zombie_tail (sched_tick s) = zombie_tail s"
  by (auto simp: sched_tick_def Let_def view_defs)

lemma tick_ok: "sched_ok T s R Z \<Longrightarrow> sched_ok T (sched_tick s) R Z"
  by (simp add: sched_ok_def)

lemma block_ok:
  assumes "sched_ok T s (x # R) Z"
  shows "\<exists>s'. sched_block s = Some s' \<and> sched_ok T s' R Z \<and> current s' = x \<and> wnf s' = wnf s \<and>
    stf s' = (stf s)(current s := THREAD_BLOCKED, x := THREAD_RUNNING)"
proof -
  let ?s = "th_upd (current s) (th_state_update (\<lambda>_. THREAD_BLOCKED)) s"
  have "sched_mid T ?s (x # R) Z"
    using assms unfolding sched_ok_def sched_mid_def by auto
  from switch_stopped [OF this] show ?thesis by (auto simp: sched_block_def)
qed

lemma block_panic: "sched_ok T s [] Z \<Longrightarrow> sched_block s = None"
proof -
  assume a: "sched_ok T s [] Z"
  let ?s = "th_upd (current s) (th_state_update (\<lambda>_. THREAD_BLOCKED)) s"
  have "sched_mid T ?s [] Z" using a unfolding sched_ok_def sched_mid_def by auto
  from switch_stopped [OF this] show ?thesis by (simp add: sched_block_def)
qed

lemma exit_mid:
  assumes "sched_ok T s R Z"
  shows "sched_mid T (zombie_push (current s) (th_upd (current s) (th_state_update (\<lambda>_. THREAD_DEAD)) s))
    R (Z @ [current s])"
proof -
  let ?c = "current s"
  let ?s = "zombie_push ?c (th_upd ?c (th_state_update (\<lambda>_. THREAD_DEAD)) s)"
  have st: "\<And>t. t \<in> T \<Longrightarrow> (stf s t = THREAD_READY \<longleftrightarrow> t \<in> set R) \<and> (stf s t = THREAD_DEAD \<longleftrightarrow> t \<in> set Z) \<and>
              (stf s t = THREAD_RUNNING \<longleftrightarrow> t = ?c)"
    and T: "?c \<in> T" "set R \<subseteq> T" "set Z \<subseteq> T" "0 \<notin> T"
    and q: "is_queue (nxf s) (ready_head s) (ready_tail s) R" "is_queue (nxf s) (zombie_head s) (zombie_tail s) Z"
      "ready_count s = length R"
    using assms unfolding sched_ok_def by blast+
  have c: "?c \<notin> set R" "?c \<notin> set Z" using st [OF T(1)] by auto
  have c0: "?c \<noteq> 0" using T by metis
  have dj: "set Z \<inter> set R = {}" using sched_ok_disjoint [OF assms] by blast
  note pf = queue_push_frame [OF q(2) c(2) c0 q(1) c(1) dj]
  have stf': "stf ?s = (stf s)(?c := THREAD_DEAD)" by simp
  show ?thesis
    unfolding sched_mid_def
  proof (intro conjI ballI)
    fix t assume t: "t \<in> T"
    show "stf ?s t = THREAD_READY \<longleftrightarrow> t \<in> set R" using st [OF t] c unfolding stf' by auto
    show "stf ?s t = THREAD_DEAD \<longleftrightarrow> t \<in> set (Z @ [?c])" using st [OF t] unfolding stf' by auto
    show "stf ?s t \<noteq> THREAD_RUNNING" using st [OF t] unfolding stf' by auto
  qed (use pf T q(3) in auto)
qed

lemma exit_ok:
  assumes "sched_ok T s (x # R) Z"
  shows "\<exists>s'. thread_exit s = Some s' \<and> sched_ok T s' R (Z @ [current s]) \<and> current s' = x \<and> wnf s' = wnf s \<and>
    stf s' = (stf s)(current s := THREAD_DEAD, x := THREAD_RUNNING)"
  using switch_stopped [OF exit_mid [OF assms]] by (auto simp: thread_exit_def Let_def)

lemma exit_panic: "sched_ok T s [] Z \<Longrightarrow> thread_exit s = None"
  using switch_stopped [OF exit_mid] by (fastforce simp: thread_exit_def Let_def)

lemma enqueue_ok:
  assumes "sched_ok T s R Z" "t \<noteq> 0" "t \<notin> set R" "t \<notin> set Z" "t \<noteq> current s"
  shows "sched_ok (insert t T) (sched_enqueue t (th_upd t (th_state_update (\<lambda>_. THREAD_READY)) s)) (R @ [t]) Z"
proof -
  let ?u = "th_upd t (th_state_update (\<lambda>_. THREAD_READY)) s"
  have q: "is_queue (nxf s) (ready_head s) (ready_tail s) R" "is_queue (nxf s) (zombie_head s) (zombie_tail s) Z"
    using assms(1) by (auto simp: sched_ok_def)
  note pf = queue_push_frame [OF q(1) assms(3,2) q(2) assms(4) sched_ok_disjoint [OF assms(1)]]
  then show ?thesis
    using assms unfolding sched_ok_def by auto
qed

lemma unblock_ok:
  assumes "sched_ok T s R Z" "t \<in> T"
  shows "\<exists>R'. sched_ok T (sched_unblock t s) R' Z \<and> wnf (sched_unblock t s) = wnf s \<and>
    current (sched_unblock t s) = current s \<and>
    R' = (if stf s t = THREAD_BLOCKED then R @ [t] else R) \<and>
    stf (sched_unblock t s) = (if stf s t = THREAD_BLOCKED then (stf s)(t := THREAD_READY) else stf s)"
proof (cases "stf s t = THREAD_BLOCKED")
  case True
  then have "t \<noteq> 0" "t \<notin> set R" "t \<notin> set Z" "t \<noteq> current s"
    using assms unfolding sched_ok_def by (metis, metis thread_state.distinct(3), metis thread_state.distinct(11), metis thread_state.distinct(7))
  then show ?thesis
    using enqueue_ok [OF assms(1), of t] insert_absorb [OF assms(2)] True
    by (auto simp: sched_unblock_def stf_def [symmetric])
qed (use assms in \<open>auto simp: sched_unblock_def stf_def\<close>)

section \<open>Wait queues\<close>

definition waitq_list :: "waitq \<Rightarrow> sched \<Rightarrow> nat list \<Rightarrow> bool" where
  "waitq_list q s W \<longleftrightarrow> is_queue (wnf s) (wq_head q) (wq_tail q) W"

lemma waitq_list_init [simp]: "waitq_list waitq_init s []"
  by (simp add: waitq_list_def waitq_init_def)

lemma waitq_list_empty: "waitq_list q s W \<Longrightarrow> waitq_empty q \<longleftrightarrow> W = []"
  unfolding waitq_list_def waitq_empty_def by (rule is_queue_head)

lemma waitq_list_wnf: "wnf s' = wnf s \<Longrightarrow> waitq_list q s' W = waitq_list q s W"
  by (simp add: waitq_list_def)

lemma set_wait_views:
  "nxf (th_upd t (th_wait_next_update (\<lambda>_. v)) s) = nxf s" "stf (th_upd t (th_wait_next_update (\<lambda>_. v)) s) = stf s"
  "wnf (th_upd t (th_wait_next_update (\<lambda>_. v)) s) = (wnf s)(t := v)"
  by (auto simp: view_defs)

lemma sched_ok_views:
  assumes "nxf s' = nxf s" "stf s' = stf s" "ready_head s' = ready_head s" "ready_tail s' = ready_tail s"
    "zombie_head s' = zombie_head s" "zombie_tail s' = zombie_tail s" "ready_count s' = ready_count s"
    "current s' = current s"
  shows "sched_ok T s' R Z = sched_ok T s R Z"
  using assms by (simp add: sched_ok_def)

text \<open>Appending a waiter; a second, disjoint wait queue is not disturbed.\<close>

lemma waitq_push_ok:
  assumes "waitq_list q s W" "t \<notin> set W" "t \<noteq> 0" "waitq_push t (q, s) = (q', s')"
  shows "waitq_list q' s' (W @ [t])" "stf s' = stf s" "current s' = current s"
    and "sched_ok T s' R Z = sched_ok T s R Z"
    and "\<And>p V. waitq_list p s V \<Longrightarrow> t \<notin> set V \<Longrightarrow> set W \<inter> set V = {} \<Longrightarrow> waitq_list p s' V"
proof -
  have v: "wnf s' = (if wq_tail q = 0 then (wnf s)(t := 0) else (wnf s)(t := 0, wq_tail q := t))"
    "wq_head q' = (if wq_tail q = 0 then t else wq_head q)" "wq_tail q' = t"
    using assms(4) by (auto simp: waitq_push_def Let_def set_wait_views split: if_splits)
  show 1: "stf s' = stf s" "current s' = current s"
    using assms(4) by (auto simp: waitq_push_def Let_def set_wait_views split: if_splits)
  show "sched_ok T s' R Z = sched_ok T s R Z"
    by (rule sched_ok_views) (use assms(4) in \<open>auto simp: waitq_push_def Let_def set_wait_views split: if_splits\<close>)
  show "waitq_list q' s' (W @ [t])"
    using is_queue_push [OF assms(1) [unfolded waitq_list_def] assms(2,3)] by (simp add: waitq_list_def v)
  show "waitq_list p s' V" if "waitq_list p s V" "t \<notin> set V" "set W \<inter> set V = {}" for p V
    using queue_push_frame(2) [OF assms(1) [unfolded waitq_list_def] assms(2,3) that(1) [unfolded waitq_list_def] that(2,3)]
    by (simp add: waitq_list_def v)
qed

lemma waitq_pop_ok:
  assumes "waitq_list q s (t # W)" "waitq_pop (q, s) = (t', q', s')"
  shows "t' = t" "t \<noteq> 0" "t \<notin> set W" "waitq_list q' s' W" "stf s' = stf s" "current s' = current s"
    and "sched_ok T s' R Z = sched_ok T s R Z"
    and "\<And>p V. waitq_list p s V \<Longrightarrow> t \<notin> set V \<Longrightarrow> waitq_list p s' V"
proof -
  note p = is_queue_pop [OF assms(1) [unfolded waitq_list_def]]
  show "t' = t" "t \<noteq> 0" "t \<notin> set W" using p(1-3) assms(2) by (auto simp: waitq_pop_def Let_def)
  have v: "wnf s' = (wnf s)(t := 0)" "wq_head q' = wnf s t" "wq_tail q' = (if wnf s t = 0 then 0 else wq_tail q)"
    using assms(2) p(1,2) by (auto simp: waitq_pop_def Let_def set_wait_views wnf_def)
  show "waitq_list q' s' W" unfolding waitq_list_def v by (rule p(5))
  show "stf s' = stf s" "current s' = current s"
    using assms(2) by (auto simp: waitq_pop_def Let_def set_wait_views split: if_splits)
  show "sched_ok T s' R Z = sched_ok T s R Z"
    by (rule sched_ok_views) (use assms(2) in \<open>auto simp: waitq_pop_def Let_def set_wait_views split: if_splits\<close>)
  show "waitq_list p s' V" if "waitq_list p s V" "t \<notin> set V" for p V
    using that by (simp add: waitq_list_def v)
qed

lemma waitq_pop_empty: "waitq_list q s [] \<Longrightarrow> waitq_pop (q, s) = (0, q, s)"
  by (simp add: waitq_list_def is_queue_def waitq_pop_def)

text \<open>Waking one waiter: the head of the wait queue moves to the end of the ready queue.\<close>

lemma wake_one_ok:
  assumes "waitq_list q s W" "sched_ok T s R Z" "set W \<subseteq> T" "\<forall>w \<in> set W. stf s w = THREAD_BLOCKED"
    and "wake_one (q, s) = (q', s')"
  shows "waitq_list q' s' (tl W)" "sched_ok T s' (R @ take 1 W) Z" "current s' = current s"
    and "stf s' = (if W = [] then stf s else (stf s)(hd W := THREAD_READY))"
    and "\<And>p V. waitq_list p s V \<Longrightarrow> set W \<inter> set V = {} \<Longrightarrow> waitq_list p s' V"
proof -
  have "waitq_list q' s' (tl W) \<and> sched_ok T s' (R @ take 1 W) Z \<and> current s' = current s \<and>
    stf s' = (if W = [] then stf s else (stf s)(hd W := THREAD_READY)) \<and>
    (\<forall>p V. waitq_list p s V \<longrightarrow> set W \<inter> set V = {} \<longrightarrow> waitq_list p s' V)"
  proof (cases W)
    case Nil
    then show ?thesis using assms waitq_pop_empty [of q s] by (auto simp: wake_one_def)
  next
    case (Cons w W')
    obtain t q1 s1 where pop: "waitq_pop (q, s) = (t, q1, s1)" by (cases "waitq_pop (q, s)") auto
    note po = waitq_pop_ok [OF assms(1) [unfolded Cons] pop]
    have w: "w \<in> T" "stf s1 w = THREAD_BLOCKED" using assms(3,4) Cons po(5) by auto
    have ok1: "sched_ok T s1 R Z" using po(7) assms(2) by simp
    have eq: "q' = q1" "s' = sched_unblock w s1" using assms(5) pop po(1,2) by (auto simp: wake_one_def)
    obtain R' where u: "sched_ok T s' R' Z" "wnf s' = wnf s1" "current s' = current s1" "R' = R @ [w]"
      "stf s' = (stf s1)(w := THREAD_READY)"
      using unblock_ok [OF ok1 w(1)] w(2) eq by auto
    have "waitq_list p s' V" if "waitq_list p s V" "set W \<inter> set V = {}" for p V
    proof -
      have "w \<notin> set V" using that(2) Cons by auto
      then have "waitq_list p s1 V" by (rule po(8) [OF that(1)])
      then show ?thesis by (simp only: waitq_list_wnf [OF u(2)])
    qed
    moreover have "waitq_list q' s' W'" using po(4) unfolding eq(1) waitq_list_wnf [OF u(2)] .
    ultimately show ?thesis using u(1,3-5) po(5,6) Cons by simp
  qed
  then show "waitq_list q' s' (tl W)" "sched_ok T s' (R @ take 1 W) Z" "current s' = current s"
    "stf s' = (if W = [] then stf s else (stf s)(hd W := THREAD_READY))"
    "\<And>p V. waitq_list p s V \<Longrightarrow> set W \<inter> set V = {} \<Longrightarrow> waitq_list p s' V" by blast+
qed

lemma wake_all_ok:
  assumes "waitq_list q s W" "sched_ok T s R Z" "set W \<subseteq> T" "\<forall>w \<in> set W. stf s w = THREAD_BLOCKED"
  shows "\<exists>q' s'. wake_all (q, s) = Some (q', s') \<and> waitq_list q' s' [] \<and> sched_ok T s' (R @ W) Z \<and>
    current s' = current s \<and> stf s' = (\<lambda>t. if t \<in> set W then THREAD_READY else stf s t) \<and>
    (\<forall>p V. waitq_list p s V \<longrightarrow> set W \<inter> set V = {} \<longrightarrow> waitq_list p s' V)"
  using assms
proof (induction W arbitrary: q s R)
  case Nil
  then show ?case using waitq_pop_empty [of q s] by (simp add: wake_all.simps)
next
  case (Cons w W)
  obtain t q1 s1 where pop: "waitq_pop (q, s) = (t, q1, s1)" by (cases "waitq_pop (q, s)") auto
  note po = waitq_pop_ok [OF Cons.prems(1) pop]
  let ?s = "sched_unblock w s1"
  have w: "w \<in> T" "stf s1 w = THREAD_BLOCKED" using Cons.prems(3,4) po(5) by auto
  have ok1: "sched_ok T s1 R Z" using po(7) Cons.prems(2) by simp
  obtain R' where u: "sched_ok T ?s R' Z" "wnf ?s = wnf s1" "current ?s = current s1" "R' = R @ [w]"
      "stf ?s = (stf s1)(w := THREAD_READY)"
    using unblock_ok [OF ok1 w(1)] w(2) by auto
  have "waitq_list q1 ?s W" using po(4) unfolding waitq_list_wnf [OF u(2)] .
  moreover have "set W \<subseteq> T" "\<forall>v \<in> set W. stf ?s v = THREAD_BLOCKED"
    using Cons.prems(3,4) po(3,5) u(5) by auto
  ultimately obtain q' s' where ih: "wake_all (q1, ?s) = Some (q', s')" "waitq_list q' s' []"
    "sched_ok T s' (R' @ W) Z" "current s' = current ?s"
    "stf s' = (\<lambda>t. if t \<in> set W then THREAD_READY else stf ?s t)"
    "\<And>p V. waitq_list p ?s V \<Longrightarrow> set W \<inter> set V = {} \<Longrightarrow> waitq_list p s' V"
    using Cons.IH [OF _ u(1)] by blast
  have fr: "waitq_list p s' V" if "waitq_list p s V" "set (w # W) \<inter> set V = {}" for p V
  proof (rule ih(6))
    have "waitq_list p s1 V" by (rule po(8) [OF that(1)]) (use that(2) in auto)
    then show "waitq_list p ?s V" unfolding waitq_list_wnf [OF u(2)] .
  qed (use that(2) in auto)
  have "wake_all (q, s) = Some (q', s')" using pop po(1,2) ih(1) by (subst wake_all.simps) simp
  moreover have "stf s' = (\<lambda>t. if t \<in> set (w # W) then THREAD_READY else stf s t)"
    unfolding ih(5) u(5) po(5) by auto
  ultimately show ?case using ih(2-4) u(3,4) po(6) fr by auto
qed

lemma wait_on_ok:
  assumes "waitq_list q s W" "sched_ok T s (x # R) Z" "current s \<notin> set W"
  shows "\<exists>q' s'. wait_on (q, s) = Some (q', s') \<and> waitq_list q' s' (W @ [current s]) \<and> sched_ok T s' R Z \<and>
    current s' = x \<and> stf s' = (stf s)(current s := THREAD_BLOCKED, x := THREAD_RUNNING) \<and>
    (\<forall>p V. waitq_list p s V \<longrightarrow> current s \<notin> set V \<longrightarrow> set W \<inter> set V = {} \<longrightarrow> waitq_list p s' V)"
proof -
  obtain q1 s1 where p: "waitq_push (current s) (q, s) = (q1, s1)" by fastforce
  have c0: "current s \<noteq> 0" using assms(2) unfolding sched_ok_def by metis
  note pu = waitq_push_ok [OF assms(1,3) c0 p]
  have "sched_ok T s1 (x # R) Z" using pu(4) assms(2) by simp
  from block_ok [OF this] obtain s2 where b: "sched_block s1 = Some s2" "sched_ok T s2 R Z" "current s2 = x"
    "wnf s2 = wnf s1" "stf s2 = (stf s1)(current s1 := THREAD_BLOCKED, x := THREAD_RUNNING)" by blast
  have "waitq_list p s2 V" if "waitq_list p s V" "current s \<notin> set V" "set W \<inter> set V = {}" for p V
    unfolding waitq_list_wnf [OF b(4)] by (rule pu(5) [OF that])
  moreover have "waitq_list q1 s2 (W @ [current s])" unfolding waitq_list_wnf [OF b(4)] by (rule pu(1))
  moreover have "wait_on (q, s) = Some (q1, s2)" using p b(1) by (simp add: wait_on_def)
  ultimately show ?thesis using b(2,3,5) pu(2,3) by auto
qed

lemma wait_on_panic:
  assumes "waitq_list q s W" "sched_ok T s [] Z" "current s \<notin> set W"
  shows "wait_on (q, s) = None"
proof -
  obtain q1 s1 where p: "waitq_push (current s) (q, s) = (q1, s1)" by fastforce
  have c0: "current s \<noteq> 0" using assms(2) unfolding sched_ok_def by metis
  have "sched_ok T s1 [] Z" using waitq_push_ok(4) [OF assms(1,3) c0 p] assms(2) by simp
  then show ?thesis using p block_panic by (simp add: wait_on_def)
qed

section \<open>Scheduling that leaves the wait queues alone\<close>

text \<open>Everything else that can happen between two passes: yields, ticks, preemption.\<close>

inductive other_step :: "sched \<Rightarrow> sched \<Rightarrow> bool" where
  "sched_yield s = Some s' \<Longrightarrow> other_step s s'"
| "other_step s (sched_tick s)"
| "sched_preempt_point s = Some s' \<Longrightarrow> other_step s s'"

lemma other_step_ok:
  assumes "other_step s s'" "sched_ok T s R Z"
  shows "\<exists>R'. sched_ok T s' R' Z \<and> wnf s' = wnf s \<and>
    (\<forall>t \<in> T. stf s' t = THREAD_BLOCKED \<longleftrightarrow> stf s t = THREAD_BLOCKED)"
  using assms(1)
proof cases
  case 1
  show ?thesis
  proof (cases R)
    case Nil
    then show ?thesis using yield_ok [OF assms(2)] 1 assms(2) by auto
  next
    case (Cons x xs)
    have "x \<in> T" "x \<in> set R" "current s \<in> T" using assms(2) Cons by (auto simp: sched_ok_def)
    then have "stf s x = THREAD_READY" "stf s (current s) = THREAD_RUNNING" using assms(2) by (auto simp: sched_ok_def)
    then show ?thesis using yield_ok [OF assms(2)] 1 Cons by auto
  qed
next
  case 2
  then show ?thesis using tick_ok [OF assms(2)] by (auto intro!: exI [of _ R])
next
  case 3
  then show ?thesis using preempt_ok [OF assms(2)] by auto
qed

section \<open>Runs of the scheduler\<close>

text \<open>One transition of the scheduler, on the set of allocated threads and the scheduler
  state.  \<open>create\<close> is the end of \<^verbatim>\<open>thread_create\<close> (a fresh thread in state READY is
  enqueued); \<open>reap\<close> is the detaching of the zombies by \<^verbatim>\<open>reap_zombies\<close>, after which
  they are freed.\<close>

inductive sched_step :: "nat set \<times> sched \<Rightarrow> nat set \<times> sched \<Rightarrow> bool" where
  yield: "sched_yield s = Some s' \<Longrightarrow> sched_step (T, s) (T, s')"
| tick: "sched_step (T, s) (T, sched_tick s)"
| preempt: "sched_preempt_point s = Some s' \<Longrightarrow> sched_step (T, s) (T, s')"
| block: "sched_block s = Some s' \<Longrightarrow> sched_step (T, s) (T, s')"
| unblock: "t \<in> T \<Longrightarrow> sched_step (T, s) (T, sched_unblock t s)"
| exit: "thread_exit s = Some s' \<Longrightarrow> sched_step (T, s) (T, s')"
| create: "t \<notin> T \<Longrightarrow> t \<noteq> 0 \<Longrightarrow> th_state r = THREAD_READY \<Longrightarrow>
    sched_step (T, s) (insert t T, sched_enqueue t (s\<lparr>threads := (threads s)(t := r)\<rparr>))"
| reap: "sched_step (T, s) (T - {t. stf s t = THREAD_DEAD}, s\<lparr>zombie_head := 0, zombie_tail := 0\<rparr>)"

inductive_cases sched_stepE: "sched_step (T, s) (T', s')"

lemma create_ok:
  assumes "sched_ok T s R Z" "t \<notin> T" "t \<noteq> 0" "th_state r = THREAD_READY"
  shows "sched_ok (insert t T) (sched_enqueue t (s\<lparr>threads := (threads s)(t := r)\<rparr>)) (R @ [t]) Z"
proof -
  let ?u = "s\<lparr>threads := (threads s)(t := r)\<rparr>"
  have n: "t \<notin> set R" "t \<notin> set Z" "t \<noteq> current s" using assms(1,2) by (auto simp: sched_ok_def)
  have v: "nxf ?u = (nxf s)(t := th_next r)" "stf ?u = (stf s)(t := THREAD_READY)"
    using assms(4) by (auto simp: view_defs)
  have q: "is_queue (nxf ?u) (ready_head ?u) (ready_tail ?u) R" "is_queue (nxf ?u) (zombie_head ?u) (zombie_tail ?u) Z"
    using assms(1) n by (auto simp: sched_ok_def v)
  note pf = queue_push_frame [OF q(1) n(1) assms(3) q(2) n(2) sched_ok_disjoint [OF assms(1)]]
  show ?thesis
    using assms(1,2,3) n pf unfolding sched_ok_def by (auto simp: v(2))
qed

lemma reap_ok:
  assumes "sched_ok T s R Z"
  shows "sched_ok (T - {t. stf s t = THREAD_DEAD}) (s\<lparr>zombie_head := 0, zombie_tail := 0\<rparr>) R []"
proof -
  have v: "nxf (s\<lparr>zombie_head := 0, zombie_tail := 0\<rparr>) = nxf s" "stf (s\<lparr>zombie_head := 0, zombie_tail := 0\<rparr>) = stf s"
    by (auto simp: view_defs)
  have "stf s (current s) = THREAD_RUNNING" "\<forall>t \<in> set R. stf s t = THREAD_READY"
    using assms by (auto simp: sched_ok_def)
  then show ?thesis using assms unfolding sched_ok_def v by auto
qed

lemma sched_step_ok:
  assumes "sched_step (T, s) (T', s')" "sched_ok T s R Z"
  shows "\<exists>R' Z'. sched_ok T' s' R' Z'"
  using assms(1)
proof (rule sched_stepE)
  assume "T' = T" "sched_yield s = Some s'"
  then show ?thesis using yield_ok [OF assms(2)] assms(2) by (cases R) auto
next
  assume "T' = T" "s' = sched_tick s"
  then show ?thesis using tick_ok [OF assms(2)] by blast
next
  assume "T' = T" "sched_preempt_point s = Some s'"
  then show ?thesis using preempt_ok [OF assms(2)] by auto
next
  assume "T' = T" "sched_block s = Some s'"
  then show ?thesis using block_ok [of T s _ _ Z] block_panic [of T s Z] assms(2) by (cases R) fastforce+
next
  fix t assume "T' = T" "s' = sched_unblock t s" "t \<in> T"
  then show ?thesis using unblock_ok [OF assms(2), of t] by blast
next
  assume "T' = T" "thread_exit s = Some s'"
  then show ?thesis using exit_ok [of T s _ _ Z] exit_panic [of T s Z] assms(2) by (cases R) fastforce+
next
  fix t r assume "T' = insert t T" "s' = sched_enqueue t (s\<lparr>threads := (threads s)(t := r)\<rparr>)"
    "t \<notin> T" "0 < t" "th_state r = THREAD_READY"
  then show ?thesis using create_ok [OF assms(2), of t r] by blast
next
  assume "T' = T - {t. stf s t = THREAD_DEAD}" "s' = s\<lparr>zombie_head := 0, zombie_tail := 0\<rparr>"
  then show ?thesis using reap_ok [OF assms(2)] by blast
qed

section \<open>Properties\<close>

text \<open>C6: no thread is ever lost, duplicated or scheduled twice.  In every state reachable from
  the boot state by yields, timer ticks, preemption points, blocking, unblocking, thread
  creation, exit and reaping, the ready queue and the zombie list are well-formed,
  disjoint chains, the ready counter is exact, and every allocated thread is READY exactly
  when it is in the ready queue, DEAD exactly when it is a zombie and RUNNING exactly when
  it is the current thread.\<close>

theorem sched_invariant:
  assumes "sched_step\<^sup>*\<^sup>* ({b}, sched_init b tp ks s0) (T, s)" "b \<noteq> 0"
  shows "\<exists>R Z. is_queue (nxf s) (ready_head s) (ready_tail s) R \<and>
    is_queue (nxf s) (zombie_head s) (zombie_tail s) Z \<and> set R \<inter> set Z = {} \<and>
    ready_count s = length R \<and> current s \<in> T \<and> set R \<union> set Z \<subseteq> T \<and>
    (\<forall>t \<in> T. (stf s t = THREAD_READY \<longleftrightarrow> t \<in> set R) \<and> (stf s t = THREAD_DEAD \<longleftrightarrow> t \<in> set Z) \<and>
             (stf s t = THREAD_RUNNING \<longleftrightarrow> t = current s))"
proof -
  have "sched_ok {b} (sched_init b tp ks s0) [] []"
    using assms(2) by (simp add: sched_ok_def sched_init_def stf_def)
  with assms(1) have "\<exists>R Z. sched_ok T s R Z"
    by (induction "(T, s)" arbitrary: T s rule: rtranclp_induct) (force dest: sched_step_ok)+
  then obtain R Z where ok: "sched_ok T s R Z" by blast
  show ?thesis
    by (intro exI [of _ R] exI [of _ Z] conjI)
      (use ok sched_ok_disjoint [OF ok] in \<open>simp_all add: sched_ok_def\<close>)
qed

definition wit_sched :: sched where
  "wit_sched = \<lparr>threads = (\<lambda>_. \<lparr>th_rsp = 0, th_state = THREAD_BLOCKED, th_id = 0, th_ticks_used = 0, th_stack_base = 0,
      th_stack_size = 0, th_kernel_stack_top = 0, th_space = 0, th_process = 0, th_entry = 0, th_arg = 0,
      th_next = 0, th_wait_next = 0, th_name = []\<rparr>),
    ready_head = 0, ready_tail = 0, current = 0, ready_count = 0, need_resched = False,
    zombie_head = 0, zombie_tail = 0, kernel_stack = 0, active_space = 0\<rparr>"

definition wit_thread :: thread where
  "wit_thread = (threads wit_sched 0)\<lparr>th_state := THREAD_READY\<rparr>"

lemma wit_sched_ok1: "sched_ok {1} (sched_init 1 0 0 wit_sched) [] []"
  by (simp add: sched_ok_def sched_init_def stf_def)

lemma sched_invariant_witness:
  "let s = sched_enqueue 2 (sched_init 1 0 0 wit_sched\<lparr>threads := (threads (sched_init 1 0 0 wit_sched))(2 := wit_thread)\<rparr>)
   in sched_step\<^sup>*\<^sup>* ({1}, sched_init 1 0 0 wit_sched) ({2, 1}, s) \<and>
      (\<exists>R. is_queue (nxf s) (ready_head s) (ready_tail s) R \<and> ready_count s = length R)"
proof -
  let ?s = "sched_enqueue 2 (sched_init 1 0 0 wit_sched\<lparr>threads := (threads (sched_init 1 0 0 wit_sched))(2 := wit_thread)\<rparr>)"
  have "sched_step ({1}, sched_init 1 0 0 wit_sched) ({2, 1}, ?s)"
    by (rule create) (simp_all add: wit_thread_def)
  then have "sched_step\<^sup>*\<^sup>* ({1}, sched_init 1 0 0 wit_sched) ({2, 1}, ?s)" by blast
  with sched_invariant [OF this one_neq_zero] show ?thesis unfolding Let_def by blast
qed

text \<open>The state after \<open>n\<close> consecutive calls of \<^verbatim>\<open>sched_yield\<close>.\<close>

fun yield_n :: "nat \<Rightarrow> sched \<Rightarrow> sched option" where
  "yield_n 0 s = Some s"
| "yield_n (Suc n) s = (case sched_yield s of None \<Rightarrow> None | Some s' \<Rightarrow> yield_n n s')"

text \<open>C24: scheduling is round robin, so no ready thread starves.  If every thread that gets the
  CPU yields, the thread at position \<open>k\<close> of the ready queue runs after exactly
  \<open>k + 1\<close> yields, and the thread that started runs again after one full round.\<close>

theorem sched_round_robin:
  assumes "sched_ok T s R Z" "k \<le> length R"
  shows "\<exists>s'. yield_n (Suc k) s = Some s' \<and> current s' = (R @ [current s]) ! k"
  using assms
proof (induction k arbitrary: s R)
  case 0
  then show ?case using yield_ok [OF "0.prems"(1)] by (cases R) auto
next
  case (Suc k)
  then obtain x xs where R: "R = x # xs" by (cases R) auto
  then obtain s1 where s1: "sched_yield s = Some s1" "sched_ok T s1 (xs @ [current s]) Z" "current s1 = x"
    using yield_ok [OF Suc.prems(1)] by auto
  have "k \<le> length (xs @ [current s])" using Suc.prems(2) R by simp
  from Suc.IH [OF s1(2) this] obtain s' where
    "yield_n (Suc k) s1 = Some s'" "current s' = ((xs @ [current s]) @ [x]) ! k" using s1(3) by auto
  moreover have "((xs @ [current s]) @ [x]) ! k = (R @ [current s]) ! Suc k"
    using Suc.prems(2) R by (simp add: nth_append)
  ultimately show ?case using s1(1) by (simp del: yield_n.simps(1))
qed

lemma wit_sched_ok:
  "sched_ok {2, 1} (sched_enqueue 2 (sched_init 1 0 0 wit_sched\<lparr>threads := (threads (sched_init 1 0 0 wit_sched))(2 := wit_thread)\<rparr>)) [2] []"
proof -
  have "sched_ok {1} (sched_init 1 0 0 wit_sched) [] []"
    by (simp add: sched_ok_def sched_init_def stf_def)
  from create_ok [OF this, of 2 wit_thread] show ?thesis by (simp add: wit_thread_def)
qed

lemma sched_round_robin_witness:
  "\<exists>s'. yield_n 1 (sched_enqueue 2 (sched_init 1 0 0 wit_sched\<lparr>threads := (threads (sched_init 1 0 0 wit_sched))(2 := wit_thread)\<rparr>)) = Some s' \<and>
     current s' = 2"
  using sched_round_robin [OF wit_sched_ok, of 0] by simp

end
