(* ===== verification/Sync.thy ===== *)
theory Sync
  imports Sched
begin

text \<open>
  The blocking primitives \<^verbatim>\<open>kernel/core/mutex.c\<close>, \<^verbatim>\<open>semaphore.c\<close> and
  \<^verbatim>\<open>condvar.c\<close>.  A call that can block is modelled one pass of its loop at a time: the
  result says whether the pass completed the call (\<open>True\<close>) or parked the calling thread
  (\<open>False\<close>), which repeats the pass when it is scheduled again; a panic is \<open>None\<close>.
  The step relations below interleave such passes with arbitrary scheduling.
\<close>

section \<open>Mutexes\<close>

record mutex =
  m_locked :: bool
  m_owner :: nat
  m_waiters :: waitq

definition mutex_init :: mutex where
  "mutex_init = \<lparr>m_locked = False, m_owner = 0, m_waiters = waitq_init\<rparr>"

definition mutex_lock_irqoff :: "mutex \<times> sched \<Rightarrow> (bool \<times> mutex \<times> sched) option" where
  "mutex_lock_irqoff = (\<lambda>(m, s).
     if m_locked m
     then (case wait_on (m_waiters m, s) of None \<Rightarrow> None
           | Some (q, s') \<Rightarrow> Some (False, m\<lparr>m_waiters := q\<rparr>, s'))
     else Some (True, m\<lparr>m_locked := True, m_owner := current s\<rparr>, s))"

definition mutex_unlock_irqoff :: "mutex \<times> sched \<Rightarrow> (mutex \<times> sched) option" where
  "mutex_unlock_irqoff = (\<lambda>(m, s).
     if \<not> m_locked m then None
     else if m_owner m \<noteq> current s then None
     else let m = m\<lparr>m_locked := False, m_owner := 0\<rparr>;
              (q, s) = wake_one (m_waiters m, s)
          in Some (m\<lparr>m_waiters := q\<rparr>, s))"

definition mutex_lock :: "mutex \<times> sched \<Rightarrow> (bool \<times> mutex \<times> sched) option" where
  "mutex_lock ms = mutex_lock_irqoff ms"

definition mutex_trylock :: "mutex \<times> sched \<Rightarrow> bool \<times> mutex \<times> sched" where
  "mutex_trylock = (\<lambda>(m, s).
     if m_locked m then (False, m, s)
     else (True, m\<lparr>m_locked := True, m_owner := current s\<rparr>, s))"

definition mutex_unlock :: "mutex \<times> sched \<Rightarrow> (mutex \<times> sched) option" where
  "mutex_unlock ms = mutex_unlock_irqoff ms"

section \<open>Condition variables\<close>

text \<open>\<open>cond_wait\<close> up to the point where the thread is parked; when it is scheduled again it
  runs \<open>mutex_lock_irqoff\<close>.\<close>

definition cond_wait :: "waitq \<times> mutex \<times> sched \<Rightarrow> (waitq \<times> mutex \<times> sched) option" where
  "cond_wait = (\<lambda>(c, m, s).
     let (c, s) = waitq_push (current s) (c, s) in
     case mutex_unlock_irqoff (m, s) of None \<Rightarrow> None
     | Some (m, s) \<Rightarrow> (case sched_block s of None \<Rightarrow> None | Some s \<Rightarrow> Some (c, m, s)))"

definition cond_signal :: "waitq \<times> sched \<Rightarrow> waitq \<times> sched" where
  "cond_signal cs = wake_one cs"

definition cond_broadcast :: "waitq \<times> sched \<Rightarrow> (waitq \<times> sched) option" where
  "cond_broadcast cs = wake_all cs"

section \<open>Semaphores\<close>






section \<open>A mutex and a condition variable under interleaving\<close>

text \<open>What each thread is doing: outside, inside the loop of \<open>mutex_lock\<close>, parked in (or
  returning from) \<open>cond_wait\<close>, or holding the mutex.\<close>

datatype mpc = MOut | MLocking | MCWait | MHolding

record msys =
  ms_m :: mutex
  ms_c :: waitq
  ms_s :: sched
  ms_pc :: "nat \<Rightarrow> mpc"

inductive mutex_step :: "nat set \<Rightarrow> msys \<Rightarrow> msys \<Rightarrow> bool" for T where
  lock: "ms_pc y (current (ms_s y)) \<noteq> MHolding \<Longrightarrow> mutex_lock (ms_m y, ms_s y) = Some (got, m, s) \<Longrightarrow>
    mutex_step T y (y\<lparr>ms_m := m, ms_s := s,
      ms_pc := (ms_pc y)(current (ms_s y) := if got then MHolding else MLocking)\<rparr>)"
| trylock: "ms_pc y (current (ms_s y)) = MOut \<Longrightarrow> mutex_trylock (ms_m y, ms_s y) = (got, m, s) \<Longrightarrow>
    mutex_step T y (y\<lparr>ms_m := m, ms_s := s,
      ms_pc := (ms_pc y)(current (ms_s y) := if got then MHolding else MOut)\<rparr>)"
| unlock: "ms_pc y (current (ms_s y)) = MHolding \<Longrightarrow> mutex_unlock (ms_m y, ms_s y) = Some (m, s) \<Longrightarrow>
    mutex_step T y (y\<lparr>ms_m := m, ms_s := s, ms_pc := (ms_pc y)(current (ms_s y) := MOut)\<rparr>)"
| wait: "ms_pc y (current (ms_s y)) = MHolding \<Longrightarrow> cond_wait (ms_c y, ms_m y, ms_s y) = Some (c, m, s) \<Longrightarrow>
    mutex_step T y (y\<lparr>ms_c := c, ms_m := m, ms_s := s, ms_pc := (ms_pc y)(current (ms_s y) := MCWait)\<rparr>)"
| signal: "cond_signal (ms_c y, ms_s y) = (c, s) \<Longrightarrow> mutex_step T y (y\<lparr>ms_c := c, ms_s := s\<rparr>)"
| broadcast: "cond_broadcast (ms_c y, ms_s y) = Some (c, s) \<Longrightarrow> mutex_step T y (y\<lparr>ms_c := c, ms_s := s\<rparr>)"
| other: "other_step (ms_s y) s \<Longrightarrow> mutex_step T y (y\<lparr>ms_s := s\<rparr>)"
| block: "ms_pc y (current (ms_s y)) \<in> {MOut, MHolding} \<Longrightarrow> sched_block (ms_s y) = Some s \<Longrightarrow>
    mutex_step T y (y\<lparr>ms_s := s\<rparr>)"
| unblock: "t \<in> T \<Longrightarrow> ms_pc y t \<in> {MOut, MHolding} \<Longrightarrow> mutex_step T y (y\<lparr>ms_s := sched_unblock t (ms_s y)\<rparr>)"

text \<open>The invariant, with the ready queue, zombies and the two wait queues named.\<close>

definition mutex_ok :: "nat set \<Rightarrow> nat list \<Rightarrow> nat list \<Rightarrow> nat list \<Rightarrow> nat list \<Rightarrow> msys \<Rightarrow> bool" where
  "mutex_ok T R Z W C y \<longleftrightarrow>
     sched_ok T (ms_s y) R Z \<and> waitq_list (m_waiters (ms_m y)) (ms_s y) W \<and> waitq_list (ms_c y) (ms_s y) C \<and>
     set W \<subseteq> T \<and> set C \<subseteq> T \<and>
     (\<forall>t \<in> T. t \<in> set W \<longleftrightarrow> stf (ms_s y) t = THREAD_BLOCKED \<and> ms_pc y t = MLocking) \<and>
     (\<forall>t \<in> T. t \<in> set C \<longleftrightarrow> stf (ms_s y) t = THREAD_BLOCKED \<and> ms_pc y t = MCWait) \<and>
     (\<forall>t \<in> T. ms_pc y t = MHolding \<longleftrightarrow> m_locked (ms_m y) \<and> m_owner (ms_m y) = t) \<and>
     (m_locked (ms_m y) \<longrightarrow> m_owner (ms_m y) \<in> T) \<and>
     (\<not> m_locked (ms_m y) \<and> W \<noteq> [] \<longrightarrow>
        (\<exists>t \<in> T. ms_pc y t \<in> {MLocking, MCWait} \<and> stf (ms_s y) t \<noteq> THREAD_BLOCKED))"

lemma mutex_ok_facts:
  assumes "mutex_ok T R Z W C y"
  shows "sched_ok T (ms_s y) R Z" "waitq_list (m_waiters (ms_m y)) (ms_s y) W" "waitq_list (ms_c y) (ms_s y) C"
    "set W \<subseteq> T" "set C \<subseteq> T" "set W \<inter> set C = {}" "current (ms_s y) \<in> T"
    "current (ms_s y) \<notin> set W" "current (ms_s y) \<notin> set C" "stf (ms_s y) (current (ms_s y)) = THREAD_RUNNING"
    "\<forall>w \<in> set W. stf (ms_s y) w = THREAD_BLOCKED" "\<forall>w \<in> set C. stf (ms_s y) w = THREAD_BLOCKED"
proof -
  show 1: "sched_ok T (ms_s y) R Z" "waitq_list (m_waiters (ms_m y)) (ms_s y) W" "waitq_list (ms_c y) (ms_s y) C"
    "set W \<subseteq> T" "set C \<subseteq> T" using assms by (simp_all add: mutex_ok_def)
  show 2: "current (ms_s y) \<in> T" "stf (ms_s y) (current (ms_s y)) = THREAD_RUNNING" using 1(1) by (auto simp: sched_ok_def)
  have W: "\<And>t. t \<in> T \<Longrightarrow> t \<in> set W \<longleftrightarrow> stf (ms_s y) t = THREAD_BLOCKED \<and> ms_pc y t = MLocking"
    and C: "\<And>t. t \<in> T \<Longrightarrow> t \<in> set C \<longleftrightarrow> stf (ms_s y) t = THREAD_BLOCKED \<and> ms_pc y t = MCWait"
    using assms by (simp_all add: mutex_ok_def)
  show "current (ms_s y) \<notin> set W" "current (ms_s y) \<notin> set C" using W [OF 2(1)] C [OF 2(1)] 2(2) by simp_all
  show "\<forall>w \<in> set W. stf (ms_s y) w = THREAD_BLOCKED" "\<forall>w \<in> set C. stf (ms_s y) w = THREAD_BLOCKED"
    using W C 1(4,5) by blast+
  show "set W \<inter> set C = {}" using W C 1(4,5) by fastforce
qed

text \<open>Changes of the scheduler alone: the blocked threads of the two queues stay blocked, no
  other locking or waiting thread becomes blocked.\<close>

lemma mutex_ok_sched:
  assumes ok: "mutex_ok T R Z W C y" and s: "sched_ok T s R' Z'" "wnf s = wnf (ms_s y)"
    and b: "\<And>t. t \<in> T \<Longrightarrow> ms_pc y t \<in> {MLocking, MCWait} \<Longrightarrow>
      stf s t = THREAD_BLOCKED \<longleftrightarrow> stf (ms_s y) t = THREAD_BLOCKED"
  shows "mutex_ok T R' Z' W C (y\<lparr>ms_s := s\<rparr>)"
proof -
  have q: "waitq_list q s V = waitq_list q (ms_s y) V" for q V by (rule waitq_list_wnf [OF s(2)])
  note o = ok [unfolded mutex_ok_def]
  have b1: "stf s t = THREAD_BLOCKED \<and> ms_pc y t = MLocking \<longleftrightarrow> stf (ms_s y) t = THREAD_BLOCKED \<and> ms_pc y t = MLocking"
    "stf s t = THREAD_BLOCKED \<and> ms_pc y t = MCWait \<longleftrightarrow> stf (ms_s y) t = THREAD_BLOCKED \<and> ms_pc y t = MCWait"
    "ms_pc y t \<in> {MLocking, MCWait} \<and> stf s t \<noteq> THREAD_BLOCKED \<longleftrightarrow>
     ms_pc y t \<in> {MLocking, MCWait} \<and> stf (ms_s y) t \<noteq> THREAD_BLOCKED" if "t \<in> T" for t
    using b [OF that] by auto
  have "(\<exists>t \<in> T. ms_pc y t \<in> {MLocking, MCWait} \<and> stf s t \<noteq> THREAD_BLOCKED) \<longleftrightarrow>
        (\<exists>t \<in> T. ms_pc y t \<in> {MLocking, MCWait} \<and> stf (ms_s y) t \<noteq> THREAD_BLOCKED)"
    by (rule bex_cong [OF refl b1(3)])
  then show ?thesis using o s(1) b1(1,2) unfolding mutex_ok_def by (simp add: q)
qed

lemma mutex_ok_other:
  assumes "mutex_ok T R Z W C y" "other_step (ms_s y) s"
  shows "\<exists>R'. mutex_ok T R' Z W C (y\<lparr>ms_s := s\<rparr>)"
proof -
  obtain R' where "sched_ok T s R' Z" "wnf s = wnf (ms_s y)"
    "\<forall>t \<in> T. stf s t = THREAD_BLOCKED \<longleftrightarrow> stf (ms_s y) t = THREAD_BLOCKED"
    using other_step_ok [OF assms(2) mutex_ok_facts(1) [OF assms(1)]] by blast
  then show ?thesis using mutex_ok_sched [OF assms(1)] by blast
qed

lemma mutex_ok_block:
  assumes ok: "mutex_ok T R Z W C y" and pc: "ms_pc y (current (ms_s y)) \<in> {MOut, MHolding}"
    and b: "sched_block (ms_s y) = Some s"
  shows "\<exists>R'. mutex_ok T R' Z W C (y\<lparr>ms_s := s\<rparr>)"
proof -
  note f = mutex_ok_facts [OF ok]
  obtain x R' where R: "R = x # R'" using b block_panic [of T "ms_s y" Z] f(1) by (cases R) auto
  then have x: "x \<in> T" "stf (ms_s y) x = THREAD_READY" using f(1) by (auto simp: sched_ok_def)
  from block_ok [OF f(1) [unfolded R]] b have s: "sched_ok T s R' Z" "wnf s = wnf (ms_s y)"
    "stf s = (stf (ms_s y))(current (ms_s y) := THREAD_BLOCKED, x := THREAD_RUNNING)" by auto
  have "stf s t = THREAD_BLOCKED \<longleftrightarrow> stf (ms_s y) t = THREAD_BLOCKED" if "ms_pc y t \<in> {MLocking, MCWait}" for t
  proof -
    have "t \<noteq> current (ms_s y)" using that pc by auto
    then show ?thesis using x(2) by (simp add: s(3))
  qed
  then show ?thesis using mutex_ok_sched [OF ok s(1,2)] by blast
qed

lemma mutex_ok_unblock:
  assumes ok: "mutex_ok T R Z W C y" and pc: "ms_pc y t \<in> {MOut, MHolding}" and t: "t \<in> T"
  shows "\<exists>R'. mutex_ok T R' Z W C (y\<lparr>ms_s := sched_unblock t (ms_s y)\<rparr>)"
proof -
  note f = mutex_ok_facts [OF ok]
  obtain R' where u: "sched_ok T (sched_unblock t (ms_s y)) R' Z" "wnf (sched_unblock t (ms_s y)) = wnf (ms_s y)"
    "stf (sched_unblock t (ms_s y)) = (if stf (ms_s y) t = THREAD_BLOCKED then (stf (ms_s y))(t := THREAD_READY) else stf (ms_s y))"
    using unblock_ok [OF f(1) t] by blast
  have "stf (sched_unblock t (ms_s y)) v = THREAD_BLOCKED \<longleftrightarrow> stf (ms_s y) v = THREAD_BLOCKED"
    if "ms_pc y v \<in> {MLocking, MCWait}" for v
  proof -
    have "v \<noteq> t" using that pc by auto
    then show ?thesis by (simp add: u(3))
  qed
  then show ?thesis using mutex_ok_sched [OF ok u(1,2)] by blast
qed

lemma mutex_ok_acquire:
  assumes ok: "mutex_ok T R Z W C y" and nl: "\<not> m_locked (ms_m y)"
  shows "mutex_ok T R Z W C (y\<lparr>ms_m := (ms_m y)\<lparr>m_locked := True, m_owner := current (ms_s y)\<rparr>,
    ms_pc := (ms_pc y)(current (ms_s y) := MHolding)\<rparr>)"
  using mutex_ok_facts(7-10) [OF ok] ok nl unfolding mutex_ok_def by auto

lemma mutex_ok_park:
  assumes ok: "mutex_ok T R Z W C y" and l: "m_locked (ms_m y)" and pc: "ms_pc y (current (ms_s y)) \<noteq> MHolding"
    and w: "wait_on (m_waiters (ms_m y), ms_s y) = Some (q, s)"
  shows "\<exists>R' W'. mutex_ok T R' Z W' C (y\<lparr>ms_m := (ms_m y)\<lparr>m_waiters := q\<rparr>, ms_s := s,
    ms_pc := (ms_pc y)(current (ms_s y) := MLocking)\<rparr>)"
proof -
  note f = mutex_ok_facts [OF ok]
  let ?c = "current (ms_s y)"
  obtain x R' where R: "R = x # R'" using w wait_on_panic [OF f(2) _ f(8)] f(1) by (cases R) auto
  then have x: "x \<in> T" "stf (ms_s y) x = THREAD_READY" using f(1) by (auto simp: sched_ok_def)
  from wait_on_ok [OF f(2) f(1) [unfolded R] f(8)] w f(3,6,9) have
    s: "waitq_list q s (W @ [?c])" "sched_ok T s R' Z" "waitq_list (ms_c y) s C"
      "stf s = (stf (ms_s y))(?c := THREAD_BLOCKED, x := THREAD_RUNNING)" by auto
  have ne: "x \<noteq> ?c" using x(2) f(10) by auto
  let ?y = "y\<lparr>ms_m := (ms_m y)\<lparr>m_waiters := q\<rparr>, ms_s := s, ms_pc := (ms_pc y)(?c := MLocking)\<rparr>"
  have "t \<in> set (W @ [?c]) \<longleftrightarrow> stf s t = THREAD_BLOCKED \<and> ms_pc ?y t = MLocking"
    "t \<in> set C \<longleftrightarrow> stf s t = THREAD_BLOCKED \<and> ms_pc ?y t = MCWait"
    "ms_pc ?y t = MHolding \<longleftrightarrow> m_locked (ms_m y) \<and> m_owner (ms_m y) = t" if t: "t \<in> T" for t
    using ok [unfolded mutex_ok_def] t x(2) ne f(8,9) pc by (auto simp: s(4))
  then have "mutex_ok T R' Z (W @ [?c]) C ?y"
    using s(1-3) f(4,5,7) ok l unfolding mutex_ok_def by simp
  then show ?thesis by blast
qed

lemma mutex_ok_unlock:
  assumes ok: "mutex_ok T R Z W C y" and pc: "ms_pc y (current (ms_s y)) = MHolding"
    and w: "wake_one (m_waiters (ms_m y), ms_s y) = (q, s)"
  shows "mutex_ok T (R @ take 1 W) Z (tl W) C (y\<lparr>ms_m := (ms_m y)\<lparr>m_locked := False, m_owner := 0, m_waiters := q\<rparr>,
    ms_s := s, ms_pc := (ms_pc y)(current (ms_s y) := MOut)\<rparr>)"
proof -
  note f = mutex_ok_facts [OF ok]
  let ?c = "current (ms_s y)"
  let ?y = "y\<lparr>ms_m := (ms_m y)\<lparr>m_locked := False, m_owner := 0, m_waiters := q\<rparr>,
    ms_s := s, ms_pc := (ms_pc y)(?c := MOut)\<rparr>"
  note s = wake_one_ok [OF f(2,1,4,11) w]
  have c: "waitq_list (ms_c y) s C" by (rule s(5) [OF f(3,6)])
  have hold: "m_locked (ms_m y)" "m_owner (ms_m y) = ?c" using ok f(7) pc unfolding mutex_ok_def by auto
  have dW: "distinct W" using f(2) by (simp add: waitq_list_def is_queue_def)
  have "t \<in> set (tl W) \<longleftrightarrow> stf s t = THREAD_BLOCKED \<and> ms_pc ?y t = MLocking"
    "t \<in> set C \<longleftrightarrow> stf s t = THREAD_BLOCKED \<and> ms_pc ?y t = MCWait" "ms_pc ?y t \<noteq> MHolding" if t: "t \<in> T" for t
  proof -
    have o: "t \<in> set W \<longleftrightarrow> stf (ms_s y) t = THREAD_BLOCKED \<and> ms_pc y t = MLocking"
      "t \<in> set C \<longleftrightarrow> stf (ms_s y) t = THREAD_BLOCKED \<and> ms_pc y t = MCWait"
      "ms_pc y t = MHolding \<longleftrightarrow> ?c = t" using ok t hold unfolding mutex_ok_def by auto
    show "t \<in> set (tl W) \<longleftrightarrow> stf s t = THREAD_BLOCKED \<and> ms_pc ?y t = MLocking"
      using o f(8) dW by (cases W) (auto simp: s(4))
    show "t \<in> set C \<longleftrightarrow> stf s t = THREAD_BLOCKED \<and> ms_pc ?y t = MCWait"
      using o f(6,9) by (cases W) (auto simp: s(4))
    show "ms_pc ?y t \<noteq> MHolding" using o by auto
  qed
  moreover have "\<exists>t \<in> T. ms_pc ?y t \<in> {MLocking, MCWait} \<and> stf s t \<noteq> THREAD_BLOCKED" if "tl W \<noteq> []"
  proof -
    have W: "hd W \<in> set W" using that by (cases W) auto
    then have "hd W \<in> T" "ms_pc y (hd W) = MLocking" "hd W \<noteq> ?c" using f(4,8) ok unfolding mutex_ok_def by auto
    then show ?thesis using that s(4) by (intro bexI [of _ "hd W"]) auto
  qed
  moreover have "set (tl W) \<subseteq> T" using f(4) by (cases W) auto
  ultimately show ?thesis
    using s(1,2) c f(5) by (simp add: mutex_ok_def)
qed

lemma mutex_ok_signal:
  assumes ok: "mutex_ok T R Z W C y" and w: "wake_one (ms_c y, ms_s y) = (q, s)"
  shows "mutex_ok T (R @ take 1 C) Z W (tl C) (y\<lparr>ms_c := q, ms_s := s\<rparr>)"
proof -
  note f = mutex_ok_facts [OF ok]
  note s = wake_one_ok [OF f(3,1,5,12) w]
  have W: "waitq_list (m_waiters (ms_m y)) s W" by (rule s(5) [OF f(2)]) (use f(6) in blast)
  have dC: "distinct C" using f(3) by (simp add: waitq_list_def is_queue_def)
  have "t \<in> set W \<longleftrightarrow> stf s t = THREAD_BLOCKED \<and> ms_pc y t = MLocking"
    "t \<in> set (tl C) \<longleftrightarrow> stf s t = THREAD_BLOCKED \<and> ms_pc y t = MCWait"
    "stf (ms_s y) t \<noteq> THREAD_BLOCKED \<Longrightarrow> stf s t \<noteq> THREAD_BLOCKED" if t: "t \<in> T" for t
  proof -
    have o: "t \<in> set W \<longleftrightarrow> stf (ms_s y) t = THREAD_BLOCKED \<and> ms_pc y t = MLocking"
      "t \<in> set C \<longleftrightarrow> stf (ms_s y) t = THREAD_BLOCKED \<and> ms_pc y t = MCWait" using ok t unfolding mutex_ok_def by auto
    show "t \<in> set W \<longleftrightarrow> stf s t = THREAD_BLOCKED \<and> ms_pc y t = MLocking"
      using o f(6) by (cases C) (auto simp: s(4))
    show "t \<in> set (tl C) \<longleftrightarrow> stf s t = THREAD_BLOCKED \<and> ms_pc y t = MCWait"
      using o dC by (cases C) (auto simp: s(4))
    show "stf (ms_s y) t \<noteq> THREAD_BLOCKED \<Longrightarrow> stf s t \<noteq> THREAD_BLOCKED" by (auto simp: s(4))
  qed
  note n = this
  have "set (tl C) \<subseteq> T" using f(5) by (cases C) auto
  moreover have "\<exists>t \<in> T. ms_pc y t \<in> {MLocking, MCWait} \<and> stf s t \<noteq> THREAD_BLOCKED"
    if "\<not> m_locked (ms_m y) \<and> W \<noteq> []"
    using ok that n(3) unfolding mutex_ok_def by blast
  ultimately show ?thesis
    using s(1,2) W f(4) ok n(1,2) unfolding mutex_ok_def by simp
qed

lemma mutex_ok_broadcast:
  assumes ok: "mutex_ok T R Z W C y" and w: "wake_all (ms_c y, ms_s y) = Some (q, s)"
  shows "mutex_ok T (R @ C) Z W [] (y\<lparr>ms_c := q, ms_s := s\<rparr>)"
proof -
  note f = mutex_ok_facts [OF ok]
  from wake_all_ok [OF f(3,1,5,12)] w have s: "waitq_list q s []" "sched_ok T s (R @ C) Z"
    "stf s = (\<lambda>t. if t \<in> set C then THREAD_READY else stf (ms_s y) t)"
    "\<And>p V. waitq_list p (ms_s y) V \<Longrightarrow> set C \<inter> set V = {} \<Longrightarrow> waitq_list p s V" by auto
  have W: "waitq_list (m_waiters (ms_m y)) s W" by (rule s(4) [OF f(2)]) (use f(6) in blast)
  have n: "t \<in> set W \<longleftrightarrow> stf s t = THREAD_BLOCKED \<and> ms_pc y t = MLocking"
    "\<not> (stf s t = THREAD_BLOCKED \<and> ms_pc y t = MCWait)"
    "stf (ms_s y) t \<noteq> THREAD_BLOCKED \<Longrightarrow> stf s t \<noteq> THREAD_BLOCKED" if t: "t \<in> T" for t
  proof -
    have o: "t \<in> set W \<longleftrightarrow> stf (ms_s y) t = THREAD_BLOCKED \<and> ms_pc y t = MLocking"
      "t \<in> set C \<longleftrightarrow> stf (ms_s y) t = THREAD_BLOCKED \<and> ms_pc y t = MCWait" using ok t unfolding mutex_ok_def by auto
    show "t \<in> set W \<longleftrightarrow> stf s t = THREAD_BLOCKED \<and> ms_pc y t = MLocking" using o f(6) by (auto simp: s(3))
    show "\<not> (stf s t = THREAD_BLOCKED \<and> ms_pc y t = MCWait)" using o by (auto simp: s(3))
    show "stf (ms_s y) t \<noteq> THREAD_BLOCKED \<Longrightarrow> stf s t \<noteq> THREAD_BLOCKED" by (auto simp: s(3))
  qed
  have "\<exists>t \<in> T. ms_pc y t \<in> {MLocking, MCWait} \<and> stf s t \<noteq> THREAD_BLOCKED"
    if "\<not> m_locked (ms_m y) \<and> W \<noteq> []"
    using ok that n(3) unfolding mutex_ok_def by blast
  then show ?thesis using s(1,2) W f(4) ok n(1,2) unfolding mutex_ok_def by simp
qed

lemma mutex_ok_wait:
  assumes ok: "mutex_ok T R Z W C y" and pc: "ms_pc y (current (ms_s y)) = MHolding"
    and w: "cond_wait (ms_c y, ms_m y, ms_s y) = Some (c, m, s)"
  shows "\<exists>R' W' C'. mutex_ok T R' Z W' C'
    (y\<lparr>ms_c := c, ms_m := m, ms_s := s, ms_pc := (ms_pc y)(current (ms_s y) := MCWait)\<rparr>)"
proof -
  note f = mutex_ok_facts [OF ok]
  let ?c = "current (ms_s y)"
  have c0: "?c \<noteq> 0" using f(1) unfolding sched_ok_def by metis
  obtain s1 where p: "waitq_push ?c (ms_c y, ms_s y) = (c, s1)" using w by (auto simp: cond_wait_def split: prod.splits option.splits)
  note pu = waitq_push_ok [OF f(3,9) c0 p]
  have W1: "waitq_list (m_waiters (ms_m y)) s1 W" by (rule pu(5) [OF f(2,8)]) (use f(6) in blast)
  obtain q s2 where wk: "wake_one (m_waiters (ms_m y), s1) = (q, s2)" by fastforce
  have ok1: "sched_ok T s1 R Z" "\<forall>v \<in> set W. stf s1 v = THREAD_BLOCKED" using pu(2,4) f(1,11) by auto
  note wo = wake_one_ok [OF W1 ok1(1) f(4) ok1(2) wk]
  have C2: "waitq_list c s2 (C @ [?c])" by (rule wo(5) [OF pu(1)]) (use f(6,8) in auto)
  have hold: "m_locked (ms_m y)" "m_owner (ms_m y) = ?c" using ok f(7) pc unfolding mutex_ok_def by auto
  have m: "m = (ms_m y)\<lparr>m_locked := False, m_owner := 0, m_waiters := q\<rparr>" and b: "sched_block s2 = Some s"
    using w p wk hold pu(3) by (auto simp: cond_wait_def mutex_unlock_irqoff_def Let_def split: option.splits)
  obtain x R2 where R: "R @ take 1 W = x # R2"
    using b block_panic [of T s2 Z] wo(2) by (cases "R @ take 1 W") auto
  from block_ok [OF wo(2) [unfolded R]] b have s: "sched_ok T s R2 Z" "wnf s = wnf s2"
    "stf s = (stf s2)(?c := THREAD_BLOCKED, x := THREAD_RUNNING)" using wo(3) pu(3) by auto
  have x: "x \<in> T" "stf s2 x = THREAD_READY" using wo(2) [unfolded R] by (auto simp: sched_ok_def)
  have cs: "stf s2 ?c = THREAD_RUNNING" using wo(2,3) pu(3) f(7) by (simp add: sched_ok_def)
  have ne: "x \<noteq> ?c" using x(2) cs by auto
  have dW: "distinct W" using f(2) by (simp add: waitq_list_def is_queue_def)
  let ?y = "y\<lparr>ms_c := c, ms_m := m, ms_s := s, ms_pc := (ms_pc y)(?c := MCWait)\<rparr>"
  have st2: "stf s2 = (if W = [] then stf (ms_s y) else (stf (ms_s y))(hd W := THREAD_READY))" using wo(4) pu(2) by simp
  have n: "t \<in> set (tl W) \<longleftrightarrow> stf s t = THREAD_BLOCKED \<and> ms_pc ?y t = MLocking"
    "t \<in> set (C @ [?c]) \<longleftrightarrow> stf s t = THREAD_BLOCKED \<and> ms_pc ?y t = MCWait" "ms_pc ?y t \<noteq> MHolding" if t: "t \<in> T" for t
  proof -
    have o: "t \<in> set W \<longleftrightarrow> stf (ms_s y) t = THREAD_BLOCKED \<and> ms_pc y t = MLocking"
      "t \<in> set C \<longleftrightarrow> stf (ms_s y) t = THREAD_BLOCKED \<and> ms_pc y t = MCWait"
      "ms_pc y t = MHolding \<longleftrightarrow> ?c = t" using ok t hold unfolding mutex_ok_def by auto
    have b2: "t \<noteq> ?c \<Longrightarrow> stf s t = THREAD_BLOCKED \<longleftrightarrow> stf (ms_s y) t = THREAD_BLOCKED \<and> (W = [] \<or> t \<noteq> hd W)"
      using x(2) unfolding s(3) st2 by (auto split: if_splits)
    show "t \<in> set (tl W) \<longleftrightarrow> stf s t = THREAD_BLOCKED \<and> ms_pc ?y t = MLocking"
      using o(1) f(8) dW b2 by (cases W; cases "t = ?c") auto
    show "t \<in> set (C @ [?c]) \<longleftrightarrow> stf s t = THREAD_BLOCKED \<and> ms_pc ?y t = MCWait"
    proof (cases "t = ?c")
      case True
      then show ?thesis using ne by (simp add: s(3))
    next
      case False
      then show ?thesis using o(2) b2 f(6) by (cases W) auto
    qed
    show "ms_pc ?y t \<noteq> MHolding" using o(3) by auto
  qed
  have "\<exists>t \<in> T. ms_pc ?y t \<in> {MLocking, MCWait} \<and> stf s t \<noteq> THREAD_BLOCKED" if "tl W \<noteq> []"
  proof -
    have W: "hd W \<in> set W" "W \<noteq> []" using that by (cases W; auto)+
    have "hd W \<in> T" using W(1) f(4) by blast
    moreover from this have "ms_pc y (hd W) = MLocking" using ok W(1) unfolding mutex_ok_def by blast
    moreover have "hd W \<noteq> ?c" using W(1) f(8) by metis
    ultimately show ?thesis using W(2) by (intro bexI [of _ "hd W"]) (auto simp: s(3) st2)
  qed
  moreover have "set (tl W) \<subseteq> T" using f(4) by (cases W) auto
  ultimately have "mutex_ok T R2 Z (tl W) (C @ [?c]) ?y"
    using s(1) wo(1) C2 f(5,7) n m by (simp add: mutex_ok_def waitq_list_wnf [OF s(2)])
  then show ?thesis by blast
qed

lemma mutex_step_ok:
  assumes "mutex_step T y y'" "mutex_ok T R Z W C y"
  shows "\<exists>R' W' C'. mutex_ok T R' Z W' C' y'"
  using assms(1)
proof cases
  case (lock got m s)
  show ?thesis
  proof (cases "m_locked (ms_m y)")
    case True
    then obtain q where "wait_on (m_waiters (ms_m y), ms_s y) = Some (q, s)" "\<not> got" "m = (ms_m y)\<lparr>m_waiters := q\<rparr>"
      using lock by (auto simp: mutex_lock_def mutex_lock_irqoff_def split: option.splits)
    then show ?thesis using mutex_ok_park [OF assms(2) True lock(2)] lock(1) by auto
  next
    case False
    then have "y' = y\<lparr>ms_m := (ms_m y)\<lparr>m_locked := True, m_owner := current (ms_s y)\<rparr>,
      ms_pc := (ms_pc y)(current (ms_s y) := MHolding)\<rparr>" using lock unfolding mutex_lock_def mutex_lock_irqoff_def by auto
    then show ?thesis using mutex_ok_acquire [OF assms(2) False] by blast
  qed
next
  case (trylock got m s)
  show ?thesis
  proof (cases "m_locked (ms_m y)")
    case True
    then have "y' = y" using trylock by (simp add: mutex_trylock_def fun_upd_idem)
    then show ?thesis using assms(2) by blast
  next
    case False
    then have "y' = y\<lparr>ms_m := (ms_m y)\<lparr>m_locked := True, m_owner := current (ms_s y)\<rparr>,
      ms_pc := (ms_pc y)(current (ms_s y) := MHolding)\<rparr>" using trylock unfolding mutex_trylock_def by auto
    then show ?thesis using mutex_ok_acquire [OF assms(2) False] by blast
  qed
next
  case (unlock m s)
  obtain q s1 where w: "wake_one (m_waiters (ms_m y), ms_s y) = (q, s1)" by fastforce
  have "m = (ms_m y)\<lparr>m_locked := False, m_owner := 0, m_waiters := q\<rparr>" "s = s1"
    using unlock(3) w by (auto simp: mutex_unlock_def mutex_unlock_irqoff_def Let_def split: if_splits)
  then show ?thesis using mutex_ok_unlock [OF assms(2) unlock(2) w] unlock(1) by auto
next
  case (wait c m s)
  then show ?thesis using mutex_ok_wait [OF assms(2) wait(2,3)] by blast
next
  case (signal c s)
  then show ?thesis using mutex_ok_signal [OF assms(2)] unfolding cond_signal_def by blast
next
  case (broadcast c s)
  then show ?thesis using mutex_ok_broadcast [OF assms(2)] unfolding cond_broadcast_def by blast
next
  case (other s)
  then show ?thesis using mutex_ok_other [OF assms(2)] by blast
next
  case (block s)
  then show ?thesis using mutex_ok_block [OF assms(2)] by blast
next
  case (unblock t)
  then show ?thesis using mutex_ok_unblock [OF assms(2)] by blast
qed

section \<open>A semaphore under interleaving\<close>











section \<open>Properties\<close>

text \<open>C8: mutual exclusion without lost wake-ups.  Whatever the threads of a set \<open>T\<close> do
  with a mutex and a condition variable (lock, try-lock, unlock, wait, signal, broadcast) and
  however they are scheduled, preempted, blocked or unblocked in between: at most one thread
  holds the mutex and it is the recorded owner; the holder can always unlock without a
  panic; and if the mutex is free while threads are parked on it, some thread has been
  woken and is about to try again.\<close>

theorem mutex_exclusion:
  assumes "(mutex_step T)\<^sup>*\<^sup>* \<lparr>ms_m = mutex_init, ms_c = waitq_init, ms_s = s0, ms_pc = (\<lambda>_. MOut)\<rparr> y"
    and "sched_ok T s0 R0 Z0"
  shows "(\<forall>t \<in> T. ms_pc y t = MHolding \<longleftrightarrow> m_locked (ms_m y) \<and> m_owner (ms_m y) = t) \<and>
    (ms_pc y (current (ms_s y)) = MHolding \<longrightarrow> mutex_unlock (ms_m y, ms_s y) \<noteq> None) \<and>
    (\<not> m_locked (ms_m y) \<and> \<not> waitq_empty (m_waiters (ms_m y)) \<longrightarrow>
       (\<exists>t \<in> T. ms_pc y t \<in> {MLocking, MCWait} \<and> stf (ms_s y) t \<noteq> THREAD_BLOCKED))"
proof -
  have "mutex_ok T R0 Z0 [] [] \<lparr>ms_m = mutex_init, ms_c = waitq_init, ms_s = s0, ms_pc = (\<lambda>_. MOut)\<rparr>"
    using assms(2) by (simp add: mutex_ok_def mutex_init_def)
  with assms(1) have "\<exists>R W C. mutex_ok T R Z0 W C y"
    by (induction rule: rtranclp_induct) (blast dest: mutex_step_ok)+
  then obtain R W C where ok: "mutex_ok T R Z0 W C y" by blast
  note f = mutex_ok_facts [OF ok]
  have e: "waitq_empty (m_waiters (ms_m y)) \<longleftrightarrow> W = []" by (rule waitq_list_empty [OF f(2)])
  have "mutex_unlock (ms_m y, ms_s y) \<noteq> None" if "ms_pc y (current (ms_s y)) = MHolding"
    using ok that f(7) by (auto simp: mutex_ok_def mutex_unlock_def mutex_unlock_irqoff_def Let_def split: prod.splits)
  then show ?thesis using ok unfolding mutex_ok_def e by blast
qed

lemma mutex_exclusion_witness:
  "let y = \<lparr>ms_m = \<lparr>m_locked = True, m_owner = 1, m_waiters = waitq_init\<rparr>, ms_c = waitq_init,
            ms_s = sched_init 1 0 0 wit_sched, ms_pc = (\<lambda>_. MOut)(1 := MHolding)\<rparr>
   in (mutex_step {1})\<^sup>*\<^sup>* \<lparr>ms_m = mutex_init, ms_c = waitq_init, ms_s = sched_init 1 0 0 wit_sched, ms_pc = (\<lambda>_. MOut)\<rparr> y \<and>
      mutex_unlock (ms_m y, ms_s y) \<noteq> None"
proof -
  let ?s = "sched_init 1 0 0 wit_sched"
  let ?u = "\<lparr>ms_m = mutex_init, ms_c = waitq_init, ms_s = ?s, ms_pc = (\<lambda>_. MOut)\<rparr>"
  let ?y = "\<lparr>ms_m = \<lparr>m_locked = True, m_owner = 1, m_waiters = waitq_init\<rparr>, ms_c = waitq_init,
            ms_s = ?s, ms_pc = (\<lambda>_. MOut)(1 := MHolding)\<rparr>"
  have c: "current ?s = 1" by (simp add: sched_init_def)
  have "mutex_step {1} ?u (?u\<lparr>ms_m := \<lparr>m_locked = True, m_owner = 1, m_waiters = waitq_init\<rparr>, ms_s := ?s,
      ms_pc := (ms_pc ?u)(current (ms_s ?u) := if True then MHolding else MLocking)\<rparr>)"
    by (rule lock [where y = ?u]) (simp_all add: mutex_lock_def mutex_lock_irqoff_def mutex_init_def c del: One_nat_def)
  then have st: "(mutex_step {1})\<^sup>*\<^sup>* ?u ?y" by (simp add: c r_into_rtranclp del: One_nat_def)
  from mutex_exclusion [OF st wit_sched_ok1] have "mutex_unlock (ms_m ?y, ms_s ?y) \<noteq> None"
    using c by (simp del: One_nat_def)
  with st show ?thesis unfolding Let_def by blast
qed



end
