(* ===== verification/Channel.thy ===== *)
theory Channel
  imports Sched
begin

text \<open>
  In-kernel message channels, \<^verbatim>\<open>kernel/core/channel.c\<close>: a ring of fixed-size messages
  with one optional capability per slot, and two wait queues.  The ring is kept as the
  code has it (a byte buffer, a parallel array of capability slots, head, tail and count)
  and is related to a queue of messages.  A call that can block is modelled one pass of
  its loop at a time, as in the theory of the blocking primitives: \<open>None\<close> inside the
  result means that the calling thread was parked and will repeat the pass.
\<close>

record chan_cap =
  cc_kind :: u32
  cc_rights :: u32
  cc_object :: nat
  cc_in_use :: bool
  cc_owns :: bool

record channel =
  ch_buffer :: "byte list"
  ch_caps :: "chan_cap list"
  ch_capacity :: nat
  ch_msg_size :: nat
  ch_count :: nat
  ch_head :: nat
  ch_tail :: nat
  ch_senders :: waitq
  ch_receivers :: waitq

definition no_cap :: chan_cap where
  "no_cap = \<lparr>cc_kind = 0, cc_rights = 0, cc_object = 0, cc_in_use = False, cc_owns = False\<rparr>"

text \<open>\<open>copy_bytes(dst + off, src, n)\<close>\<close>

definition copy_bytes :: "nat \<Rightarrow> byte list \<Rightarrow> nat \<Rightarrow> byte list \<Rightarrow> byte list" where
  "copy_bytes off src n dst = fold (\<lambda>i dst. dst[off + i := src ! i]) [0..<n] dst"

text \<open>The object that \<open>channel_create\<close> fills in once its allocations have succeeded.\<close>

definition channel_fill :: "nat \<Rightarrow> nat \<Rightarrow> channel" where
  "channel_fill capacity msg_size =
     \<lparr>ch_buffer = replicate (wrap64 (capacity * msg_size)) 0, ch_caps = replicate capacity no_cap,
      ch_capacity = capacity, ch_msg_size = msg_size, ch_count = 0, ch_head = 0, ch_tail = 0,
      ch_senders = waitq_init, ch_receivers = waitq_init\<rparr>"

definition channel_count :: "channel \<Rightarrow> nat" where "channel_count c = ch_count c"
definition channel_capacity :: "channel \<Rightarrow> nat" where "channel_capacity c = ch_capacity c"

text \<open>The bytes at \<open>buffer + i * msg_size\<close>.\<close>

definition slot_bytes :: "channel \<Rightarrow> nat \<Rightarrow> byte list" where
  "slot_bytes c i = take (ch_msg_size c) (drop (i * ch_msg_size c) (ch_buffer c))"

definition peek_copy :: "channel \<Rightarrow> nat \<Rightarrow> byte list" where
  "peek_copy c i = copy_bytes 0 (slot_bytes c i) (ch_msg_size c) (replicate (ch_msg_size c) 0)"

definition enqueue :: "byte list \<Rightarrow> u32 \<Rightarrow> u32 \<Rightarrow> nat \<Rightarrow> bool \<Rightarrow> bool \<Rightarrow> channel \<times> sched \<Rightarrow> channel \<times> sched" where
  "enqueue msg cap_kind cap_rights cap_obj has_cap cap_owns = (\<lambda>(c, s).
     let c = c\<lparr>ch_buffer := copy_bytes (ch_tail c * ch_msg_size c) msg (ch_msg_size c) (ch_buffer c)\<rparr>;
         cs = (if has_cap
               then \<lparr>cc_kind = cap_kind, cc_rights = cap_rights, cc_object = cap_obj, cc_in_use = True, cc_owns = cap_owns\<rparr>
               else no_cap);
         c = c\<lparr>ch_caps := (ch_caps c)[ch_tail c := cs]\<rparr>;
         c = c\<lparr>ch_tail := (ch_tail c + 1) mod ch_capacity c, ch_count := ch_count c + 1\<rparr>;
         (q, s) = wake_one (ch_receivers c, s)
     in (c\<lparr>ch_receivers := q\<rparr>, s))"

text \<open>Peeking yields the index of the head slot and its capability.\<close>

definition channel_peek_try :: "channel \<Rightarrow> (nat \<times> chan_cap) option" where
  "channel_peek_try c = (if ch_count c = 0 then None else Some (ch_head c, ch_caps c ! ch_head c))"

definition channel_peek_blocking :: "channel \<times> sched \<Rightarrow> ((nat \<times> chan_cap) option \<times> channel \<times> sched) option" where
  "channel_peek_blocking = (\<lambda>(c, s).
     if ch_count c = 0
     then (case wait_on (ch_receivers c, s) of None \<Rightarrow> None
           | Some (q, s') \<Rightarrow> Some (None, c\<lparr>ch_receivers := q\<rparr>, s'))
     else Some (Some (ch_head c, ch_caps c ! ch_head c), c, s))"

definition channel_commit :: "channel \<times> sched \<Rightarrow> channel \<times> sched" where
  "channel_commit = (\<lambda>(c, s).
     let c = c\<lparr>ch_caps := (ch_caps c)[ch_head c := no_cap]\<rparr>;
         c = c\<lparr>ch_head := (ch_head c + 1) mod ch_capacity c, ch_count := ch_count c - 1\<rparr>;
         (q, s) = wake_one (ch_senders c, s)
     in (c\<lparr>ch_senders := q\<rparr>, s))"

section \<open>Sending and receiving\<close>

definition channel_try_send :: "byte list \<Rightarrow> channel \<times> sched \<Rightarrow> bool \<times> channel \<times> sched" where
  "channel_try_send msg = (\<lambda>(c, s).
     if ch_count c = ch_capacity c then (False, c, s)
     else (True, enqueue msg 0 0 0 False False (c, s)))"

definition channel_send_cap ::
  "byte list \<Rightarrow> u32 \<Rightarrow> u32 \<Rightarrow> nat \<Rightarrow> bool \<Rightarrow> bool \<Rightarrow> channel \<times> sched \<Rightarrow> (bool \<times> channel \<times> sched) option" where
  "channel_send_cap msg cap_kind cap_rights cap_obj has_cap cap_owns = (\<lambda>(c, s).
     if ch_count c = ch_capacity c
     then (case wait_on (ch_senders c, s) of None \<Rightarrow> None
           | Some (q, s') \<Rightarrow> Some (False, c\<lparr>ch_senders := q\<rparr>, s'))
     else Some (True, enqueue msg cap_kind cap_rights cap_obj has_cap cap_owns (c, s)))"

definition channel_send :: "byte list \<Rightarrow> channel \<times> sched \<Rightarrow> (bool \<times> channel \<times> sched) option" where
  "channel_send msg = (\<lambda>(c, s).
     if ch_count c = ch_capacity c
     then (case wait_on (ch_senders c, s) of None \<Rightarrow> None
           | Some (q, s') \<Rightarrow> Some (False, c\<lparr>ch_senders := q\<rparr>, s'))
     else Some (True, enqueue msg 0 0 0 False False (c, s)))"

definition channel_try_recv :: "channel \<times> sched \<Rightarrow> byte list option \<times> channel \<times> sched" where
  "channel_try_recv = (\<lambda>(c, s).
     case channel_peek_try c of None \<Rightarrow> (None, c, s)
     | Some (i, cs) \<Rightarrow>
         if cc_in_use cs then (None, c, s)
         else (Some (peek_copy c i), channel_commit (c, s)))"

text \<open>The outcome of one pass of a blocking receive.\<close>

datatype 'a pass = Parked | Refused | Received 'a

definition channel_recv :: "channel \<times> sched \<Rightarrow> (byte list pass \<times> channel \<times> sched) option" where
  "channel_recv cs0 =
     (case channel_peek_blocking cs0 of None \<Rightarrow> None
      | Some (None, c, s) \<Rightarrow> Some (Parked, c, s)
      | Some (Some (i, cs), c, s) \<Rightarrow>
          if cc_in_use cs then Some (Refused, c, s)
          else Some (Received (peek_copy c i), channel_commit (c, s)))"

text \<open>The out-parameters of a receive with capability: kind, rights, object and ownership,
  when the consumed message carried one.\<close>

type_synonym cap_result = "(u32 \<times> u32 \<times> nat \<times> bool) option"

definition cap_out :: "chan_cap \<Rightarrow> cap_result" where
  "cap_out cs = (if cc_in_use cs then Some (cc_kind cs, cc_rights cs, cc_object cs, cc_owns cs) else None)"

definition channel_try_recv_cap :: "channel \<times> sched \<Rightarrow> (byte list \<times> cap_result) option \<times> channel \<times> sched" where
  "channel_try_recv_cap = (\<lambda>(c, s).
     case channel_peek_try c of None \<Rightarrow> (None, c, s)
     | Some (i, cs) \<Rightarrow> (Some (peek_copy c i, cap_out cs), channel_commit (c, s)))"

definition channel_recv_cap :: "channel \<times> sched \<Rightarrow> ((byte list \<times> cap_result) pass \<times> channel \<times> sched) option" where
  "channel_recv_cap cs0 =
     (case channel_peek_blocking cs0 of None \<Rightarrow> None
      | Some (None, c, s) \<Rightarrow> Some (Parked, c, s)
      | Some (Some (i, cs), c, s) \<Rightarrow> Some (Received (peek_copy c i, cap_out cs), channel_commit (c, s)))"

section \<open>The ring as a queue\<close>

type_synonym message = "byte list \<times> cap_result"

definition chan_inv :: "channel \<Rightarrow> bool" where
  "chan_inv c \<longleftrightarrow> 0 < ch_capacity c \<and> 0 < ch_msg_size c \<and>
     length (ch_buffer c) = ch_capacity c * ch_msg_size c \<and> length (ch_caps c) = ch_capacity c \<and>
     ch_count c \<le> ch_capacity c \<and> ch_head c < ch_capacity c \<and>
     ch_tail c = (ch_head c + ch_count c) mod ch_capacity c"

definition chan_slot :: "channel \<Rightarrow> nat \<Rightarrow> message" where
  "chan_slot c i = (slot_bytes c i, cap_out (ch_caps c ! i))"

definition chan_abs :: "channel \<Rightarrow> message list" where
  "chan_abs c = map (\<lambda>i. chan_slot c ((ch_head c + i) mod ch_capacity c)) [0..<ch_count c]"

lemma length_chan_abs [simp]: "length (chan_abs c) = ch_count c"
  by (simp add: chan_abs_def)

lemma copy_bytes_eq:
  assumes "off + n \<le> length dst"
  shows "copy_bytes off src n dst = take off dst @ map (\<lambda>i. src ! i) [0..<n] @ drop (off + n) dst"
  using assms unfolding copy_bytes_def
proof (induction n)
  case (Suc n)
  have "drop (off + n) dst = dst ! (off + n) # drop (Suc (off + n)) dst"
    using Suc.prems by (simp add: Cons_nth_drop_Suc)
  then show ?case using Suc by (simp add: list_update_append)
qed simp

lemma copy_bytes_length [simp]: "length (copy_bytes off src n dst) = length dst"
  unfolding copy_bytes_def by (induction n) simp_all

lemma map_nth_take: "n \<le> length xs \<Longrightarrow> map (\<lambda>i. xs ! i) [0..<n] = take n xs"
  by (rule nth_equalityI) simp_all

lemma slot_bytes_length:
  assumes "chan_inv c" "i < ch_capacity c"
  shows "length (slot_bytes c i) = ch_msg_size c"
proof -
  have "Suc i * ch_msg_size c \<le> ch_capacity c * ch_msg_size c" using assms(2) by (intro mult_le_mono1) simp
  then show ?thesis using assms(1) by (simp add: slot_bytes_def chan_inv_def)
qed

lemma peek_copy_eq:
  assumes "chan_inv c" "i < ch_capacity c"
  shows "peek_copy c i = slot_bytes c i"
  using slot_bytes_length [OF assms] by (simp add: peek_copy_def copy_bytes_eq map_nth_take)

lemma slot_bytes_write:
  assumes "chan_inv c" "i < ch_capacity c" "j < ch_capacity c" "ch_msg_size c \<le> length msg"
  shows "slot_bytes (c\<lparr>ch_buffer := copy_bytes (i * ch_msg_size c) msg (ch_msg_size c) (ch_buffer c)\<rparr>) j =
    (if j = i then take (ch_msg_size c) msg else slot_bytes c j)"
proof -
  let ?z = "ch_msg_size c"
  let ?b = "copy_bytes (i * ?z) msg ?z (ch_buffer c)"
  have len: "length (ch_buffer c) = ch_capacity c * ?z" using assms(1) by (simp add: chan_inv_def)
  have le: "k * ?z + ?z \<le> ch_capacity c * ?z" if "k < ch_capacity c" for k
    using mult_le_mono1 [of "Suc k" "ch_capacity c" ?z] that by simp
  have nth: "?b ! p = (if p \<in> {i * ?z..<i * ?z + ?z} then msg ! (p - i * ?z) else ch_buffer c ! p)"
    if "p < length (ch_buffer c)" for p
  proof -
    have "?b = take (i * ?z) (ch_buffer c) @ map (\<lambda>k. msg ! k) [0..<?z] @ drop (i * ?z + ?z) (ch_buffer c)"
      by (rule copy_bytes_eq) (use le [OF assms(2)] len in simp)
    moreover have "min (ch_capacity c * ?z) (i * ?z) = i * ?z" using le [OF assms(2)] by simp
    ultimately show ?thesis using that len by (auto simp: nth_append)
  qed
  show ?thesis
  proof (rule nth_equalityI)
    show "length (slot_bytes (c\<lparr>ch_buffer := ?b\<rparr>) j) =
        length (if j = i then take ?z msg else slot_bytes c j)"
      using le [OF assms(3)] len assms(4) by (simp add: slot_bytes_def)
    fix k assume "k < length (slot_bytes (c\<lparr>ch_buffer := ?b\<rparr>) j)"
    then have k: "k < ?z" by (simp add: slot_bytes_def)
    then have p: "j * ?z + k < length (ch_buffer c)" using le [OF assms(3)] len by linarith
    have d: "j * ?z + k \<in> {i * ?z..<i * ?z + ?z} \<longleftrightarrow> j = i"
    proof (cases j i rule: linorder_cases)
      case less
      then have "Suc j * ?z \<le> i * ?z" by (intro mult_le_mono1) simp
      then show ?thesis using less k by auto
    next
      case greater
      then have "Suc i * ?z \<le> j * ?z" by (intro mult_le_mono1) simp
      then show ?thesis using greater k by auto
    qed (use k in auto)
    show "slot_bytes (c\<lparr>ch_buffer := ?b\<rparr>) j ! k = (if j = i then take ?z msg else slot_bytes c j) ! k"
      using nth [OF p] d k p by (auto simp: slot_bytes_def)
  qed
qed

lemma chan_slot_cong:
  "ch_buffer c' = ch_buffer c \<Longrightarrow> ch_msg_size c' = ch_msg_size c \<Longrightarrow> ch_caps c' ! i = ch_caps c ! i \<Longrightarrow>
   chan_slot c' i = chan_slot c i"
  by (simp add: chan_slot_def slot_bytes_def)

lemma mod_slots_distinct:
  assumes "i < n" "j < n" "(h + i) mod n = (h + j) mod (n::nat)"
  shows "i = j"
proof -
  have "a = b" if "a \<le> b" "b < n" "(h + a) mod n = (h + b) mod n" for a b
  proof -
    have "n dvd (h + b) - (h + a)" using that by (subst mod_eq_dvd_iff_nat [symmetric]) simp_all
    then have "n dvd b - a" by simp
    then show ?thesis using that(1,2) by (auto dest: dvd_imp_le)
  qed
  from this [of i j] this [of j i] show ?thesis using assms nat_le_linear by metis
qed

text \<open>The ring operations without the wake-ups.\<close>

definition ring_put :: "byte list \<Rightarrow> chan_cap \<Rightarrow> channel \<Rightarrow> channel" where
  "ring_put msg cs c =
     c\<lparr>ch_buffer := copy_bytes (ch_tail c * ch_msg_size c) msg (ch_msg_size c) (ch_buffer c),
       ch_caps := (ch_caps c)[ch_tail c := cs],
       ch_tail := (ch_tail c + 1) mod ch_capacity c, ch_count := ch_count c + 1\<rparr>"

definition ring_drop :: "channel \<Rightarrow> channel" where
  "ring_drop c = c\<lparr>ch_caps := (ch_caps c)[ch_head c := no_cap],
     ch_head := (ch_head c + 1) mod ch_capacity c, ch_count := ch_count c - 1\<rparr>"

definition cap_in :: "u32 \<Rightarrow> u32 \<Rightarrow> nat \<Rightarrow> bool \<Rightarrow> bool \<Rightarrow> chan_cap" where
  "cap_in k r ob has owns =
     (if has then \<lparr>cc_kind = k, cc_rights = r, cc_object = ob, cc_in_use = True, cc_owns = owns\<rparr> else no_cap)"

lemma enqueue_eq:
  "enqueue msg k r ob has owns (c, s) =
     (let c' = ring_put msg (cap_in k r ob has owns) c; (q, s') = wake_one (ch_receivers c, s)
      in (c'\<lparr>ch_receivers := q\<rparr>, s'))"
  by (simp add: enqueue_def ring_put_def cap_in_def Let_def split: prod.splits)

lemma channel_commit_eq:
  "channel_commit (c, s) = (let (q, s') = wake_one (ch_senders c, s) in ((ring_drop c)\<lparr>ch_senders := q\<rparr>, s'))"
  by (simp add: channel_commit_def ring_drop_def Let_def split: prod.splits)

lemma ring_put_inv: "chan_inv c \<Longrightarrow> ch_count c < ch_capacity c \<Longrightarrow> chan_inv (ring_put msg cs c)"
  by (auto simp: chan_inv_def ring_put_def mod_Suc_eq)

lemma ring_put_abs:
  assumes inv: "chan_inv c" and sp: "ch_count c < ch_capacity c" and m: "ch_msg_size c \<le> length msg"
  shows "chan_abs (ring_put msg cs c) = chan_abs c @ [(take (ch_msg_size c) msg, cap_out cs)]"
proof (rule nth_equalityI)
  show "length (chan_abs (ring_put msg cs c)) = length (chan_abs c @ [(take (ch_msg_size c) msg, cap_out cs)])"
    by (simp add: ring_put_def)
  fix i assume "i < length (chan_abs (ring_put msg cs c))"
  then have i: "i \<le> ch_count c" by (simp add: ring_put_def)
  let ?n = "ch_capacity c"
  let ?j = "(ch_head c + i) mod ?n"
  have n: "?n > 0" "length (ch_caps c) = ?n" "ch_tail c = (ch_head c + ch_count c) mod ?n" using inv by (auto simp: chan_inv_def)
  have j: "?j < ?n" "ch_tail c < ?n" using n by simp_all
  have eq: "?j = ch_tail c \<longleftrightarrow> i = ch_count c"
    unfolding n(3) using mod_slots_distinct [of i ?n "ch_count c" "ch_head c"] i sp by auto
  have cap: "(ch_caps c)[ch_tail c := cs] ! ?j = (if i = ch_count c then cs else ch_caps c ! ?j)"
    using eq n(2) j by (cases "i = ch_count c") (simp_all add: nth_list_update)
  have "chan_abs (ring_put msg cs c) ! i = chan_slot (ring_put msg cs c) ?j"
    using i by (simp add: chan_abs_def ring_put_def del: upt_Suc)
  also have "\<dots> = (if i = ch_count c then (take (ch_msg_size c) msg, cap_out cs) else chan_slot c ?j)"
    using slot_bytes_write [OF inv j(2,1) m] cap eq
    by (simp add: chan_slot_def ring_put_def slot_bytes_def)
  also have "\<dots> = (chan_abs c @ [(take (ch_msg_size c) msg, cap_out cs)]) ! i"
    using i by (auto simp: nth_append chan_abs_def)
  finally show "chan_abs (ring_put msg cs c) ! i = (chan_abs c @ [(take (ch_msg_size c) msg, cap_out cs)]) ! i" .
qed

lemma ring_drop_inv:
  assumes "chan_inv c" "0 < ch_count c"
  shows "chan_inv (ring_drop c)"
proof -
  have "((ch_head c + 1) mod ch_capacity c + (ch_count c - 1)) mod ch_capacity c =
      (ch_head c + 1 + (ch_count c - 1)) mod ch_capacity c" by (rule mod_add_left_eq)
  also have "ch_head c + 1 + (ch_count c - 1) = ch_head c + ch_count c" using assms(2) by simp
  finally show ?thesis using assms(1) by (auto simp: chan_inv_def ring_drop_def)
qed

lemma ring_drop_abs:
  assumes inv: "chan_inv c" and ne: "0 < ch_count c"
  shows "chan_abs (ring_drop c) = tl (chan_abs c)"
proof (rule nth_equalityI)
  show "length (chan_abs (ring_drop c)) = length (tl (chan_abs c))" by (simp add: ring_drop_def)
  fix i assume "i < length (chan_abs (ring_drop c))"
  then have i: "Suc i < ch_count c" by (simp add: ring_drop_def)
  let ?n = "ch_capacity c"
  let ?j = "(ch_head c + Suc i) mod ?n"
  have n: "?n > 0" "ch_head c < ?n" "ch_count c \<le> ?n" using inv by (auto simp: chan_inv_def)
  have ne: "?j \<noteq> ch_head c"
    using mod_slots_distinct [of "Suc i" ?n 0 "ch_head c"] i n by auto
  have "chan_abs (ring_drop c) ! i = chan_slot (ring_drop c) (((ch_head c + 1) mod ?n + i) mod ?n)"
    using i less_diff_conv [of i "ch_count c" 1] by (simp add: chan_abs_def ring_drop_def)
  also have "((ch_head c + 1) mod ?n + i) mod ?n = ?j" by (simp add: mod_add_left_eq)
  also have "chan_slot (ring_drop c) ?j = chan_slot c ?j"
    by (rule chan_slot_cong) (use ne in \<open>simp_all add: ring_drop_def\<close>)
  also have "\<dots> = tl (chan_abs c) ! i" using i by (simp add: nth_tl chan_abs_def)
  finally show "chan_abs (ring_drop c) ! i = tl (chan_abs c) ! i" .
qed

lemma chan_abs_hd:
  assumes "chan_inv c" "0 < ch_count c"
  shows "hd (chan_abs c) = (peek_copy c (ch_head c), cap_out (ch_caps c ! ch_head c))" "chan_abs c \<noteq> []"
proof -
  show ne: "chan_abs c \<noteq> []" using assms(2) by (simp add: chan_abs_def)
  have "hd (chan_abs c) = chan_slot c (ch_head c)"
    using assms ne by (simp add: hd_conv_nth) (simp add: chan_abs_def chan_inv_def)
  then show "hd (chan_abs c) = (peek_copy c (ch_head c), cap_out (ch_caps c ! ch_head c))"
    using peek_copy_eq [OF assms(1), of "ch_head c"] assms(1) by (simp add: chan_slot_def chan_inv_def)
qed

section \<open>A bounded queue as an interface\<close>

text \<open>What the users of a channel rely on, independently of the ring: appending below the
  bound, and removing the oldest message.\<close>

locale bounded_fifo =
  fixes inv :: "'c \<Rightarrow> bool"
    and content :: "'c \<Rightarrow> 'm list"
    and bound :: "'c \<Rightarrow> nat"
    and accepts :: "'c \<Rightarrow> 'm \<Rightarrow> bool"
    and put :: "'m \<Rightarrow> 'c \<Rightarrow> 'c"
    and drop_first :: "'c \<Rightarrow> 'c"
  assumes put_inv: "inv c \<Longrightarrow> accepts c m \<Longrightarrow> length (content c) < bound c \<Longrightarrow> inv (put m c)"
    and put_content: "inv c \<Longrightarrow> accepts c m \<Longrightarrow> length (content c) < bound c \<Longrightarrow> content (put m c) = content c @ [m]"
    and put_accepts: "inv c \<Longrightarrow> accepts c m \<Longrightarrow> accepts (put m c) n = accepts c n"
    and put_bound: "bound (put m c) = bound c"
    and drop_inv: "inv c \<Longrightarrow> content c \<noteq> [] \<Longrightarrow> inv (drop_first c)"
    and drop_content: "inv c \<Longrightarrow> content c \<noteq> [] \<Longrightarrow> content (drop_first c) = tl (content c)"
begin

lemma put_many:
  assumes "inv c" "\<forall>m \<in> set ms. accepts c m" "length (content c) + length ms \<le> bound c"
  shows "inv (fold put ms c) \<and> content (fold put ms c) = content c @ ms"
  using assms
proof (induction ms arbitrary: c)
  case (Cons m ms)
  have a: "accepts c m" "length (content c) < bound c" using Cons.prems by auto
  have "inv (put m c)" "content (put m c) = content c @ [m]" "bound (put m c) = bound c"
    using put_inv [OF Cons.prems(1) a] put_content [OF Cons.prems(1) a] put_bound by auto
  then show ?case using Cons.IH [of "put m c"] Cons.prems(2,3) put_accepts [OF Cons.prems(1) a(1)] by simp
qed simp

lemma drop_many:
  assumes "inv c" "n \<le> length (content c)"
  shows "inv ((drop_first ^^ n) c) \<and> content ((drop_first ^^ n) c) = drop n (content c)"
  using assms
proof (induction n)
  case (Suc n)
  then have ih: "inv ((drop_first ^^ n) c)" "content ((drop_first ^^ n) c) = drop n (content c)" by auto
  moreover have "content ((drop_first ^^ n) c) \<noteq> []" using ih(2) Suc.prems(2) by simp
  ultimately show ?case
    using drop_inv [of "(drop_first ^^ n) c"] drop_content [of "(drop_first ^^ n) c"] by (simp add: drop_Suc tl_drop)
qed simp

text \<open>What is put in comes out in the same order.\<close>

lemma fifo_order:
  assumes "inv c" "content c = []" "\<forall>m \<in> set ms. accepts c m" "length ms \<le> bound c" "k < length ms"
  shows "hd (content ((drop_first ^^ k) (fold put ms c))) = ms ! k"
  using put_many [OF assms(1,3)] assms(2,4,5) drop_many [of "fold put ms c" k] by (simp add: hd_drop_conv_nth)

end

definition put_message :: "message \<Rightarrow> channel \<Rightarrow> channel" where
  "put_message m c = ring_put (fst m)
     (case snd m of None \<Rightarrow> no_cap | Some (k, r, ob, owns) \<Rightarrow> cap_in k r ob True owns) c"

lemma cap_out_in [simp]: "cap_out (cap_in k r ob has owns) = (if has then Some (k, r, ob, owns) else None)"
  "cap_out no_cap = None"
  by (simp_all add: cap_out_def cap_in_def no_cap_def)

interpretation ring: bounded_fifo chan_inv chan_abs ch_capacity "\<lambda>c m. length (fst m) = ch_msg_size c"
  put_message ring_drop
proof
  fix c and m n :: message
  assume inv: "chan_inv c"
  show "chan_inv (put_message m c)" if "length (fst m) = ch_msg_size c" "length (chan_abs c) < ch_capacity c"
    unfolding put_message_def using that(2) by (intro ring_put_inv [OF inv]) simp
  show "chan_abs (put_message m c) = chan_abs c @ [m]"
    if "length (fst m) = ch_msg_size c" "length (chan_abs c) < ch_capacity c"
    using ring_put_abs [OF inv, of "fst m"] that
    by (cases m) (auto simp: put_message_def split: option.splits)
  show "(length (fst n) = ch_msg_size (put_message m c)) = (length (fst n) = ch_msg_size c)"
    by (simp add: put_message_def ring_put_def)
  show "chan_inv (ring_drop c)" "chan_abs (ring_drop c) = tl (chan_abs c)" if "chan_abs c \<noteq> []"
    using that length_chan_abs [of c] ring_drop_inv [OF inv] ring_drop_abs [OF inv]
    by (metis length_greater_0_conv)+
qed (simp add: put_message_def ring_put_def)

section \<open>A channel under interleaving\<close>

datatype cpc = COut | CSending | CReceiving

text \<open>The channel, the scheduler, what each thread is doing, and the ghost logs of the messages
  accepted by and delivered from the channel.\<close>

record csys =
  cs_c :: channel
  cs_s :: sched
  cs_pc :: "nat \<Rightarrow> cpc"
  cs_sent :: "message list"
  cs_rcvd :: "message list"

fun pass_pc :: "'a pass \<Rightarrow> cpc" where
  "pass_pc Parked = CReceiving"
| "pass_pc Refused = COut"
| "pass_pc (Received _) = COut"

fun pass_log :: "message pass \<Rightarrow> message list" where
  "pass_log (Received m) = [m]"
| "pass_log _ = []"

inductive chan_step :: "nat set \<Rightarrow> csys \<Rightarrow> csys \<Rightarrow> bool" for T where
  send: "cs_pc y (current (cs_s y)) \<noteq> CReceiving \<Longrightarrow> ch_msg_size (cs_c y) \<le> length msg \<Longrightarrow>
    channel_send_cap msg k r ob has owns (cs_c y, cs_s y) = Some (sent, c, s) \<Longrightarrow>
    chan_step T y (y\<lparr>cs_c := c, cs_s := s, cs_pc := (cs_pc y)(current (cs_s y) := if sent then COut else CSending),
      cs_sent := cs_sent y @ (if sent then [(take (ch_msg_size (cs_c y)) msg, if has then Some (k, r, ob, owns) else None)] else [])\<rparr>)"
| try_send: "cs_pc y (current (cs_s y)) = COut \<Longrightarrow> ch_msg_size (cs_c y) \<le> length msg \<Longrightarrow>
    channel_try_send msg (cs_c y, cs_s y) = (sent, c, s) \<Longrightarrow>
    chan_step T y (y\<lparr>cs_c := c, cs_s := s,
      cs_sent := cs_sent y @ (if sent then [(take (ch_msg_size (cs_c y)) msg, None)] else [])\<rparr>)"
| recv_cap: "cs_pc y (current (cs_s y)) \<noteq> CSending \<Longrightarrow> channel_recv_cap (cs_c y, cs_s y) = Some (out, c, s) \<Longrightarrow>
    chan_step T y (y\<lparr>cs_c := c, cs_s := s, cs_pc := (cs_pc y)(current (cs_s y) := pass_pc out),
      cs_rcvd := cs_rcvd y @ pass_log out\<rparr>)"
| recv: "cs_pc y (current (cs_s y)) \<noteq> CSending \<Longrightarrow> channel_recv (cs_c y, cs_s y) = Some (out, c, s) \<Longrightarrow>
    chan_step T y (y\<lparr>cs_c := c, cs_s := s, cs_pc := (cs_pc y)(current (cs_s y) := pass_pc out),
      cs_rcvd := cs_rcvd y @ pass_log (map_pass (\<lambda>b. (b, None)) out)\<rparr>)"
| try_recv_cap: "cs_pc y (current (cs_s y)) = COut \<Longrightarrow> channel_try_recv_cap (cs_c y, cs_s y) = (out, c, s) \<Longrightarrow>
    chan_step T y (y\<lparr>cs_c := c, cs_s := s, cs_rcvd := cs_rcvd y @ (case out of None \<Rightarrow> [] | Some m \<Rightarrow> [m])\<rparr>)"
| try_recv: "cs_pc y (current (cs_s y)) = COut \<Longrightarrow> channel_try_recv (cs_c y, cs_s y) = (out', c, s) \<Longrightarrow>
    chan_step T y (y\<lparr>cs_c := c, cs_s := s, cs_rcvd := cs_rcvd y @ (case out' of None \<Rightarrow> [] | Some b \<Rightarrow> [(b, None)])\<rparr>)"
| other: "other_step (cs_s y) s \<Longrightarrow> chan_step T y (y\<lparr>cs_s := s\<rparr>)"
| block: "cs_pc y (current (cs_s y)) = COut \<Longrightarrow> sched_block (cs_s y) = Some s \<Longrightarrow> chan_step T y (y\<lparr>cs_s := s\<rparr>)"
| unblock: "t \<in> T \<Longrightarrow> cs_pc y t = COut \<Longrightarrow> chan_step T y (y\<lparr>cs_s := sched_unblock t (cs_s y)\<rparr>)"











section \<open>Properties\<close>

text \<open>C16: a channel refines a bounded first-in first-out queue of messages with optional
  capabilities.  On a well-formed ring, \<open>channel_try_send\<close> succeeds exactly when the
  queue is not full and then appends the message; \<open>channel_try_recv_cap\<close> returns exactly
  the oldest message with the capability it was sent with, and removes it; and
  \<open>channel_try_recv\<close> does the same but leaves everything untouched when the oldest
  message carries a capability.  The ring stays well formed.\<close>

theorem channel_refines_queue:
  assumes "chan_inv c" "ch_msg_size c \<le> length msg"
  shows "(case channel_try_send msg (c, s) of (ok, c', s') \<Rightarrow>
            ok = (length (chan_abs c) < ch_capacity c) \<and> chan_inv c' \<and>
            chan_abs c' = chan_abs c @ (if ok then [(take (ch_msg_size c) msg, None)] else [])) \<and>
         (case channel_try_recv_cap (c, s) of (out, c', s') \<Rightarrow>
            out = (if chan_abs c = [] then None else Some (hd (chan_abs c))) \<and> chan_inv c' \<and>
            chan_abs c' = tl (chan_abs c)) \<and>
         (case channel_try_recv (c, s) of (out, c', s') \<Rightarrow>
            if chan_abs c = [] \<or> snd (hd (chan_abs c)) \<noteq> None then out = None \<and> c' = c \<and> s' = s
            else out = Some (fst (hd (chan_abs c))) \<and> chan_inv c' \<and> chan_abs c' = tl (chan_abs c))"
proof -
  have frame: "chan_inv (d\<lparr>ch_receivers := q\<rparr>) = chan_inv d" "chan_inv (d\<lparr>ch_senders := q\<rparr>) = chan_inv d"
    "chan_abs (d\<lparr>ch_receivers := q\<rparr>) = chan_abs d" "chan_abs (d\<lparr>ch_senders := q\<rparr>) = chan_abs d" for d q
    by (simp_all add: chan_inv_def chan_abs_def chan_slot_def slot_bytes_def)
  have le: "ch_count c \<le> ch_capacity c" using assms(1) by (simp add: chan_inv_def)
  have sd: "case channel_try_send msg (c, s) of (ok, c', s') \<Rightarrow>
            ok = (length (chan_abs c) < ch_capacity c) \<and> chan_inv c' \<and>
            chan_abs c' = chan_abs c @ (if ok then [(take (ch_msg_size c) msg, None)] else [])"
  proof (cases "ch_count c = ch_capacity c")
    case False
    with le have lt: "ch_count c < ch_capacity c" by simp
    show ?thesis
      using ring_put_inv [OF assms(1) lt] ring_put_abs [OF assms(1) lt assms(2)] False lt
      by (simp add: channel_try_send_def enqueue_eq Let_def frame split: prod.splits)
  qed (use assms in \<open>simp add: channel_try_send_def\<close>)
  have emp: "chan_abs c = [] \<longleftrightarrow> ch_count c = 0" using length_chan_abs [of c] by (metis length_0_conv)
  show ?thesis
  proof (cases "ch_count c = 0")
    case True
    then show ?thesis
      using sd assms(1) emp by (simp add: channel_try_recv_cap_def channel_try_recv_def channel_peek_try_def)
  next
    case False
    then have p: "0 < ch_count c" by simp
    note h = chan_abs_hd [OF assms(1) p]
    have cm: "case channel_commit (c, s) of (c', s') \<Rightarrow> chan_inv c' \<and> chan_abs c' = tl (chan_abs c)"
      using ring_drop_inv [OF assms(1) p] ring_drop_abs [OF assms(1) p]
      by (simp add: channel_commit_eq Let_def frame split: prod.splits)
    show ?thesis
      using sd cm h False
      by (auto simp: channel_try_recv_cap_def channel_try_recv_def channel_peek_try_def cap_out_def)
  qed
qed

lemma channel_refines_queue_witness:
  "chan_inv (channel_fill 2 3) \<and> fst (channel_try_send [1, 2, 3] (channel_fill 2 3, wit_sched)) \<and>
   fst (channel_try_recv_cap (channel_fill 2 3, wit_sched)) = None"
proof -
  have i: "chan_inv (channel_fill 2 3)" "ch_msg_size (channel_fill 2 3) \<le> length [1, 2, 3 :: byte]"
    by (simp_all add: chan_inv_def channel_fill_def)
  moreover have "chan_abs (channel_fill 2 3) = []" "ch_capacity (channel_fill 2 3) = 2"
    by (simp_all add: chan_abs_def channel_fill_def)
  ultimately show ?thesis using channel_refines_queue [OF i, of wit_sched] by (auto split: prod.splits)
qed



text \<open>Three threads: 1 calls \<open>channel_recv\<close>, 2 calls \<open>channel_recv_cap\<close>, both park; 3 sends
  a message with a capability and yields; 1, the one that was woken, refuses it.\<close>

definition lw_sched :: sched where
  "lw_sched =
     (let s = sched_init 1 0 0 wit_sched;
          s = sched_enqueue 2 (s\<lparr>threads := (threads s)(2 := wit_thread)\<rparr>)
      in sched_enqueue 3 (s\<lparr>threads := (threads s)(3 := wit_thread)\<rparr>))"

definition lw_chan :: channel where
  "lw_chan = \<lparr>ch_buffer = [0], ch_caps = [no_cap], ch_capacity = 1, ch_msg_size = 1, ch_count = 0,
     ch_head = 0, ch_tail = 0, ch_senders = waitq_init, ch_receivers = waitq_init\<rparr>"

definition lw_run :: "(channel \<times> sched) option" where
  "lw_run =
     Option.bind (channel_recv (lw_chan, lw_sched)) (\<lambda>(o1, c1, s1).
     Option.bind (channel_recv_cap (c1, s1)) (\<lambda>(o2, c2, s2).
     Option.bind (channel_send_cap [0] 2 15 7 True True (c2, s2)) (\<lambda>(o3, c3, s3).
     Option.bind (sched_yield s3) (\<lambda>s4.
     Option.bind (channel_recv (c3, s4)) (\<lambda>(o5, c5, s5).
       if o1 = Parked \<and> o2 = Parked \<and> o3 \<and> o5 = Refused \<and>
          current s1 = 2 \<and> current s2 = 3 \<and> current s3 = 3 \<and> current s4 = 1 \<and> ch_msg_size c2 = 1
       then Some (c5, s5) else None)))))"

lemmas lw_eval = lw_run_def lw_chan_def lw_sched_def channel_recv_def channel_peek_blocking_def
  channel_recv_cap_def wait_on_def waitq_push_def Let_def sched_block_def sched_switch_def
  ready_dequeue_def sched_enqueue_def th_upd_def sched_init_def wit_sched_def wit_thread_def
  waitq_init_def channel_send_cap_def enqueue_def wake_one_def waitq_pop_def sched_unblock_def
  sched_yield_def copy_bytes_def no_cap_def

lemma lw_run_result:
  "case lw_run of None \<Rightarrow> False
   | Some (c, s) \<Rightarrow> ch_count c = 1 \<and> wq_head (ch_receivers c) = 2 \<and> th_state (threads s 2) = THREAD_BLOCKED"
  by (simp add: lw_eval)

lemma lw_current: "current lw_sched = 1"
  by (simp add: lw_sched_def Let_def) (simp add: sched_init_def)

text \<open>C31: a wake-up can be lost.  There is a run in which a message is waiting in the channel, a
  thread is parked in \<open>channel_recv_cap\<close>, and no other thread is going to receive: the
  thread that was woken for the message had called \<open>channel_recv\<close>, which refuses
  messages with a capability and returns without passing the wake-up on.\<close>

theorem channel_recv_lost_wakeup:
  "\<exists>y. (chan_step {1, 2, 3})\<^sup>*\<^sup>*
        \<lparr>cs_c = lw_chan, cs_s = lw_sched, cs_pc = (\<lambda>_. COut), cs_sent = [], cs_rcvd = []\<rparr> y \<and>
      ch_count (cs_c y) = 1 \<and> wq_head (ch_receivers (cs_c y)) = 2 \<and> stf (cs_s y) 2 = THREAD_BLOCKED \<and>
      cs_pc y 1 = COut \<and> cs_pc y 2 = CReceiving \<and> cs_pc y 3 = COut"
proof -
  obtain c s where run: "lw_run = Some (c, s)" and fin: "ch_count c = 1" "wq_head (ch_receivers c) = 2"
    "stf s 2 = THREAD_BLOCKED"
    using lw_run_result by (auto simp: stf_def split: option.splits)
  from run obtain c1 s1 c2 s2 c3 s3 s4 where
    st: "channel_recv (lw_chan, lw_sched) = Some (Parked, c1, s1)" "channel_recv_cap (c1, s1) = Some (Parked, c2, s2)"
      "channel_send_cap [0] 2 15 7 True True (c2, s2) = Some (True, c3, s3)" "sched_yield s3 = Some s4"
      "channel_recv (c3, s4) = Some (Refused, c, s)"
    and cur: "current s1 = 2" "current s2 = 3" "current s3 = 3" "current s4 = 1" "ch_msg_size c2 = 1"
    unfolding lw_run_def by (auto simp: bind_eq_Some_conv split: if_splits)
  let ?m = "[([0], Some (2, 15, 7, True))] :: message list"
  define a b d e f g where "a = \<lparr>cs_c = lw_chan, cs_s = lw_sched, cs_pc = (\<lambda>_. COut), cs_sent = [], cs_rcvd = []\<rparr>"
    and "b = \<lparr>cs_c = c1, cs_s = s1, cs_pc = (\<lambda>_. COut)(1 := CReceiving), cs_sent = [], cs_rcvd = []\<rparr>"
    and "d = \<lparr>cs_c = c2, cs_s = s2, cs_pc = (\<lambda>_. COut)(1 := CReceiving, 2 := CReceiving), cs_sent = [], cs_rcvd = []\<rparr>"
    and "e = \<lparr>cs_c = c3, cs_s = s3, cs_pc = (\<lambda>_. COut)(1 := CReceiving, 2 := CReceiving, 3 := COut), cs_sent = ?m, cs_rcvd = []\<rparr>"
    and "f = \<lparr>cs_c = c3, cs_s = s4, cs_pc = (\<lambda>_. COut)(1 := CReceiving, 2 := CReceiving, 3 := COut), cs_sent = ?m, cs_rcvd = []\<rparr>"
    and "g = \<lparr>cs_c = c, cs_s = s, cs_pc = (\<lambda>_. COut)(1 := CReceiving, 2 := CReceiving, 3 := COut, 1 := COut), cs_sent = ?m, cs_rcvd = []\<rparr>"
  note defs = this
  have ab: "chan_step {1, 2, 3} a b"
    using chan_step.recv [of a Parked c1 s1 "{1, 2, 3}"] st(1) lw_current by (simp add: defs)
  have bd: "chan_step {1, 2, 3} b d"
    using chan_step.recv_cap [of b Parked c2 s2 "{1, 2, 3}"] st(2) cur(1) by (simp add: defs)
  have de: "chan_step {1, 2, 3} d e"
    using chan_step.send [of d "[0]" 2 15 7 True True True c3 s3 "{1, 2, 3}"] st(3) cur(2,5) by (simp add: defs)
  have ef: "chan_step {1, 2, 3} e f"
    using chan_step.other [of e s4 "{1, 2, 3}"] other_step.intros(1) [OF st(4)] by (simp add: defs)
  have fg: "chan_step {1, 2, 3} f g"
    using chan_step.recv [of f Refused c s "{1, 2, 3}"] st(5) cur(4) by (simp add: defs)
  have "(chan_step {1, 2, 3})\<^sup>*\<^sup>* f g" using fg by (rule r_into_rtranclp [where r = "chan_step {1, 2, 3}"])
  then have "(chan_step {1, 2, 3})\<^sup>*\<^sup>* e g" by (rule converse_rtranclp_into_rtranclp [where r = "chan_step {1, 2, 3}", OF ef])
  then have "(chan_step {1, 2, 3})\<^sup>*\<^sup>* d g" by (rule converse_rtranclp_into_rtranclp [where r = "chan_step {1, 2, 3}", OF de])
  then have "(chan_step {1, 2, 3})\<^sup>*\<^sup>* b g" by (rule converse_rtranclp_into_rtranclp [where r = "chan_step {1, 2, 3}", OF bd])
  then have "(chan_step {1, 2, 3})\<^sup>*\<^sup>* a g" by (rule converse_rtranclp_into_rtranclp [where r = "chan_step {1, 2, 3}", OF ab])
  then show ?thesis using fin by (intro exI [of _ g]) (simp add: defs)
qed

end
