(* ===== verification/Cstring.thy ===== *)
theory Cstring
  imports Prelude "HOL-Library.Monad_Syntax" "HOL-Library.Sublist" "HOL-Library.List_Lexorder"
begin

text \<open>
  The memory and string functions of \<^verbatim>\<open>userspace/libc/string.c\<close>.

  User memory is a map from addresses to bytes and the functions work on addresses, as the
  code works on pointers, so that overlapping buffers and functions that write into the
  string they read are covered.  A loop that runs until it meets a terminator is a
  \<^theory_text>\<open>partial_function (option)\<close>: a string without terminator gives \<open>None\<close>, and every
  property of such a function states that it returns.  The null pointer is the address 0.
  \<open>cstr m p s\<close> says that the bytes of \<open>s\<close>, none of them 0, stand at \<open>p\<close>, followed by a 0.
\<close>

type_synonym mem = "nat \<Rightarrow> byte"

section \<open>Memory\<close>

definition memcpy :: "mem \<Rightarrow> nat \<Rightarrow> nat \<Rightarrow> nat \<Rightarrow> mem" where
  "memcpy m d s n = fold (\<lambda>i m. m(d + i := m (s + i))) [0..<n] m"

text \<open>The descending loop copies the bytes \<open>n - 1, \<dots>, 0\<close>.\<close>

definition memmove :: "mem \<Rightarrow> nat \<Rightarrow> nat \<Rightarrow> nat \<Rightarrow> mem" where
  "memmove m d s n =
    (if d < s then fold (\<lambda>i m. m(d + i := m (s + i))) [0..<n] m
     else if d > s then fold (\<lambda>i m. m(d + i := m (s + i))) (rev [0..<n]) m
     else m)"

definition memset :: "mem \<Rightarrow> nat \<Rightarrow> int \<Rightarrow> nat \<Rightarrow> mem" where
  "memset m d c n = fold (\<lambda>i m. m(d + i := word_of_int c)) [0..<n] m"

definition memcmp :: "mem \<Rightarrow> nat \<Rightarrow> nat \<Rightarrow> nat \<Rightarrow> int" where
  "memcmp m a b n =
    (case find (\<lambda>i. m (a + i) \<noteq> m (b + i)) [0..<n] of
       Some i \<Rightarrow> uint (m (a + i)) - uint (m (b + i))
     | None \<Rightarrow> 0)"

definition memchr :: "mem \<Rightarrow> nat \<Rightarrow> int \<Rightarrow> nat \<Rightarrow> nat" where
  "memchr m s c n =
    (case find (\<lambda>i. m (s + i) = word_of_int c) [0..<n] of Some i \<Rightarrow> s + i | None \<Rightarrow> 0)"

section \<open>Length and comparison\<close>

partial_function (option) strlen_from :: "mem \<Rightarrow> nat \<Rightarrow> nat \<Rightarrow> nat option" where
  "strlen_from m s n = (if m (s + n) \<noteq> 0 then strlen_from m s (n + 1) else Some n)"

definition strlen :: "mem \<Rightarrow> nat \<Rightarrow> nat option" where
  "strlen m s = strlen_from m s 0"

partial_function (option) strcmp :: "mem \<Rightarrow> nat \<Rightarrow> nat \<Rightarrow> int option" where
  "strcmp m a b =
    (if m a \<noteq> 0 \<and> m a = m b then strcmp m (a + 1) (b + 1)
     else Some (uint (m a) - uint (m b)))"

definition strncmp :: "mem \<Rightarrow> nat \<Rightarrow> nat \<Rightarrow> nat \<Rightarrow> int" where
  "strncmp m a b n =
    (case find (\<lambda>i. m (a + i) \<noteq> m (b + i) \<or> m (a + i) = 0) [0..<n] of
       Some i \<Rightarrow> if m (a + i) \<noteq> m (b + i) then uint (m (a + i)) - uint (m (b + i)) else 0
     | None \<Rightarrow> 0)"

section \<open>Copy and concatenation\<close>

partial_function (option) copy_nul :: "mem \<Rightarrow> nat \<Rightarrow> nat \<Rightarrow> mem option" where
  "copy_nul m d s =
    (let c = m s; m' = m(d := c) in
     if c \<noteq> 0 then copy_nul m' (d + 1) (s + 1) else Some m')"

definition strcpy :: "mem \<Rightarrow> nat \<Rightarrow> nat \<Rightarrow> (mem \<times> nat) option" where
  "strcpy m dst src = do { m' \<leftarrow> copy_nul m dst src; Some (m', dst) }"

text \<open>\<open>for (; i < n && src[i]; ++i) dst[i] = src[i]\<close> with \<open>k = n - i\<close> rounds left.\<close>

fun copy_upto :: "nat \<Rightarrow> mem \<Rightarrow> nat \<Rightarrow> nat \<Rightarrow> nat \<Rightarrow> mem \<times> nat" where
  "copy_upto 0 m d s i = (m, i)"
| "copy_upto (Suc k) m d s i =
    (if m (s + i) \<noteq> 0 then copy_upto k (m(d + i := m (s + i))) d s (i + 1) else (m, i))"

definition strncpy :: "mem \<Rightarrow> nat \<Rightarrow> nat \<Rightarrow> nat \<Rightarrow> mem \<times> nat" where
  "strncpy m dst src n =
    (let (m, i) = copy_upto n m dst src 0 in
     (fold (\<lambda>i m. m(dst + i := 0)) [i..<n] m, dst))"

definition strcat :: "mem \<Rightarrow> nat \<Rightarrow> nat \<Rightarrow> (mem \<times> nat) option" where
  "strcat m dst src = do { n \<leftarrow> strlen m dst; m' \<leftarrow> copy_nul m (dst + n) src; Some (m', dst) }"

definition strncat :: "mem \<Rightarrow> nat \<Rightarrow> nat \<Rightarrow> nat \<Rightarrow> (mem \<times> nat) option" where
  "strncat m dst src n = do {
     l \<leftarrow> strlen m dst;
     let (m, i) = copy_upto n m (dst + l) src 0;
     Some (m(dst + l + i := 0), dst) }"

section \<open>Search\<close>

partial_function (option) strchr_loop :: "mem \<Rightarrow> nat \<Rightarrow> byte \<Rightarrow> nat option" where
  "strchr_loop m s ch =
    (if m s = ch then Some s else if m s = 0 then Some 0 else strchr_loop m (s + 1) ch)"

definition strchr :: "mem \<Rightarrow> nat \<Rightarrow> int \<Rightarrow> nat option" where
  "strchr m s c = strchr_loop m s (word_of_int c)"

partial_function (option) strrchr_loop :: "mem \<Rightarrow> nat \<Rightarrow> byte \<Rightarrow> nat \<Rightarrow> nat option" where
  "strrchr_loop m s ch lst =
    (let lst = (if m s = ch then s else lst) in
     if m s = 0 then Some lst else strrchr_loop m (s + 1) ch lst)"

definition strrchr :: "mem \<Rightarrow> nat \<Rightarrow> int \<Rightarrow> nat option" where
  "strrchr m s c = strrchr_loop m s (word_of_int c) 0"

text \<open>The inner loop of \<^verbatim>\<open>strstr\<close>: whether the needle ends where the match does.\<close>

partial_function (option) match_at :: "mem \<Rightarrow> nat \<Rightarrow> nat \<Rightarrow> bool option" where
  "match_at m h n =
    (if m h \<noteq> 0 \<and> m n \<noteq> 0 \<and> m h = m n then match_at m (h + 1) (n + 1) else Some (m n = 0))"

partial_function (option) strstr_loop :: "mem \<Rightarrow> nat \<Rightarrow> nat \<Rightarrow> nat option" where
  "strstr_loop m h needle =
    (if m h \<noteq> 0
     then do { e \<leftarrow> match_at m h needle; if e then Some h else strstr_loop m (h + 1) needle }
     else Some 0)"

definition strstr :: "mem \<Rightarrow> nat \<Rightarrow> nat \<Rightarrow> nat option" where
  "strstr m h needle = (if m needle = 0 then Some h else strstr_loop m h needle)"

text \<open>The loop over a set of characters that \<^verbatim>\<open>strpbrk\<close>, \<^verbatim>\<open>strspn\<close>,
  \<^verbatim>\<open>strcspn\<close> and \<^verbatim>\<open>strtok\<close> share.\<close>

partial_function (option) scan_set :: "mem \<Rightarrow> nat \<Rightarrow> byte \<Rightarrow> bool option" where
  "scan_set m a c =
    (if m a \<noteq> 0 then (if m a = c then Some True else scan_set m (a + 1) c) else Some False)"

partial_function (option) strpbrk :: "mem \<Rightarrow> nat \<Rightarrow> nat \<Rightarrow> nat option" where
  "strpbrk m s acc =
    (if m s \<noteq> 0
     then do { e \<leftarrow> scan_set m acc (m s); if e then Some s else strpbrk m (s + 1) acc }
     else Some 0)"

partial_function (option) span_from :: "mem \<Rightarrow> bool \<Rightarrow> nat \<Rightarrow> nat \<Rightarrow> nat \<Rightarrow> nat option" where
  "span_from m want s cs n =
    (if m (s + n) \<noteq> 0
     then do { e \<leftarrow> scan_set m cs (m (s + n)); if e = want then span_from m want s cs (n + 1) else Some n }
     else Some n)"

definition strspn :: "mem \<Rightarrow> nat \<Rightarrow> nat \<Rightarrow> nat option" where
  "strspn m s acc = span_from m True s acc 0"

definition strcspn :: "mem \<Rightarrow> nat \<Rightarrow> nat \<Rightarrow> nat option" where
  "strcspn m s rej = span_from m False s rej 0"

partial_function (option) skip_delims :: "mem \<Rightarrow> nat \<Rightarrow> nat \<Rightarrow> nat option" where
  "skip_delims m delim save =
    (if m save \<noteq> 0
     then do { e \<leftarrow> scan_set m delim (m save); if e then skip_delims m delim (save + 1) else Some save }
     else Some save)"

text \<open>The second loop of \<^verbatim>\<open>strtok\<close>: memory and \<^verbatim>\<open>save\<close> when the token is complete.\<close>

partial_function (option) token_end :: "mem \<Rightarrow> nat \<Rightarrow> nat \<Rightarrow> (mem \<times> nat) option" where
  "token_end m delim save =
    (if m save \<noteq> 0
     then do { e \<leftarrow> scan_set m delim (m save);
               if e then Some (m(save := 0), save + 1) else token_end m delim (save + 1) }
     else Some (m, 0))"

text \<open>\<open>strtok m save s delim\<close>: the new memory, the new value of the static
  \<^verbatim>\<open>save\<close> and the returned pointer.\<close>

definition strtok :: "mem \<Rightarrow> nat \<Rightarrow> nat \<Rightarrow> nat \<Rightarrow> (mem \<times> nat \<times> nat) option" where
  "strtok m save s delim =
    (let save = (if s \<noteq> 0 then s else save) in
     if save = 0 then Some (m, save, 0)
     else do {
       save \<leftarrow> skip_delims m delim save;
       if m save = 0 then Some (m, 0, 0)
       else do { (m, sv) \<leftarrow> token_end m delim save; Some (m, sv, save) } })"

section \<open>Error texts\<close>

definition strerror_table :: "(int \<times> string) list" where
  "strerror_table =
    [(0, ''Success''), (EPERM, ''Operation not permitted''), (ENOENT, ''No such file or directory''),
     (ESRCH, ''No such process''), (EINTR, ''Interrupted system call''), (EIO, ''Input/output error''),
     (ENXIO, ''No such device or address''), (E2BIG, ''Argument list too long''),
     (ENOEXEC, ''Exec format error''), (EBADF, ''Bad file descriptor''), (ECHILD, ''No child processes''),
     (EAGAIN, ''Resource temporarily unavailable''), (ENOMEM, ''Cannot allocate memory''),
     (EACCES, ''Permission denied''), (EFAULT, ''Bad address''), (EBUSY, ''Device or resource busy''),
     (EEXIST, ''File exists''), (ENODEV, ''No such device''), (ENOTDIR, ''Not a directory''),
     (EISDIR, ''Is a directory''), (EINVAL, ''Invalid argument''), (ENFILE, ''Too many open files in system''),
     (EMFILE, ''Too many open files''), (ENOSPC, ''No space left on device''), (ESPIPE, ''Illegal seek''),
     (EROFS, ''Read-only file system''), (EPIPE, ''Broken pipe''), (ERANGE, ''Numerical result out of range''),
     (ENAMETOOLONG, ''File name too long''), (ENOSYS, ''Function not implemented''),
     (ENOTEMPTY, ''Directory not empty'')]"

text \<open>The digits of \<open>u\<close>, the last one first: \<open>while (u) { digits[dn++] = '0' + u % 10; u /= 10; }\<close>.\<close>

function rev_digits :: "nat \<Rightarrow> string" where
  "rev_digits u = (if u = 0 then [] else char_of (48 + u mod 10) # rev_digits (u div 10))"
  by auto
termination by (relation "measure id") auto

declare rev_digits.simps [simp del]

definition strerror_digits :: "int \<Rightarrow> string" where
  "strerror_digits errnum =
    (let u = (if errnum < 0 then nat (- (errnum + 1)) + 1 else nat errnum) in
     if u = 0 then ''0'' else rev_digits u)"

definition strerror :: "int \<Rightarrow> string" where
  "strerror errnum =
    (case map_of strerror_table errnum of
       Some t \<Rightarrow> t
     | None \<Rightarrow> ''Unknown error '' @ (if errnum < 0 then ''-'' else []) @ rev (strerror_digits errnum))"


section \<open>Lemmas\<close>

primrec cstr :: "mem \<Rightarrow> nat \<Rightarrow> byte list \<Rightarrow> bool" where
  "cstr m p [] = (m p = 0)"
| "cstr m p (c # s) = (c \<noteq> 0 \<and> m p = c \<and> cstr m (Suc p) s)"

lemma cstr_nth: "cstr m p s \<Longrightarrow> i < length s \<Longrightarrow> m (p + i) = s ! i"
  by (induction s arbitrary: p i) (auto simp: nth_Cons simp flip: add_Suc split: nat.splits)

lemma cstr_end: "cstr m p s \<Longrightarrow> m (p + length s) = 0"
  by (induction s arbitrary: p) (auto simp flip: add_Suc)

lemma cstr_nonzero: "cstr m p s \<Longrightarrow> 0 \<notin> set s"
  by (induction s arbitrary: p) auto

lemma cstr_iff:
  "cstr m p s \<longleftrightarrow> (\<forall>i < length s. m (p + i) = s ! i) \<and> m (p + length s) = 0 \<and> 0 \<notin> set s"
proof (induction s arbitrary: p)
  case (Cons c s)
  have "(\<forall>i < length (c # s). m (p + i) = (c # s) ! i) \<longleftrightarrow> m p = c \<and> (\<forall>i < length s. m (Suc p + i) = s ! i)"
    by (simp add: All_less_Suc2)
  then show ?case using Cons [of "Suc p"] by auto
qed simp

lemma cstr_unique: "cstr m p s \<Longrightarrow> cstr m p t \<Longrightarrow> s = t"
  by (induction s arbitrary: p t) (case_tac t; auto)+

lemma cstr_drop: "cstr m p s \<Longrightarrow> i \<le> length s \<Longrightarrow> cstr m (p + i) (drop i s)"
proof (induction i arbitrary: p s)
  case (Suc i)
  then show ?case by (cases s) (auto dest: Suc.IH [of "Suc p"])
qed simp

lemma cstr_cong: "(\<And>i. i \<le> length s \<Longrightarrow> m' (p + i) = m (p + i)) \<Longrightarrow> cstr m' p s = cstr m p s"
  by (auto simp: cstr_iff)

lemma strlen_from_cstr: "cstr m (p + n) s \<Longrightarrow> strlen_from m p n = Some (n + length s)"
  by (induction s arbitrary: n) (subst strlen_from.simps; simp)+

lemma strlen_cstr: "cstr m p s \<Longrightarrow> strlen m p = Some (length s)"
  using strlen_from_cstr [of m p 0 s] by (simp add: strlen_def)

subsection \<open>Block copies\<close>

lemma copy_forward:
  assumes "d \<le> s \<or> s + n \<le> d"
  shows "fold (\<lambda>i m. m(d + i := m (s + i))) [0..<n] m = (\<lambda>x. if d \<le> x \<and> x < d + n then m (s + (x - d)) else m x)"
  using assms by (induction n) (auto simp: fun_eq_iff)

lemma copy_backward:
  assumes "s < d"
  shows "fold (\<lambda>i m. m(d + i := m (s + i))) (rev [0..<n]) m
    = (\<lambda>x. if d \<le> x \<and> x < d + n then m (s + (x - d)) else m x)"
proof (induction n arbitrary: m)
  case (Suc n)
  let ?f = "\<lambda>i m. m(d + i := m (s + i))"
  have "fold ?f (rev [0..<Suc n]) m = fold ?f (rev [0..<n]) (m(d + n := m (s + n)))" by simp
  also note Suc.IH
  finally have eq: "fold ?f (rev [0..<Suc n]) m = (\<lambda>x. if d \<le> x \<and> x < d + n then (m(d + n := m (s + n))) (s + (x - d))
      else (m(d + n := m (s + n))) x)" .
  show ?case unfolding eq using assms by (auto simp: fun_eq_iff less_Suc_eq)
qed (auto simp: fun_eq_iff)

lemma memmove_copy:
  "memmove m d s n = (\<lambda>x. if d \<le> x \<and> x < d + n then m (s + (x - d)) else m x)"
proof -
  consider "d < s" | "s < d" | "d = s" by linarith
  then show ?thesis
  proof cases
    case 1
    then show ?thesis unfolding memmove_def by (simp only: if_True copy_forward less_imp_le simp_thms)
  next
    case 2
    then show ?thesis unfolding memmove_def by (simp only: copy_backward) auto
  next
    case 3
    then show ?thesis by (auto simp: memmove_def fun_eq_iff)
  qed
qed

lemma memcpy_copy:
  "d \<le> s \<or> s + n \<le> d \<Longrightarrow> memcpy m d s n = (\<lambda>x. if d \<le> x \<and> x < d + n then m (s + (x - d)) else m x)"
  unfolding memcpy_def by (rule copy_forward)

lemma memset_fill: "memset m d c n = (\<lambda>x. if d \<le> x \<and> x < d + n then word_of_int c else m x)"
  unfolding memset_def by (induction n) (auto simp: fun_eq_iff)

lemma copy_nul_cstr:
  assumes "cstr m s t" and "d + length t < s \<or> s + length t < d"
  shows "copy_nul m d s = Some (\<lambda>x. if d \<le> x \<and> x \<le> d + length t then m (s + (x - d)) else m x)"
  using assms
proof (induction t arbitrary: m s d)
  case Nil
  then show ?case by (subst copy_nul.simps) (auto simp: Let_def fun_eq_iff)
next
  case (Cons c t)
  let ?m = "m(d := c)"
  have "cstr ?m (s + 1) t \<longleftrightarrow> cstr m (s + 1) t" using Cons.prems by (intro cstr_cong) auto
  then have "cstr ?m (s + 1) t" using Cons.prems by simp
  moreover have "d + 1 + length t < s + 1 \<or> s + 1 + length t < d + 1" using Cons.prems by auto
  ultimately have "copy_nul ?m (d + 1) (s + 1)
      = Some (\<lambda>x. if d + 1 \<le> x \<and> x \<le> d + 1 + length t then ?m (s + 1 + (x - (d + 1))) else ?m x)"
    by (rule Cons.IH)
  moreover have "(\<lambda>x. if d + 1 \<le> x \<and> x \<le> d + 1 + length t then ?m (s + 1 + (x - (d + 1))) else ?m x)
      = (\<lambda>x. if d \<le> x \<and> x \<le> d + length (c # t) then m (s + (x - d)) else m x)"
    using Cons.prems by (auto simp: fun_eq_iff intro!: arg_cong [where f = m])
  ultimately show ?case using Cons.prems by (subst copy_nul.simps) (simp add: Let_def)
qed

lemma cstr_copied:
  "cstr m s t \<Longrightarrow> (\<And>i. i \<le> length t \<Longrightarrow> m' (d + i) = m (s + i)) \<Longrightarrow> cstr m' d t"
  by (auto simp: cstr_iff)

subsection \<open>Comparison\<close>

lemma uint_zero [simp]: "uint (a :: byte) = 0 \<longleftrightarrow> a = 0"
  by (simp add: word_uint_eq_iff)

lemma uint_pos [simp]: "0 < uint (a :: byte) \<longleftrightarrow> a \<noteq> 0"
  using uint_zero [of a] unsigned_greater_eq [of a, where ?'a = int] by linarith

lemma strcmp_cstr:
  assumes "cstr m a s" "cstr m b t"
  shows "\<exists>d. strcmp m a b = Some d \<and> (d < 0 \<longleftrightarrow> s < t) \<and> (d = 0 \<longleftrightarrow> s = t)"
  using assms
proof (induction s arbitrary: a b t)
  case Nil
  then show ?case
    by (cases t; subst strcmp.simps) auto
next
  case (Cons c s)
  show ?case
  proof (cases t)
    case Nil
    then show ?thesis using Cons.prems by (subst strcmp.simps) auto
  next
    case (Cons c' t')
    show ?thesis
    proof (cases "c = c'")
      case True
      obtain d where "strcmp m (a + 1) (b + 1) = Some d" "d < 0 \<longleftrightarrow> s < t'" "d = 0 \<longleftrightarrow> s = t'"
        using Cons.IH [of "a + 1" "b + 1" t'] Cons.prems \<open>t = _\<close> by auto
      then show ?thesis using Cons.prems \<open>t = _\<close> True by (subst strcmp.simps) auto
    next
      case False
      then show ?thesis using Cons.prems \<open>t = _\<close>
        by (subst strcmp.simps) (auto simp: word_less_def simp flip: word_uint_eq_iff)
    qed
  qed
qed

subsection \<open>Search\<close>

lemma match_at_cstr: "cstr m h s \<Longrightarrow> cstr m n t \<Longrightarrow> match_at m h n = Some (prefix t s)"
proof (induction t arbitrary: h n s)
  case (Cons c t)
  then show ?case by (cases s; subst match_at.simps) auto
qed (subst match_at.simps, simp)

lemma strstr_loop_cstr:
  assumes "cstr m h s" "cstr m n t" "t \<noteq> []"
  shows "strstr_loop m h n =
    Some (if \<exists>i. prefix t (drop i s) then h + (LEAST i. prefix t (drop i s)) else 0)"
  using assms
proof (induction s arbitrary: h)
  case Nil
  then show ?case by (subst strstr_loop.simps) simp
next
  case (Cons c s)
  let ?P = "\<lambda>i. prefix t (drop i (c # s))"
  have step: "strstr_loop m h n = (if ?P 0 then Some h else strstr_loop m (h + 1) n)"
    using match_at_cstr [OF Cons.prems(1,2)] Cons.prems(1) by (subst strstr_loop.simps) simp
  have IH: "strstr_loop m (h + 1) n =
    Some (if \<exists>i. ?P (Suc i) then h + 1 + (LEAST i. ?P (Suc i)) else 0)"
    using Cons.IH [of "h + 1"] Cons.prems by simp
  show ?case
  proof (cases "?P 0")
    case True
    then have "(LEAST i. ?P i) = 0" by (intro Least_equality) auto
    moreover have "\<exists>i. ?P i" using True by blast
    ultimately show ?thesis using step True by simp
  next
    case False
    show ?thesis
    proof (cases "\<exists>i. ?P (Suc i)")
      case True
      then obtain i where "?P (Suc i)" by blast
      then have "(LEAST i. ?P i) = Suc (LEAST i. ?P (Suc i))"
        using Least_Suc [of ?P] False by blast
      moreover have "\<exists>i. ?P i" using True by blast
      ultimately show ?thesis using step False IH True by simp
    next
      case no: False
      then have "\<nexists>i. ?P i" using False by (metis not0_implies_Suc)
      then show ?thesis using step False IH no by simp
    qed
  qed
qed

lemma scan_set_cstr: "cstr m a ds \<Longrightarrow> scan_set m a c = Some (c \<in> set ds)"
  by (induction ds arbitrary: a) (subst scan_set.simps; auto)+

lemma skip_delims_cstr:
  assumes "cstr m p s" "cstr m dl ds"
  shows "skip_delims m dl p = Some (p + length (takeWhile (\<lambda>c. c \<in> set ds) s))"
  using assms
  by (induction s arbitrary: p) (subst skip_delims.simps; simp add: scan_set_cstr)+

lemma token_end_cstr:
  assumes "cstr m p s" "cstr m dl ds"
  shows "token_end m dl p =
    (let k = length (takeWhile (\<lambda>c. c \<notin> set ds) s) in
     Some (if k < length s then (m(p + k := 0), p + k + 1) else (m, 0)))"
  using assms
  by (induction s arbitrary: p) (subst token_end.simps; simp add: scan_set_cstr Let_def)+

lemma span_from_cstr:
  assumes "cstr m (p + n) s" "cstr m dl ds"
  shows "span_from m w p dl n = Some (n + length (takeWhile (\<lambda>c. (c \<in> set ds) = w) s))"
  using assms
  by (induction s arbitrary: n) (subst span_from.simps; simp add: scan_set_cstr)+

lemma strchr_loop_cstr:
  assumes "cstr m p s" "c \<noteq> 0"
  shows "strchr_loop m p c =
    Some (if c \<in> set s then p + length (takeWhile (\<lambda>x. x \<noteq> c) s) else 0)"
  using assms by (induction s arbitrary: p) (subst strchr_loop.simps; auto)+

subsection \<open>Tokens\<close>

text \<open>What \<^verbatim>\<open>strtok\<close> promises: the maximal pieces of \<open>s\<close> without a delimiter, and the
  client loop that collects the returned pointers until \<^verbatim>\<open>NULL\<close>.\<close>

function tokens :: "byte list \<Rightarrow> byte list \<Rightarrow> byte list list" where
  "tokens ds s =
    (let r = dropWhile (\<lambda>c. c \<in> set ds) s; k = length (takeWhile (\<lambda>c. c \<notin> set ds) r) in
     if r = [] then [] else take k r # tokens ds (drop (k + 1) r))"
  by auto
termination
proof (relation "measure (length \<circ> snd)", goal_cases)
  case (2 ds s r k)
  have "length r \<le> length s" unfolding 2 by (rule length_dropWhile_le)
  moreover have "0 < length r" using 2 by simp
  ultimately show ?case by (simp del: length_greater_0_conv)
qed simp

declare tokens.simps [simp del]

partial_function (option) strtok_all :: "mem \<Rightarrow> nat \<Rightarrow> nat \<Rightarrow> nat \<Rightarrow> (mem \<times> nat list) option" where
  "strtok_all m save s dl = do {
     (m, sv, p) \<leftarrow> strtok m save s dl;
     if p = 0 then Some (m, [])
     else do { (m, ps) \<leftarrow> strtok_all m sv 0 dl; Some (m, p # ps) } }"

lemma strtok_all_null: "strtok_all m 0 0 dl = Some (m, [])"
  by (subst strtok_all.simps) (simp add: strtok_def)

lemma strtok_cstr:
  assumes "cstr m q s" "cstr m dl ds" "q \<noteq> 0" "q = (if s0 \<noteq> 0 then s0 else sv)"
  defines "r \<equiv> dropWhile (\<lambda>c. c \<in> set ds) s"
  defines "p \<equiv> q + (length s - length r)"
  defines "k \<equiv> length (takeWhile (\<lambda>c. c \<notin> set ds) r)"
  shows "strtok m sv s0 dl = Some
    (if r = [] then (m, 0, 0) else if k < length r then (m(p + k := 0), p + k + 1, p) else (m, 0, p))"
    and "cstr m p r" "length r \<le> length s"
proof -
  define j where "j = length (takeWhile (\<lambda>c. c \<in> set ds) s)"
  have len: "j + length r = length s"
    unfolding r_def j_def by (metis length_append takeWhile_dropWhile_id)
  then have p: "p = q + j" unfolding p_def by linarith
  have "r = drop j s" unfolding r_def j_def by (rule dropWhile_eq_drop)
  then show cr: "cstr m p r" using cstr_drop [OF assms(1), of j] len unfolding p by simp
  show "length r \<le> length s" using len by simp
  have "m p = 0 \<longleftrightarrow> r = []" using cr by (cases r) auto
  then show "strtok m sv s0 dl = Some
    (if r = [] then (m, 0, 0) else if k < length r then (m(p + k := 0), p + k + 1, p) else (m, 0, p))"
    using token_end_cstr [OF cr assms(2)] skip_delims_cstr [OF assms(1,2)] assms(3,4)
    by (simp add: strtok_def k_def p Let_def flip: j_def)
qed

lemma strtok_all_cstr:
  assumes "cstr m q s" "cstr m dl ds" "q \<noteq> 0" "q = (if s0 \<noteq> 0 then s0 else sv)"
    and "dl + length ds < q \<or> q + length s < dl"
  shows "\<exists>m' ps. strtok_all m sv s0 dl = Some (m', ps) \<and> list_all2 (cstr m') ps (tokens ds s)
    \<and> (\<forall>x. x < q \<or> q + length s \<le> x \<longrightarrow> m' x = m x)"
  using assms
proof (induction ds s arbitrary: m q sv s0 rule: tokens.induct)
  case (1 ds s)
  define r where "r = dropWhile (\<lambda>c. c \<in> set ds) s"
  define p where "p = q + (length s - length r)"
  define k where "k = length (takeWhile (\<lambda>c. c \<notin> set ds) r)"
  note T = strtok_cstr [OF "1.prems"(1-4), folded r_def, folded p_def k_def]
  have tok: "tokens ds s = (if r = [] then [] else take k r # tokens ds (drop (k + 1) r))"
    by (subst tokens.simps) (simp add: Let_def r_def k_def)
  have kr: "k \<le> length r" unfolding k_def by (rule length_takeWhile_le)
  show ?case
  proof (cases "r = []")
    case True
    then show ?thesis using T tok by (subst strtok_all.simps) simp
  next
    case False
    have pq: "p \<noteq> 0" "q \<le> p" "p + length r = q + length s" using "1.prems"(3) T(3) by (auto simp: p_def)
    show ?thesis
    proof (cases "k < length r")
      case no: False
      then have "strtok_all m sv s0 dl = Some (m, [p])" using T False pq
        by (subst strtok_all.simps) (simp add: strtok_all_null)
      moreover have "tokens ds s = [r]" using tok False no kr
        by (simp add: tokens.simps [of ds "[]"])
      ultimately show ?thesis using T(2) by simp
    next
      case True
      let ?m = "m(p + k := 0)"
      have c1: "cstr ?m (p + k + 1) (drop (k + 1) r)"
      proof -
        have "cstr m (p + (k + 1)) (drop (k + 1) r)" by (rule cstr_drop) (use T(2) True in auto)
        then show ?thesis by (auto simp: cstr_iff)
      qed
      have c2: "cstr ?m dl ds"
        using "1.prems"(2,5) pq True by (subst cstr_cong [of ds ?m dl m]) auto
      have "\<exists>m' ps. strtok_all ?m (p + k + 1) 0 dl = Some (m', ps)
          \<and> list_all2 (cstr m') ps (tokens ds (drop (k + 1) r))
          \<and> (\<forall>x. x < p + k + 1 \<or> p + k + 1 + length (drop (k + 1) r) \<le> x \<longrightarrow> m' x = ?m x)"
        by (rule "1.IH" [OF r_def k_def False c1 c2]) (use "1.prems"(5) pq True in auto)
      then obtain m' ps where rest: "strtok_all ?m (p + k + 1) 0 dl = Some (m', ps)"
        "list_all2 (cstr m') ps (tokens ds (drop (k + 1) r))"
        "\<And>x. x < p + k + 1 \<or> p + k + 1 + length (drop (k + 1) r) \<le> x \<Longrightarrow> m' x = ?m x" by blast
      have "strtok_all m sv s0 dl = Some (m', p # ps)" using T False True pq rest(1)
        by (subst strtok_all.simps) simp
      moreover have "cstr m' p (take k r)"
        using T(2) True rest(3) by (auto simp: cstr_iff dest: in_set_takeD)
      moreover have "\<forall>x. x < q \<or> q + length s \<le> x \<longrightarrow> m' x = m x"
        using rest(3) pq True by auto
      ultimately show ?thesis using rest(2) tok False by simp
    qed
  qed
qed

subsection \<open>Decimal texts\<close>

definition dec_val :: "string \<Rightarrow> nat" where
  "dec_val t = foldl (\<lambda>a c. 10 * a + (of_char c - 48)) 0 t"

lemma dec_val_snoc: "dec_val (t @ [c]) = 10 * dec_val t + (of_char c - 48)"
  by (simp add: dec_val_def)

lemma dec_val_rev_digits: "dec_val (rev (rev_digits u)) = u"
proof (induction u rule: rev_digits.induct)
  case (1 u)
  show ?case
  proof (cases "u = 0")
    case False
    have "48 + u mod 10 < 256" using mod_less_divisor [of 10 u] by linarith
    then have "of_char (char_of (48 + u mod 10) :: char) = 48 + u mod 10" by simp
    then show ?thesis using 1 False by (subst rev_digits.simps) (simp add: dec_val_snoc)
  qed (simp add: rev_digits.simps dec_val_def)
qed

lemma length_rev_digits: "u < 10 ^ k \<Longrightarrow> length (rev_digits u) \<le> k"
proof (induction k arbitrary: u)
  case (Suc k)
  then have "u div 10 < 10 ^ k" by (simp add: less_mult_imp_div_less mult.commute)
  then show ?case using Suc.IH by (subst rev_digits.simps) simp
qed (simp add: rev_digits.simps)

section \<open>Properties\<close>

text \<open>C39: \<^verbatim>\<open>memmove\<close> copies the source bytes as they were before the call, whatever the overlap
  of the two buffers, and writes nothing else; \<^verbatim>\<open>memcpy\<close> agrees with it on every pair of
  buffers it may be called with.\<close>

theorem memmove_correct:
  shows "memmove m d s n x = (if d \<le> x \<and> x < d + n then m (s + (x - d)) else m x) \<and>
    (d \<le> s \<or> s + n \<le> d \<longrightarrow> memcpy m d s n = memmove m d s n)"
  by (simp add: memmove_copy) (use memcpy_copy in blast)

theorem memmove_correct_witness:
  "memmove (\<lambda>i. word_of_nat i) 12 10 4 15 = 13 \<and> memcpy (\<lambda>i. word_of_nat i) 20 10 4 = memmove (\<lambda>i. word_of_nat i) 20 10 4"
  using memmove_correct [of "\<lambda>i. word_of_nat i" 12 10 4 15] memmove_correct [of "\<lambda>i. word_of_nat i" 20 10 4 0]
  by simp

text \<open>C40: on two terminated strings \<^verbatim>\<open>strcmp\<close> returns, and the sign of its result is
  the lexicographic order of the strings by unsigned bytes; \<^verbatim>\<open>strlen\<close> returns the length.\<close>

theorem strcmp_order:
  assumes "cstr m a s" "cstr m b t"
  shows "strlen m a = Some (length s) \<and>
    (\<exists>d. strcmp m a b = Some d \<and> (d < 0 \<longleftrightarrow> s < t) \<and> (d = 0 \<longleftrightarrow> s = t) \<and> (0 < d \<longleftrightarrow> t < s))"
proof -
  obtain d where d: "strcmp m a b = Some d" "d < 0 \<longleftrightarrow> s < t" "d = 0 \<longleftrightarrow> s = t"
    using strcmp_cstr [OF assms] by blast
  have "0 < d \<longleftrightarrow> \<not> d < 0 \<and> d \<noteq> 0" by linarith
  also have "\<dots> \<longleftrightarrow> t < s" using d(2,3) by auto
  finally show ?thesis using d strlen_cstr [OF assms(1)] by blast
qed

definition wit_mem :: mem where
  "wit_mem x = (if x = 1 then 97 else if x = 2 then 44 else if x = 3 then 44 else if x = 4 then 98
    else if x = 10 then 44 else 0)"

theorem strcmp_order_witness:
  "\<exists>d. strcmp wit_mem 1 3 = Some d \<and> (0 < d \<longleftrightarrow> [44, 98] < [97, 44, 44, 98 :: byte])"
proof -
  have "cstr wit_mem 1 [97, 44, 44, 98]" "cstr wit_mem 3 [44, 98]" by (simp_all add: wit_mem_def)
  from strcmp_order [OF this] show ?thesis by blast
qed

text \<open>C33: \<^verbatim>\<open>strstr\<close> returns for every pair of terminated strings: the first position at which
  the needle occurs, or \<^verbatim>\<open>NULL\<close> when it occurs nowhere.\<close>

theorem strstr_first:
  assumes "cstr m h s" "cstr m n t"
  shows "strstr m h n =
    Some (if \<exists>i. prefix t (drop i s) then h + (LEAST i. prefix t (drop i s)) else 0)"
proof (cases "t = []")
  case True
  then have "(LEAST i. prefix t (drop i s)) = 0" by (intro Least_equality) auto
  then show ?thesis using assms True by (simp add: strstr_def)
next
  case False
  then have "m n \<noteq> 0" using assms(2) by (cases t) auto
  then show ?thesis using strstr_loop_cstr [OF assms False] by (simp add: strstr_def)
qed

theorem strstr_first_witness: "strstr wit_mem 1 10 = Some 2"
proof -
  have c: "cstr wit_mem 1 [97, 44, 44, 98]" "cstr wit_mem 10 [44]" by (simp_all add: wit_mem_def)
  let ?P = "\<lambda>i. prefix [44] (drop i [97, 44, 44, 98 :: byte])"
  have "?P 1" by simp
  moreover have "1 \<le> i" if "?P i" for i using that by (cases i) auto
  ultimately have "(LEAST i. ?P i) = 1" by (rule Least_equality)
  then have "strstr wit_mem 1 10 = Some (if \<exists>i. ?P i then 1 + 1 else 0)" by (simp only: strstr_first [OF c])
  moreover have "\<exists>i. ?P i" using \<open>?P 1\<close> by blast
  ultimately show ?thesis by (simp only: if_True one_add_one)
qed

text \<open>C26: calling \<^verbatim>\<open>strtok\<close> on a string and then on \<^verbatim>\<open>NULL\<close> until it returns
  \<^verbatim>\<open>NULL\<close> ends, and the pointers it returned are, in order, terminated strings holding exactly
  the maximal delimiter-free pieces of the string; no byte outside the string changes.\<close>

theorem strtok_tokenizes:
  assumes "cstr m p s" "cstr m dl ds" "p \<noteq> 0" "dl + length ds < p \<or> p + length s < dl"
  shows "\<exists>m' ps. strtok_all m save p dl = Some (m', ps) \<and> list_all2 (cstr m') ps (tokens ds s) \<and>
    (\<forall>x. x < p \<or> p + length s \<le> x \<longrightarrow> m' x = m x)"
  by (rule strtok_all_cstr) (use assms in auto)

theorem strtok_tokenizes_witness:
  "\<exists>m' ps. strtok_all wit_mem 0 1 10 = Some (m', ps) \<and> list_all2 (cstr m') ps [[97], [98]]"
proof -
  have "cstr wit_mem 1 [97, 44, 44, 98]" "cstr wit_mem 10 [44]" by (simp_all add: wit_mem_def)
  from strtok_tokenizes [OF this, of 0] show ?thesis by (auto simp: tokens.simps)
qed

text \<open>For a code without a text of its own \<^verbatim>\<open>strerror\<close> writes the decimal form of the code, sign
  included, and the text with its terminator fits the 32-byte buffer, the digits the 12-byte one.\<close>

lemma strerror_unknown:
  assumes "map_of strerror_table e = None" "- 2147483648 \<le> e" "e < 2147483648"
  shows "\<exists>ds. strerror e = ''Unknown error '' @ (if e < 0 then ''-'' else []) @ ds \<and>
    int (dec_val ds) = \<bar>e\<bar> \<and> length (strerror e) + 1 \<le> 32 \<and> length ds \<le> 12"
proof -
  define u where "u = (if e < 0 then nat (- (e + 1)) + 1 else nat e)"
  have e0: "e \<noteq> 0" using assms(1) by (auto simp: strerror_table_def)
  then have d: "strerror_digits e = rev_digits u" by (auto simp: strerror_digits_def Let_def u_def)
  have u: "int u = \<bar>e\<bar>" using e0 by (auto simp: u_def)
  have "u < 10 ^ 10" using assms(2,3) by (auto simp: u_def)
  then have "length (rev_digits u) \<le> 10" by (rule length_rev_digits)
  moreover have "int (dec_val (rev (rev_digits u))) = \<bar>e\<bar>" using u by (simp only: dec_val_rev_digits)
  ultimately show ?thesis using assms(1) d by (intro exI [of _ "rev (rev_digits u)"]) (simp add: strerror_def)
qed

lemma strerror_unknown_witness:
  "\<exists>ds. strerror (- 40) = ''Unknown error '' @ ''-'' @ ds \<and> dec_val ds = 40"
  using strerror_unknown [of "- 40"] by (simp add: strerror_table_def kconst) blast

end
