(* ===== verification/Ramfs.thy ===== *)
theory Ramfs
  imports Prelude "HOL-Library.Monad_Syntax"
begin

text \<open>
  The in-memory file system of the VFS server, \<^verbatim>\<open>userspace/vfs/ramfs.c\<close>, with the reference
  counting of vnodes from \<^verbatim>\<open>userspace/vfs/vfs.c\<close>.

  Nodes and open files live in stores keyed by an identity; 0 is the null pointer.  The
  allocator is seen through its outcome: the \<open>k\<close>-th allocation of the server fails when
  \<open>fs_oom k size\<close> holds and otherwise yields the new identity \<open>k + 1\<close>; the bytes of a buffer
  obtained from \<^verbatim>\<open>malloc\<close> are \<open>fs_junk k\<close>.  Both are free parameters of the state.  The singly
  linked child list of a directory is a list of identities in list order, and a C string
  is the list of its characters without the terminator.

  Functions return \<open>None\<close> when the code would dereference a null or freed node, or access a
  buffer out of bounds: the properties show that this does not happen.
\<close>

abbreviation VFS_NAME_MAX :: nat where "VFS_NAME_MAX \<equiv> 255"
abbreviation VFS_TYPE_REG :: u32 where "VFS_TYPE_REG \<equiv> 1"
abbreviation VFS_TYPE_DIR :: u32 where "VFS_TYPE_DIR \<equiv> 2"

record ramfs_node =
  vn_ino :: nat
  vn_type :: u32
  vn_mode :: u32
  vn_refcount :: nat
  vn_size :: nat
  vn_parent :: nat
  rn_name :: string
  rn_data :: "byte list"
  rn_capacity :: nat
  rn_children :: "nat list"

record vfile =
  fl_vn :: nat
  fl_offset :: nat
  fl_flags :: u32
  fl_refcount :: nat

record vfs =
  fs_nodes :: "nat \<Rightarrow> ramfs_node option"
  fs_files :: "nat \<Rightarrow> vfile option"
  fs_root :: nat
  fs_next_ino :: nat
  fs_allocs :: nat
  fs_oom :: "nat \<Rightarrow> nat \<Rightarrow> bool"
  fs_junk :: "nat \<Rightarrow> nat \<Rightarrow> byte"

definition alloc :: "nat \<Rightarrow> vfs \<Rightarrow> nat \<times> vfs" where
  "alloc sz s =
    (let k = fs_allocs s in
     (if fs_oom s k sz then 0 else k + 1, s\<lparr>fs_allocs := k + 1\<rparr>))"

definition put_node :: "nat \<Rightarrow> ramfs_node \<Rightarrow> vfs \<Rightarrow> vfs" where
  "put_node v n s = s\<lparr>fs_nodes := (fs_nodes s)(v \<mapsto> n)\<rparr>"

section \<open>Vnode lifecycle\<close>

definition vnode_ref :: "nat \<Rightarrow> vfs \<Rightarrow> vfs option" where
  "vnode_ref v s =
    (if v = 0 then Some s
     else do { n \<leftarrow> fs_nodes s v; Some (put_node v (n\<lparr>vn_refcount := wrap32 (vn_refcount n + 1)\<rparr>) s) })"

fun unref_each :: "(nat \<Rightarrow> vfs \<Rightarrow> vfs option) \<Rightarrow> nat list \<Rightarrow> vfs \<Rightarrow> vfs option" where
  "unref_each unref [] s = Some s"
| "unref_each unref (c # cs) s = do { s \<leftarrow> unref c s; unref_each unref cs s }"

definition ramfs_destroy :: "(nat \<Rightarrow> vfs \<Rightarrow> vfs option) \<Rightarrow> nat \<Rightarrow> vfs \<Rightarrow> vfs option" where
  "ramfs_destroy unref v s = do {
     n \<leftarrow> fs_nodes s v;
     s \<leftarrow> unref_each unref (rn_children n) s;
     Some (s\<lparr>fs_nodes := (fs_nodes s)(v := None)\<rparr>) }"

text \<open>\<^verbatim>\<open>vnode_unref\<close> and \<^verbatim>\<open>ramfs_destroy\<close> call each other; the first argument bounds the
  depth of the recursion.  A child is allocated after its directory, so that the number of
  allocations bounds it.\<close>

fun unref_depth :: "nat \<Rightarrow> nat \<Rightarrow> vfs \<Rightarrow> vfs option" where
  "unref_depth 0 v s = None"
| "unref_depth (Suc k) v s =
    (if v = 0 then Some s
     else do {
       n \<leftarrow> fs_nodes s v;
       if vn_refcount n = 0 then Some s
       else do {
         let n = n\<lparr>vn_refcount := vn_refcount n - 1\<rparr>;
         let s = put_node v n s;
         if vn_refcount n = 0 then ramfs_destroy (unref_depth k) v s else Some s } })"

definition vnode_unref :: "nat \<Rightarrow> vfs \<Rightarrow> vfs option" where
  "vnode_unref v s = unref_depth (fs_allocs s + 1) v s"

section \<open>Node construction\<close>

definition ramfs_new_node :: "u32 \<Rightarrow> u32 \<Rightarrow> vfs \<Rightarrow> nat \<times> vfs" where
  "ramfs_new_node ty md s =
    (let (p, s) = alloc 344 s in
     if p = 0 then (0, s)
     else (p, put_node p \<lparr>vn_ino = fs_next_ino s, vn_type = ty, vn_mode = md, vn_refcount = 1,
         vn_size = 0, vn_parent = 0, rn_name = [], rn_data = [], rn_capacity = 0, rn_children = []\<rparr>
       (s\<lparr>fs_next_ino := wrap64 (fs_next_ino s + 1)\<rparr>)))"

definition ramfs_create_root :: "vfs \<Rightarrow> (nat \<times> vfs) option" where
  "ramfs_create_root s =
    (let (p, s) = ramfs_new_node VFS_TYPE_DIR 0x1ED s in
     if p = 0 then Some (0, s)
     else do { n \<leftarrow> fs_nodes s p; Some (p, put_node p (n\<lparr>vn_parent := p\<rparr>) s) })"

fun find_child :: "vfs \<Rightarrow> nat list \<Rightarrow> string \<Rightarrow> nat option" where
  "find_child s [] name = Some 0"
| "find_child s (c # cs) name = do {
     n \<leftarrow> fs_nodes s c;
     if rn_name n = name then Some c else find_child s cs name }"

definition ramfs_find :: "vfs \<Rightarrow> nat \<Rightarrow> string \<Rightarrow> nat option" where
  "ramfs_find s d name = do { n \<leftarrow> fs_nodes s d; find_child s (rn_children n) name }"

section \<open>Directory operations\<close>

definition ramfs_lookup :: "nat \<Rightarrow> string \<Rightarrow> vfs \<Rightarrow> ((int + nat) \<times> vfs) option" where
  "ramfs_lookup dir name s = do {
     c \<leftarrow> ramfs_find s dir name;
     if c = 0 then Some (Inl (- ENOENT), s)
     else do { s \<leftarrow> vnode_ref c s; Some (Inr c, s) } }"

text \<open>\<^verbatim>\<open>xs_strcpy\<close> into the 256-byte name keeps at most 255 characters.\<close>

definition link_child :: "nat \<Rightarrow> string \<Rightarrow> nat \<Rightarrow> vfs \<Rightarrow> vfs option" where
  "link_child dir name c s = do {
     nn \<leftarrow> fs_nodes s c;
     let s = put_node c (nn\<lparr>rn_name := take VFS_NAME_MAX name, vn_parent := dir\<rparr>) s;
     d \<leftarrow> fs_nodes s dir;
     Some (put_node dir (d\<lparr>rn_children := c # rn_children d\<rparr>) s) }"

definition ramfs_create :: "nat \<Rightarrow> string \<Rightarrow> u32 \<Rightarrow> vfs \<Rightarrow> ((int + nat) \<times> vfs) option" where
  "ramfs_create dir name md s = do {
     c \<leftarrow> ramfs_find s dir name;
     if c \<noteq> 0 then Some (Inl (- EEXIST), s)
     else do {
       let (nv, s) = ramfs_new_node VFS_TYPE_REG md s;
       if nv = 0 then Some (Inl (- ENOMEM), s)
       else do {
         s \<leftarrow> link_child dir name nv s;
         s \<leftarrow> vnode_ref nv s;
         Some (Inr nv, s) } } }"

definition ramfs_mkdir :: "nat \<Rightarrow> string \<Rightarrow> u32 \<Rightarrow> vfs \<Rightarrow> (int \<times> vfs) option" where
  "ramfs_mkdir dir name md s = do {
     c \<leftarrow> ramfs_find s dir name;
     if c \<noteq> 0 then Some (- EEXIST, s)
     else do {
       let (nv, s) = ramfs_new_node VFS_TYPE_DIR md s;
       if nv = 0 then Some (- ENOMEM, s)
       else do { s \<leftarrow> link_child dir name nv s; Some (0, s) } } }"

definition unlink_child :: "nat \<Rightarrow> nat \<Rightarrow> vfs \<Rightarrow> vfs option" where
  "unlink_child dir c s = do {
     d \<leftarrow> fs_nodes s dir;
     vnode_unref c (put_node dir (d\<lparr>rn_children := remove1 c (rn_children d)\<rparr>) s) }"

definition ramfs_unlink :: "nat \<Rightarrow> string \<Rightarrow> vfs \<Rightarrow> (int \<times> vfs) option" where
  "ramfs_unlink dir name s = do {
     c \<leftarrow> ramfs_find s dir name;
     if c = 0 then Some (- ENOENT, s)
     else do {
       n \<leftarrow> fs_nodes s c;
       if vn_type n = VFS_TYPE_DIR then Some (- EISDIR, s)
       else do { s \<leftarrow> unlink_child dir c s; Some (0, s) } } }"

definition ramfs_rmdir :: "nat \<Rightarrow> string \<Rightarrow> vfs \<Rightarrow> (int \<times> vfs) option" where
  "ramfs_rmdir dir name s = do {
     c \<leftarrow> ramfs_find s dir name;
     if c = 0 then Some (- ENOENT, s)
     else do {
       n \<leftarrow> fs_nodes s c;
       if vn_type n \<noteq> VFS_TYPE_DIR then Some (- ENOTDIR, s)
       else if rn_children n \<noteq> [] then Some (- ENOTEMPTY, s)
       else do { s \<leftarrow> unlink_child dir c s; Some (0, s) } } }"

definition ramfs_readdir :: "nat \<Rightarrow> nat \<Rightarrow> nat \<Rightarrow> vfs \<Rightarrow> (int + string) option" where
  "ramfs_readdir dir index n s = do {
     d \<leftarrow> fs_nodes s dir;
     if index < length (rn_children d)
     then do {
       c \<leftarrow> fs_nodes s (rn_children d ! index);
       if length (rn_name c) + 1 > n then Some (Inl (- ERANGE)) else Some (Inr (rn_name c)) }
     else Some (Inl (- ENOENT)) }"

section \<open>File operations\<close>

definition ramfs_read :: "nat \<Rightarrow> nat \<Rightarrow> nat \<Rightarrow> vfs \<Rightarrow> (int + byte list) option" where
  "ramfs_read v n off s = do {
     vn \<leftarrow> fs_nodes s v;
     if vn_type vn \<noteq> VFS_TYPE_REG then Some (Inl (- EISDIR))
     else if vn_size vn \<le> off then Some (Inr [])
     else do {
       let avail = vn_size vn - off;
       let n = (if avail < n then avail else n);
       if off + n \<le> length (rn_data vn) then Some (Inr (take n (drop off (rn_data vn)))) else None } }"

partial_function (option) grow_cap :: "nat \<Rightarrow> nat \<Rightarrow> (int + nat) option" where
  "grow_cap c need =
    (if c < need then (if 4611686018427387904 < c then Some (Inl (- ENOMEM)) else grow_cap (2 * c) need)
     else Some (Inr c))"

text \<open>The buffer that replaces \<open>d\<close> when a file of \<open>sz\<close> bytes grows for a write at \<open>off\<close>.\<close>

definition grown_data :: "byte list \<Rightarrow> nat \<Rightarrow> nat \<Rightarrow> nat \<Rightarrow> (nat \<Rightarrow> byte) \<Rightarrow> byte list" where
  "grown_data d sz off newcap junk =
    map (\<lambda>i. if i < sz then d ! i else if i < off then 0 else junk i) [0..<newcap]"

definition put_bytes :: "byte list \<Rightarrow> nat \<Rightarrow> byte list \<Rightarrow> byte list option" where
  "put_bytes d off buf =
    (if off + length buf \<le> length d then Some (take off d @ buf @ drop (off + length buf) d) else None)"

definition grow_for :: "ramfs_node \<Rightarrow> nat \<Rightarrow> nat \<Rightarrow> vfs \<Rightarrow> ((int + ramfs_node) \<times> vfs) option" where
  "grow_for vn need off s =
    (if rn_capacity vn < need then do {
       g \<leftarrow> grow_cap (if rn_capacity vn \<noteq> 0 then rn_capacity vn else 64) need;
       case g of
         Inl e \<Rightarrow> Some (Inl e, s)
       | Inr newcap \<Rightarrow> do {
           let k = fs_allocs s;
           let (p, s) = alloc newcap s;
           if p = 0 then Some (Inl (- ENOMEM), s)
           else if vn_size vn \<le> length (rn_data vn)
           then Some (Inr (vn\<lparr>rn_data := grown_data (rn_data vn) (vn_size vn) off newcap (fs_junk s k),
               rn_capacity := newcap\<rparr>), s)
           else None } }
     else Some (Inr vn, s))"

definition ramfs_write :: "nat \<Rightarrow> byte list \<Rightarrow> nat \<Rightarrow> vfs \<Rightarrow> (int \<times> vfs) option" where
  "ramfs_write v buf off s = do {
     vn \<leftarrow> fs_nodes s v;
     let n = length buf;
     let need = wrap64 (off + n);
     if vn_type vn \<noteq> VFS_TYPE_REG then Some (- EISDIR, s)
     else if n = 0 then Some (0, s)
     else if need < off then Some (- EINVAL, s)
     else do {
       (g, s) \<leftarrow> grow_for vn need off s;
       case g of
         Inl e \<Rightarrow> Some (e, s)
       | Inr vn \<Rightarrow> do {
           d \<leftarrow> put_bytes (rn_data vn) off buf;
           Some (int n, put_node v (vn\<lparr>rn_data := d,
             vn_size := (if vn_size vn < need then need else vn_size vn)\<rparr>) s) } } }"

definition ramfs_truncate :: "nat \<Rightarrow> nat \<Rightarrow> vfs \<Rightarrow> (int \<times> vfs) option" where
  "ramfs_truncate v sz s = do {
     vn \<leftarrow> fs_nodes s v;
     if vn_type vn \<noteq> VFS_TYPE_REG then Some (- EISDIR, s)
     else if sz = vn_size vn then Some (0, s)
     else if sz \<le> rn_capacity vn then
       (if vn_size vn < sz then do {
          d \<leftarrow> put_bytes (rn_data vn) (vn_size vn) (replicate (sz - vn_size vn) 0);
          Some (0, put_node v (vn\<lparr>rn_data := d, vn_size := sz\<rparr>) s) }
        else Some (0, put_node v (vn\<lparr>vn_size := sz\<rparr>) s))
     else do {
       let (p, s) = alloc sz s;
       if p = 0 then Some (- ENOMEM, s)
       else if rn_capacity vn \<noteq> 0 \<and> length (rn_data vn) < min (vn_size vn) sz then None
       else Some (0, put_node v (vn\<lparr>rn_data := take (vn_size vn) (rn_data vn) @ replicate (sz - vn_size vn) 0,
           rn_capacity := sz, vn_size := sz\<rparr>) s) } }"


section \<open>Invariant\<close>

text \<open>A node is linked when it is the mounted root or in the child list of a live directory.
  Its reference count is the number of its owners: the list that links it, the open files
  that hold it, and the references \<open>ex\<close> that the running operation holds.\<close>

definition kids :: "vfs \<Rightarrow> nat \<Rightarrow> nat list" where
  "kids s v = (case fs_nodes s v of Some n \<Rightarrow> rn_children n | None \<Rightarrow> [])"

definition linked :: "vfs \<Rightarrow> nat \<Rightarrow> bool" where
  "linked s v \<longleftrightarrow> v = fs_root s \<or> (\<exists>d. v \<in> set (kids s d))"

definition holders :: "vfs \<Rightarrow> nat \<Rightarrow> nat" where
  "holders s v = card {f. \<exists>fl. fs_files s f = Some fl \<and> fl_vn fl = v}"

definition refs :: "vfs \<Rightarrow> (nat \<Rightarrow> nat) \<Rightarrow> nat \<Rightarrow> nat" where
  "refs s ex v = (if linked s v then 1 else 0) + holders s v + ex v"

definition node_ok :: "vfs \<Rightarrow> nat \<Rightarrow> ramfs_node \<Rightarrow> bool" where
  "node_ok s v n \<longleftrightarrow>
     0 < v \<and> v \<le> fs_allocs s \<and>
     (vn_type n = VFS_TYPE_REG \<and> rn_children n = [] \<or> vn_type n = VFS_TYPE_DIR) \<and>
     length (rn_data n) = rn_capacity n \<and> vn_size n \<le> rn_capacity n \<and> rn_capacity n < two64 \<and> length (rn_name n) \<le> VFS_NAME_MAX \<and>
     distinct (rn_children n) \<and> (linked s v \<or> rn_children n = []) \<and>
     (\<forall>c \<in> set (rn_children n). \<exists>m. fs_nodes s c = Some m \<and> vn_parent m = v \<and> c \<noteq> fs_root s \<and> v < c) \<and>
     inj_on (\<lambda>c. map_option rn_name (fs_nodes s c)) (set (rn_children n))"

definition files_ok :: "vfs \<Rightarrow> bool" where
  "files_ok s \<longleftrightarrow>
     finite (dom (fs_files s)) \<and> card (dom (fs_files s)) < 2147483648 \<and>
     (\<forall>f fl. fs_files s f = Some fl \<longrightarrow>
        0 < f \<and> f \<le> fs_allocs s \<and> fl_refcount fl = 1 \<and> fs_nodes s (fl_vn fl) \<noteq> None \<and> fl_offset fl < two64)"

definition fs_inv :: "vfs \<Rightarrow> (nat \<Rightarrow> nat) \<Rightarrow> bool" where
  "fs_inv s ex \<longleftrightarrow> files_ok s \<and>
     (\<exists>r. fs_nodes s (fs_root s) = Some r \<and> vn_type r = VFS_TYPE_DIR \<and> vn_parent r = fs_root s) \<and>
     (\<forall>v n. fs_nodes s v = Some n \<longrightarrow> node_ok s v n \<and> vn_refcount n = refs s ex v \<and> 0 < refs s ex v) \<and>
     (\<forall>v. 0 < ex v \<longrightarrow> fs_nodes s v \<noteq> None)"

text \<open>The state with one reference more or less on \<open>v\<close>.\<close>

definition bump :: "(nat \<Rightarrow> nat) \<Rightarrow> nat \<Rightarrow> vfs \<Rightarrow> vfs" where
  "bump g v s = s\<lparr>fs_nodes := (fs_nodes s)(v := map_option (\<lambda>n. n\<lparr>vn_refcount := g (vn_refcount n)\<rparr>) (fs_nodes s v))\<rparr>"

lemma bump_simps [simp]:
  "fs_files (bump g v s) = fs_files s" "fs_root (bump g v s) = fs_root s"
  "fs_allocs (bump g v s) = fs_allocs s" "fs_oom (bump g v s) = fs_oom s" "fs_junk (bump g v s) = fs_junk s"
  "fs_nodes (bump g v s) w =
     (if w = v then map_option (\<lambda>n. n\<lparr>vn_refcount := g (vn_refcount n)\<rparr>) (fs_nodes s v) else fs_nodes s w)"
  by (simp_all add: bump_def)

lemma kids_bump [simp]: "kids (bump g v s) w = kids s w"
  by (simp add: kids_def split: option.splits)

lemma linked_bump [simp]: "linked (bump g v s) w = linked s w"
  by (simp add: linked_def)

lemma holders_bump [simp]: "holders (bump g v s) w = holders s w"
  by (simp add: holders_def)

lemma refs_upd: "refs s (ex(v := k)) w = (if w = v then (if linked s v then 1 else 0) + holders s v + k else refs s ex w)"
  by (simp add: refs_def)

lemma fs_invD:
  assumes "fs_inv s ex" "fs_nodes s v = Some n"
  shows "node_ok s v n" "vn_refcount n = refs s ex v" "0 < refs s ex v"
  using assms by (auto simp: fs_inv_def)

lemma kids_Some: "fs_nodes s w = Some m \<Longrightarrow> kids s w = rn_children m"
  by (simp add: kids_def)

lemma bump_bump: "fs_nodes s v = Some n \<Longrightarrow> g (h (vn_refcount n)) = vn_refcount n \<Longrightarrow> bump g v (bump h v s) = s"
proof -
  assume a: "fs_nodes s v = Some n" "g (h (vn_refcount n)) = vn_refcount n"
  then have "fs_nodes (bump g v (bump h v s)) = fs_nodes s" by (intro ext) simp
  then show ?thesis by (simp add: bump_def)
qed

lemma bump_comm: "v \<noteq> w \<Longrightarrow> bump g v (bump h w s) = bump h w (bump g v s)"
  by (simp add: bump_def fun_upd_twist)

lemma holders_le: "finite (dom (fs_files s)) \<Longrightarrow> holders s v \<le> card (dom (fs_files s))"
  unfolding holders_def by (rule card_mono) auto

text \<open>The invariant depends on the tree only through the shape of its nodes.\<close>

definition shape :: "ramfs_node \<Rightarrow> u32 \<times> nat \<times> string \<times> nat list" where
  "shape n = (vn_type n, vn_parent n, rn_name n, rn_children n)"

lemma shape_upd [simp]:
  "shape (n\<lparr>vn_refcount := r\<rparr>) = shape n" "shape (n\<lparr>rn_data := d\<rparr>) = shape n"
  "shape (n\<lparr>vn_size := z\<rparr>) = shape n" "shape (n\<lparr>rn_capacity := c\<rparr>) = shape n"
  by (simp_all add: shape_def)

definition same_tree :: "vfs \<Rightarrow> vfs \<Rightarrow> bool" where
  "same_tree s s' \<longleftrightarrow> fs_root s' = fs_root s \<and> fs_allocs s \<le> fs_allocs s' \<and>
     (\<forall>w. map_option shape (fs_nodes s' w) = map_option shape (fs_nodes s w))"

lemma same_tree_kids: "same_tree s s' \<Longrightarrow> kids s' w = kids s w"
proof -
  assume "same_tree s s'"
  then have "map_option shape (fs_nodes s' w) = map_option shape (fs_nodes s w)" by (simp add: same_tree_def)
  then show ?thesis by (cases "fs_nodes s w"; cases "fs_nodes s' w") (auto simp: kids_def shape_def)
qed

lemma same_tree_linked: "same_tree s s' \<Longrightarrow> linked s' w = linked s w"
  using same_tree_kids [of s s'] by (simp add: linked_def) (simp add: same_tree_def)

lemma same_tree_live: "same_tree s s' \<Longrightarrow> fs_nodes s' w = None \<longleftrightarrow> fs_nodes s w = None"
  by (metis map_option_is_None same_tree_def)

lemma same_tree_node_ok:
  assumes st: "same_tree s s'" and ok: "node_ok s w n" and n: "fs_nodes s w = Some n" "fs_nodes s' w = Some m"
    and d: "length (rn_data m) = rn_capacity m" "vn_size m \<le> rn_capacity m" "rn_capacity m < two64"
  shows "node_ok s' w m"
proof -
  have sh: "map_option shape (fs_nodes s' c) = map_option shape (fs_nodes s c)" for c
    using st by (simp add: same_tree_def)
  have names: "map_option rn_name (fs_nodes s' c) = map_option rn_name (fs_nodes s c)" for c
    using sh [of c] by (cases "fs_nodes s c"; cases "fs_nodes s' c") (auto simp: shape_def)
  have par: "(\<exists>m. fs_nodes s' c = Some m \<and> vn_parent m = w \<and> P) \<longleftrightarrow> (\<exists>m. fs_nodes s c = Some m \<and> vn_parent m = w \<and> P)" for c P
    using sh [of c] by (cases "fs_nodes s c"; cases "fs_nodes s' c") (auto simp: shape_def)
  have m: "vn_type m = vn_type n" "rn_name m = rn_name n" "rn_children m = rn_children n"
    using sh [of w] n by (auto simp: shape_def)
  have "fs_root s' = fs_root s" "fs_allocs s \<le> fs_allocs s'" using st by (auto simp: same_tree_def)
  then show ?thesis using ok d unfolding node_ok_def names par m same_tree_linked [OF st] by auto
qed

lemma fs_inv_same_tree:
  assumes inv: "fs_inv s ex" and st: "same_tree s s'" and files: "files_ok s'"
    and new: "\<And>w m. fs_nodes s' w = Some m \<Longrightarrow> length (rn_data m) = rn_capacity m \<and> vn_size m \<le> rn_capacity m \<and> rn_capacity m < two64
      \<and> vn_refcount m = refs s' ex' w \<and> 0 < vn_refcount m"
    and ex: "\<And>v. 0 < ex' v \<Longrightarrow> fs_nodes s' v \<noteq> None"
  shows "fs_inv s' ex'"
proof -
  have "node_ok s' w m \<and> vn_refcount m = refs s' ex' w \<and> 0 < refs s' ex' w" if m: "fs_nodes s' w = Some m" for w m
  proof -
    obtain n where n: "fs_nodes s w = Some n" using same_tree_live [OF st, of w] m by auto
    then have "node_ok s w n" using inv by (simp add: fs_inv_def)
    then show ?thesis using same_tree_node_ok [OF st _ n m] new [OF m] by auto
  qed
  moreover have "\<exists>r. fs_nodes s' (fs_root s') = Some r \<and> vn_type r = VFS_TYPE_DIR \<and> vn_parent r = fs_root s'"
  proof -
    obtain r where r: "fs_nodes s (fs_root s) = Some r" "vn_type r = VFS_TYPE_DIR" "vn_parent r = fs_root s"
      using inv by (auto simp: fs_inv_def)
    have "map_option shape (fs_nodes s' (fs_root s)) = Some (shape r)" "fs_root s' = fs_root s"
      using st r by (auto simp: same_tree_def)
    then show ?thesis using r by (auto simp: shape_def)
  qed
  ultimately show ?thesis using files ex by (auto simp: fs_inv_def)
qed

lemma same_tree_bump [simp]: "same_tree s (bump g v s)"
  by (simp add: same_tree_def option.map_comp o_def)

lemma bump_live: "fs_nodes (bump g v s) w = None \<longleftrightarrow> fs_nodes s w = None"
  by simp

lemma files_ok_bump [simp]: "files_ok (bump g v s) = files_ok s"
  by (simp only: files_ok_def bump_simps(1-3) bump_live)

lemma refs_bump [simp]: "refs (bump g v s) ex w = refs s ex w"
  by (simp add: refs_def)

lemma fs_inv_files: "fs_inv s ex \<Longrightarrow> files_ok s"
  by (simp add: fs_inv_def)

lemma files_ok_mono:
  assumes "files_ok s" "fs_files s' = fs_files s" "fs_allocs s \<le> fs_allocs s'"
    and "\<And>w. fs_nodes s' w = None \<longleftrightarrow> fs_nodes s w = None"
  shows "files_ok s'"
  using assms(1,3) unfolding files_ok_def assms(2,4) by (meson order_trans)

lemma fs_inv_bump:
  assumes inv: "fs_inv s ex" and n: "fs_nodes s v = Some n"
    and g: "g (vn_refcount n) = refs s (ex(v := k)) v" "0 < g (vn_refcount n)"
  shows "fs_inv (bump g v s) (ex(v := k))"
proof (rule fs_inv_same_tree [OF inv])
  fix w m assume m: "fs_nodes (bump g v s) w = Some m"
  show "length (rn_data m) = rn_capacity m \<and> vn_size m \<le> rn_capacity m \<and> rn_capacity m < two64
      \<and> vn_refcount m = refs (bump g v s) (ex(v := k)) w \<and> 0 < vn_refcount m"
  proof (cases "w = v")
    case True
    then have "m = n\<lparr>vn_refcount := g (vn_refcount n)\<rparr>" using m n by simp
    then show ?thesis using True fs_invD(1) [OF inv n] g by (simp add: node_ok_def)
  next
    case False
    then have "fs_nodes s w = Some m" using m by simp
    then show ?thesis using False fs_invD [OF inv] by (auto simp: node_ok_def refs_upd)
  qed
next
  fix w assume "0 < (ex(v := k)) w"
  then show "fs_nodes (bump g v s) w \<noteq> None" using inv n by (auto simp: fs_inv_def split: if_splits)
qed (use inv in \<open>simp_all add: fs_inv_files\<close>)

text \<open>Taking and dropping a reference.\<close>

abbreviation taken :: "nat \<Rightarrow> vfs \<Rightarrow> vfs" where
  "taken v s \<equiv> bump Suc v s"

lemma vnode_ref_ok:
  assumes inv: "fs_inv s ex" and n: "fs_nodes s v = Some n" and e: "ex v < 1000"
  shows "vnode_ref v s = Some (taken v s)" "fs_inv (taken v s) (ex(v := ex v + 1))"
proof -
  have f: "files_ok s" using inv by (rule fs_inv_files)
  have "holders s v < 2147483648" using holders_le [of s v] f by (auto simp: files_ok_def)
  then have "vn_refcount n + 1 < 4294967296" using fs_invD(2) [OF inv n] e by (simp add: refs_def)
  moreover have "0 < v" using fs_invD(1) [OF inv n] by (simp add: node_ok_def)
  ultimately show "vnode_ref v s = Some (taken v s)"
    using n by (simp add: vnode_ref_def put_node_def bump_def)
  show "fs_inv (taken v s) (ex(v := ex v + 1))"
    by (rule fs_inv_bump [OF inv n]) (use fs_invD(2) [OF inv n] in \<open>auto simp: refs_def\<close>)
qed

lemma vnode_unref_shared:
  assumes n: "fs_nodes s v = Some n" "0 < v" and r: "2 \<le> vn_refcount n"
  shows "vnode_unref v s = Some (bump (\<lambda>r. r - 1) v s)"
  using assms by (simp add: vnode_unref_def put_node_def bump_def)

lemma vnode_unref_taken:
  assumes inv: "fs_inv s ex" and n: "fs_nodes s v = Some n"
  shows "vnode_unref v (taken v s) = Some s"
proof -
  have "0 < vn_refcount n" "0 < v" using fs_invD [OF inv n] by (auto simp: node_ok_def)
  then have "vnode_unref v (taken v s) = Some (bump (\<lambda>r. r - 1) v (taken v s))"
    using n by (intro vnode_unref_shared [of _ _ "n\<lparr>vn_refcount := Suc (vn_refcount n)\<rparr>"]) auto
  then show ?thesis using bump_bump [OF n, of "\<lambda>r. r - 1" Suc] by simp
qed

text \<open>The last reference to a node that is not linked: its node is freed.\<close>

definition freed :: "nat \<Rightarrow> vfs \<Rightarrow> vfs" where
  "freed v s = s\<lparr>fs_nodes := (fs_nodes s)(v := None)\<rparr>"

lemma freed_simps [simp]:
  "fs_files (freed v s) = fs_files s" "fs_root (freed v s) = fs_root s"
  "fs_allocs (freed v s) = fs_allocs s" "fs_oom (freed v s) = fs_oom s" "fs_junk (freed v s) = fs_junk s"
  "fs_nodes (freed v s) w = (if w = v then None else fs_nodes s w)"
  by (simp_all add: freed_def)

lemma vnode_unref_last:
  assumes "fs_nodes s v = Some n" "0 < v" "vn_refcount n = 1" "rn_children n = []"
  shows "vnode_unref v s = Some (freed v s)"
  using assms by (simp add: vnode_unref_def put_node_def ramfs_destroy_def freed_def)

lemma fs_inv_freed:
  assumes inv: "fs_inv s ex" and n: "fs_nodes s v = Some n" and e: "0 < ex v" and r: "vn_refcount n = 1"
  shows "fs_inv (freed v s) (ex(v := 0))" "rn_children n = []" "ex v = 1"
proof -
  have rf: "refs s ex v = 1" using fs_invD(2) [OF inv n] r by simp
  then have nl: "\<not> linked s v" and h: "holders s v = 0" and "ex v = 1" using e by (auto simp: refs_def split: if_splits)
  show "ex v = 1" by fact
  show ch: "rn_children n = []" using fs_invD(1) [OF inv n] nl by (simp add: node_ok_def)
  have fin: "finite (dom (fs_files s))" using fs_inv_files [OF inv] by (simp add: files_ok_def)
  then have nofile: "fl_vn fl \<noteq> v" if "fs_files s f = Some fl" for f fl
  proof -
    have "finite {f. \<exists>fl. fs_files s f = Some fl \<and> fl_vn fl = v}"
      by (rule finite_subset [OF _ fin]) auto
    then show ?thesis using h that by (auto simp: holders_def)
  qed
  have kids: "kids (freed v s) w = kids s w" for w
    using ch n by (simp add: kids_def)
  have lk: "linked (freed v s) w = linked s w" for w by (simp add: linked_def kids)
  have rw: "refs (freed v s) (ex(v := 0)) w = refs s ex w" if "w \<noteq> v" for w
    using that by (simp add: refs_def lk holders_def)
  have ok: "node_ok (freed v s) w m" if m: "fs_nodes s w = Some m" for w m
  proof -
    have "v \<notin> set (rn_children m)" using nl unfolding linked_def by (metis kids_Some m)
    then have "inj_on (\<lambda>c. map_option rn_name (fs_nodes (freed v s) c)) (set (rn_children m))
        = inj_on (\<lambda>c. map_option rn_name (fs_nodes s c)) (set (rn_children m))"
      by (intro inj_on_cong) auto
    then show ?thesis using fs_invD(1) [OF inv m] \<open>v \<notin> set (rn_children m)\<close>
      unfolding node_ok_def lk by (auto split: if_splits)
  qed
  have "fs_root s \<noteq> v" using nl by (auto simp: linked_def)
  moreover have "files_ok (freed v s)" using fs_inv_files [OF inv] nofile by (auto simp: files_ok_def)
  moreover have "node_ok (freed v s) w m \<and> vn_refcount m = refs (freed v s) (ex(v := 0)) w \<and> 0 < refs (freed v s) (ex(v := 0)) w"
    if "fs_nodes (freed v s) w = Some m" for w m
    using that ok rw fs_invD [OF inv, of w m] by (auto split: if_splits)
  ultimately show "fs_inv (freed v s) (ex(v := 0))" using inv by (auto simp: fs_inv_def)
qed

lemma vnode_unref_ok:
  assumes inv: "fs_inv s ex" and e: "0 < ex v"
  shows "\<exists>s'. vnode_unref v s = Some s' \<and> fs_inv s' (ex(v := ex v - 1)) \<and> (s' = bump (\<lambda>r. r - 1) v s \<or> s' = freed v s)"
proof -
  obtain n where n: "fs_nodes s v = Some n" using inv e unfolding fs_inv_def by blast
  note D = fs_invD [OF inv n]
  have v: "0 < v" using D(1) by (simp add: node_ok_def)
  show ?thesis
  proof (cases "vn_refcount n = 1")
    case True
    note F = fs_inv_freed [OF inv n e True]
    have "vnode_unref v s = Some (freed v s)" by (rule vnode_unref_last) (use n v True F in auto)
    then show ?thesis using F by auto
  next
    case False
    then have r2: "2 \<le> vn_refcount n" using D by linarith
    then have "vnode_unref v s = Some (bump (\<lambda>r. r - 1) v s)" using n v by (intro vnode_unref_shared)
    moreover have "fs_inv (bump (\<lambda>r. r - 1) v s) (ex(v := ex v - 1))"
      by (rule fs_inv_bump [OF inv n]) (use D(2) r2 e in \<open>auto simp: refs_def\<close>)
    ultimately show ?thesis by blast
  qed
qed

section \<open>Directories\<close>

text \<open>The child of \<open>d\<close> with a given name.\<close>

definition child :: "vfs \<Rightarrow> nat \<Rightarrow> string \<Rightarrow> nat option" where
  "child s d name = find (\<lambda>c. map_option rn_name (fs_nodes s c) = Some name) (kids s d)"

lemma find_child_eq:
  assumes "\<forall>c \<in> set cs. fs_nodes s c \<noteq> None \<and> c \<noteq> 0"
  shows "find_child s cs name =
    Some (case find (\<lambda>c. map_option rn_name (fs_nodes s c) = Some name) cs of Some c \<Rightarrow> c | None \<Rightarrow> 0)"
  using assms by (induction cs) auto

lemma ramfs_find_eq:
  assumes inv: "fs_inv s ex" and n: "fs_nodes s d = Some n"
  shows "ramfs_find s d name = Some (case child s d name of Some c \<Rightarrow> c | None \<Rightarrow> 0)"
proof -
  have "\<forall>c \<in> set (rn_children n). fs_nodes s c \<noteq> None \<and> c \<noteq> 0"
    using fs_invD(1) [OF inv n] by (auto simp: node_ok_def)
  then show ?thesis using n find_child_eq by (simp add: ramfs_find_def child_def kids_def)
qed

lemma childD:
  assumes inv: "fs_inv s ex" and c: "child s d name = Some c"
  shows "\<exists>n m. fs_nodes s d = Some n \<and> c \<in> set (rn_children n) \<and> fs_nodes s c = Some m \<and> rn_name m = name
    \<and> vn_parent m = d \<and> c \<noteq> fs_root s \<and> d < c \<and> c \<noteq> 0 \<and> linked s c"
proof -
  have k: "c \<in> set (kids s d)" and nm: "map_option rn_name (fs_nodes s c) = Some name"
    using c by (auto simp: child_def find_Some_iff)
  then obtain n where n: "fs_nodes s d = Some n" "c \<in> set (rn_children n)"
    by (cases "fs_nodes s d") (auto simp: kids_def)
  then obtain m where m: "fs_nodes s c = Some m" "vn_parent m = d" "c \<noteq> fs_root s" "d < c"
    using fs_invD(1) [OF inv n(1)] by (auto simp: node_ok_def)
  moreover have "rn_name m = name" using nm m(1) by simp
  moreover have "linked s c" using k by (auto simp: linked_def)
  ultimately show ?thesis using n by (intro exI [of _ n] exI [of _ m]) auto
qed

lemma child_None: "child s d name = None \<Longrightarrow> c \<in> set (kids s d) \<Longrightarrow> map_option rn_name (fs_nodes s c) \<noteq> Some name"
  by (auto simp: child_def find_None_iff)

lemma dead_node:
  assumes inv: "fs_inv s ex" and v: "fs_nodes s v = None"
  shows "\<not> linked s v" "holders s v = 0" "ex v = 0"
proof -
  have "v \<notin> set (kids s d)" for d
  proof
    assume "v \<in> set (kids s d)"
    then obtain n where "fs_nodes s d = Some n" "v \<in> set (rn_children n)" by (cases "fs_nodes s d") (auto simp: kids_def)
    then show False using fs_invD(1) [OF inv] v by (fastforce simp: node_ok_def)
  qed
  moreover have "v \<noteq> fs_root s" using inv v by (auto simp: fs_inv_def)
  ultimately show "\<not> linked s v" by (simp add: linked_def)
  have "{f. \<exists>fl. fs_files s f = Some fl \<and> fl_vn fl = v} = {}"
    using fs_inv_files [OF inv] v unfolding files_ok_def by fastforce
  then show "holders s v = 0" unfolding holders_def by (simp only: card.empty)
  show "ex v = 0" using inv v unfolding fs_inv_def by blast
qed

lemma child_unique_dir:
  assumes inv: "fs_inv s ex" and "c \<in> set (kids s d)" "c \<in> set (kids s d')"
  shows "d = d'"
proof -
  have "\<exists>m. fs_nodes s c = Some m \<and> vn_parent m = e" if k: "c \<in> set (kids s e)" for e
  proof -
    obtain n where n: "fs_nodes s e = Some n" "c \<in> set (rn_children n)"
      using k by (cases "fs_nodes s e") (auto simp: kids_def)
    then show ?thesis using fs_invD(1) [OF inv n(1)] by (auto simp: node_ok_def)
  qed
  from this [OF assms(2)] this [OF assms(3)] show ?thesis by auto
qed

text \<open>The state after a new node \<open>c\<close> is linked into \<open>dir\<close>.\<close>

definition grown_tree :: "nat \<Rightarrow> nat \<Rightarrow> ramfs_node \<Rightarrow> ramfs_node \<Rightarrow> nat \<Rightarrow> vfs \<Rightarrow> vfs" where
  "grown_tree dir c d m i s = s\<lparr>fs_nodes := (fs_nodes s)(c \<mapsto> m, dir \<mapsto> d\<lparr>rn_children := c # rn_children d\<rparr>),
     fs_allocs := c, fs_next_ino := i\<rparr>"

lemma grown_tree_simps [simp]:
  "fs_files (grown_tree dir c d m i s) = fs_files s" "fs_root (grown_tree dir c d m i s) = fs_root s"
  "fs_allocs (grown_tree dir c d m i s) = c" "fs_oom (grown_tree dir c d m i s) = fs_oom s"
  "fs_junk (grown_tree dir c d m i s) = fs_junk s"
  "fs_nodes (grown_tree dir c d m i s) w =
     (if w = dir then Some (d\<lparr>rn_children := c # rn_children d\<rparr>) else if w = c then Some m else fs_nodes s w)"
  by (simp_all add: grown_tree_def)

lemma fs_inv_grown_tree:
  assumes inv: "fs_inv s ex" and d: "fs_nodes s dir = Some d" "vn_type d = VFS_TYPE_DIR" "linked s dir"
    and c: "c = fs_allocs s + 1" and nm: "child s dir (rn_name m) = None" "length (rn_name m) \<le> VFS_NAME_MAX"
    and m: "vn_type m \<in> {VFS_TYPE_REG, VFS_TYPE_DIR}" "rn_children m = []" "rn_data m = []" "rn_capacity m = 0"
      "vn_size m = 0" "vn_parent m = dir" "vn_refcount m = 1"
  shows "fs_inv (grown_tree dir c d m i s) ex"
proof -
  let ?s = "grown_tree dir c d m i s"
  have fresh: "fs_nodes s c = None"
  proof (rule ccontr)
    assume "fs_nodes s c \<noteq> None"
    then obtain n where "fs_nodes s c = Some n" by auto
    then show False using fs_invD(1) [OF inv] c by (fastforce simp: node_ok_def)
  qed
  note dead = dead_node [OF inv fresh]
  have dc: "dir \<noteq> c" "dir < c" using d(1) fresh fs_invD(1) [OF inv d(1)] c by (auto simp: node_ok_def)
  have kd: "kids ?s w = (if w = dir then c # kids s dir else kids s w)" for w
    using d(1) fresh m(2) dc by (simp add: kids_def)
  have lk: "linked ?s w \<longleftrightarrow> linked s w \<or> w = c" for w
    unfolding linked_def kd using d(1) by auto
  have rf: "refs ?s ex w = (if w = c then 1 else refs s ex w)" for w
    using dead by (simp add: refs_def lk holders_def)
  have live: "fs_nodes ?s w = None \<longleftrightarrow> fs_nodes s w = None \<and> w \<noteq> c" for w using d(1) by simp
  have name: "map_option rn_name (fs_nodes ?s w) = (if w = c then Some (rn_name m) else map_option rn_name (fs_nodes s w))" for w
    using d(1) dc by simp
  have par: "(\<exists>x. fs_nodes ?s w = Some x \<and> vn_parent x = e) \<longleftrightarrow> (if w = c then e = dir else \<exists>x. fs_nodes s w = Some x \<and> vn_parent x = e)" for w e
    using d(1) dc m(6) by auto
  have croot: "c \<noteq> fs_root s" using dead(1) by (auto simp: linked_def)
  have ok: "node_ok ?s w x" if x: "fs_nodes ?s w = Some x" for w x
  proof (cases "w = c")
    case True
    then have "x = m" using x dc by simp
    then show ?thesis using True m nm(2) c by (auto simp: node_ok_def)
  next
    case False
    define y where "y = (if w = dir then d else x)"
    have y: "fs_nodes s w = Some y" using x False d(1) by (simp add: y_def split: if_splits)
    note N = fs_invD(1) [OF inv y]
    have old: "\<And>b. b \<in> set (rn_children y) \<Longrightarrow> b \<noteq> c \<and> w < b \<and> b \<noteq> fs_root s \<and> (\<exists>z. fs_nodes s b = Some z \<and> vn_parent z = w)"
      using N fresh by (fastforce simp: node_ok_def)
    have xc: "rn_children x = (if w = dir then c # rn_children y else rn_children y)"
      using x False d(1) by (auto simp: y_def split: if_splits)
    have rest: "vn_type x = vn_type y" "rn_data x = rn_data y" "rn_capacity x = rn_capacity y" "vn_size x = vn_size y" "rn_name x = rn_name y"
      using x False d(1) by (auto simp: y_def split: if_splits)
    have "c \<notin> set (rn_children y)" using old by blast
    then have inj: "inj_on (\<lambda>b. map_option rn_name (fs_nodes ?s b)) (set (rn_children x))"
    proof -
      have "inj_on (\<lambda>b. map_option rn_name (fs_nodes ?s b)) (set (rn_children y))"
        using N \<open>c \<notin> _\<close> unfolding name node_ok_def by (auto simp: inj_on_def)
      moreover have "map_option rn_name (fs_nodes s b) \<noteq> Some (rn_name m)" if "w = dir" "b \<in> set (rn_children y)" for b
        using child_None [OF nm(1), of b] that kids_Some [OF y] by metis
      ultimately show ?thesis unfolding xc name using \<open>c \<notin> _\<close>
        by (cases "w = dir") (auto simp: image_iff dest: sym)
    qed
    have ch: "\<exists>z. fs_nodes ?s b = Some z \<and> vn_parent z = w \<and> b \<noteq> fs_root ?s \<and> w < b" if "b \<in> set (rn_children x)" for b
      using that par [of b w] xc old [of b] dc croot by (auto split: if_splits)
    have "vn_type y = VFS_TYPE_REG \<Longrightarrow> w \<noteq> dir" using d(2) y d(1) by (auto simp: y_def)
    moreover have "distinct (rn_children x)" using N xc \<open>c \<notin> _\<close> by (simp add: node_ok_def)
    moreover have "linked ?s w \<or> rn_children x = []" using N d(3) xc lk by (auto simp: node_ok_def)
    ultimately show ?thesis using N inj ch xc c unfolding node_ok_def rest by (auto split: if_splits)
  qed
  have "vn_refcount x = refs ?s ex w \<and> 0 < refs ?s ex w" if "fs_nodes ?s w = Some x" for w x
    using that fs_invD [OF inv] d(1) m(7) dc unfolding rf by (auto split: if_splits)
  moreover have "files_ok ?s" using fs_inv_files [OF inv] live c by (fastforce simp: files_ok_def)
  moreover have "\<exists>r. fs_nodes ?s (fs_root ?s) = Some r \<and> vn_type r = VFS_TYPE_DIR \<and> vn_parent r = fs_root ?s"
    using inv d(1) croot by (auto simp: fs_inv_def)
  ultimately show ?thesis using ok inv live by (simp add: fs_inv_def)
qed

text \<open>The state after \<open>c\<close> leaves the child list of \<open>dir\<close>: the reference of the list is now
  held by the operation.\<close>

definition cut_tree :: "nat \<Rightarrow> nat \<Rightarrow> ramfs_node \<Rightarrow> vfs \<Rightarrow> vfs" where
  "cut_tree dir c d s = put_node dir (d\<lparr>rn_children := remove1 c (rn_children d)\<rparr>) s"

lemma cut_tree_simps [simp]:
  "fs_files (cut_tree dir c d s) = fs_files s" "fs_root (cut_tree dir c d s) = fs_root s"
  "fs_allocs (cut_tree dir c d s) = fs_allocs s" "fs_oom (cut_tree dir c d s) = fs_oom s"
  "fs_junk (cut_tree dir c d s) = fs_junk s"
  "fs_nodes (cut_tree dir c d s) w =
     (if w = dir then Some (d\<lparr>rn_children := remove1 c (rn_children d)\<rparr>) else fs_nodes s w)"
  by (simp_all add: cut_tree_def put_node_def)

lemma fs_inv_cut_tree:
  assumes inv: "fs_inv s ex" and d: "fs_nodes s dir = Some d" and c: "c \<in> set (rn_children d)"
    and cm: "fs_nodes s c = Some cm" "rn_children cm = []"
  shows "fs_inv (cut_tree dir c d s) (ex(c := ex c + 1))"
proof -
  let ?s = "cut_tree dir c d s" and ?ex = "ex(c := ex c + 1)"
  note D = fs_invD(1) [OF inv d]
  have set_d: "set (remove1 c (rn_children d)) = set (rn_children d) - {c}"
    using D by (simp add: node_ok_def)
  have kc: "c \<in> set (kids s dir)" using c kids_Some [OF d] by simp
  have dc: "dir < c" "c \<noteq> fs_root s" using D c by (auto simp: node_ok_def)
  have kd: "set (kids ?s w) = set (kids s w) - {c}" for w
    using set_d d child_unique_dir [OF inv kc, of w] by (auto simp: kids_def split: if_splits option.splits)
  have lk: "linked ?s w \<longleftrightarrow> linked s w \<and> w \<noteq> c" for w
    unfolding linked_def kd using dc by auto
  have lc: "linked s c" using kc by (auto simp: linked_def)
  have rf: "refs ?s ?ex w = refs s ex w" for w
    using lc by (simp add: refs_def lk holders_def)
  have live: "fs_nodes ?s w = None \<longleftrightarrow> fs_nodes s w = None" for w using d by simp
  have name: "map_option rn_name (fs_nodes ?s w) = map_option rn_name (fs_nodes s w)" for w using d by simp
  have ok: "node_ok ?s w x \<and> vn_refcount x = refs ?s ?ex w \<and> 0 < refs ?s ?ex w" if x: "fs_nodes ?s w = Some x" for w x
  proof -
    define y where "y = (if w = dir then d else x)"
    have y: "fs_nodes s w = Some y" using x d by (simp add: y_def split: if_splits)
    note N = fs_invD [OF inv y]
    have xc: "rn_children x = (if w = dir then remove1 c (rn_children y) else rn_children y)"
      using x d by (auto simp: y_def split: if_splits)
    have sub: "set (rn_children x) \<subseteq> set (rn_children y)" unfolding xc using set_remove1_subset [of c "rn_children y"] by simp
    have rest: "vn_type x = vn_type y" "rn_data x = rn_data y" "rn_capacity x = rn_capacity y" "vn_size x = vn_size y"
        "rn_name x = rn_name y" "vn_refcount x = vn_refcount y"
      using x d by (auto simp: y_def split: if_splits)
    have "inj_on (\<lambda>b. map_option rn_name (fs_nodes s b)) (set (rn_children x))"
      using N(1) sub unfolding node_ok_def by (meson inj_on_subset)
    moreover have "distinct (rn_children x)" using N(1) xc by (simp add: node_ok_def)
    moreover have "linked ?s w \<or> rn_children x = []"
    proof (cases "w = c")
      case True
      then show ?thesis using xc y cm dc by simp
    next
      case False
      then show ?thesis using N(1) xc lk by (auto simp: node_ok_def)
    qed
    moreover have "\<exists>m. fs_nodes ?s b = Some m \<and> vn_parent m = w \<and> b \<noteq> fs_root ?s \<and> w < b" if "b \<in> set (rn_children x)" for b
    proof -
      obtain m where "fs_nodes s b = Some m" "vn_parent m = w" "b \<noteq> fs_root s" "w < b"
        using N(1) sub \<open>b \<in> _\<close> unfolding node_ok_def by blast
      then show ?thesis using d by auto
    qed
    moreover have "vn_type y = VFS_TYPE_REG \<and> rn_children x = [] \<or> vn_type y = VFS_TYPE_DIR"
      using N(1) xc by (auto simp: node_ok_def)
    ultimately have "node_ok ?s w x" using N(1) unfolding node_ok_def name rest by simp
    then show ?thesis using N(2,3) rest rf by simp
  qed
  moreover have "files_ok ?s" using fs_inv_files [OF inv] live unfolding files_ok_def by simp
  moreover have "\<exists>r. fs_nodes ?s (fs_root ?s) = Some r \<and> vn_type r = VFS_TYPE_DIR \<and> vn_parent r = fs_root ?s"
    using inv d by (auto simp: fs_inv_def)
  moreover have "0 < ?ex v \<Longrightarrow> fs_nodes ?s v \<noteq> None" for v
    using inv cm live unfolding fs_inv_def by (auto split: if_splits)
  ultimately show ?thesis by (simp add: fs_inv_def)
qed

section \<open>File data\<close>

lemma fs_inv_put_data:
  assumes inv: "fs_inv s ex" and n: "fs_nodes s v = Some n"
    and m: "shape m = shape n" "vn_refcount m = vn_refcount n"
      "length (rn_data m) = rn_capacity m" "vn_size m \<le> rn_capacity m" "rn_capacity m < two64"
    and a: "fs_allocs s \<le> a"
  shows "fs_inv (put_node v m (s\<lparr>fs_allocs := a\<rparr>)) ex"
proof -
  let ?s = "put_node v m (s\<lparr>fs_allocs := a\<rparr>)"
  have nodes: "fs_nodes ?s w = (if w = v then Some m else fs_nodes s w)" for w by (simp add: put_node_def)
  have st: "same_tree s ?s" using n m(1) a nodes by (simp add: same_tree_def) (simp add: put_node_def)
  have rf: "refs ?s ex w = refs s ex w" for w
    by (simp add: refs_def same_tree_linked [OF st] holders_def) (simp add: put_node_def)
  show ?thesis
  proof (rule fs_inv_same_tree [OF inv st])
    have "fs_files ?s = fs_files s" "fs_allocs ?s = a" by (simp_all add: put_node_def)
    then show "files_ok ?s" using files_ok_mono [OF fs_inv_files [OF inv]] a same_tree_live [OF st] by simp
  next
    fix w x assume "fs_nodes ?s w = Some x"
    then show "length (rn_data x) = rn_capacity x \<and> vn_size x \<le> rn_capacity x \<and> rn_capacity x < two64
        \<and> vn_refcount x = refs ?s ex w \<and> 0 < vn_refcount x"
      using fs_invD [OF inv] n m nodes rf by (auto simp: node_ok_def split: if_splits)
  next
    fix w assume "0 < ex w"
    then show "fs_nodes ?s w \<noteq> None" using inv same_tree_live [OF st] unfolding fs_inv_def by blast
  qed
qed

lemma fs_inv_alloc:
  assumes inv: "fs_inv s ex" and a: "fs_allocs s \<le> a"
  shows "fs_inv (s\<lparr>fs_allocs := a\<rparr>) ex"
proof -
  obtain r where "fs_nodes s (fs_root s) = Some r" using inv by (auto simp: fs_inv_def)
  then have "fs_inv (put_node (fs_root s) r (s\<lparr>fs_allocs := a\<rparr>)) ex"
    using fs_invD(1) [OF inv] by (intro fs_inv_put_data [OF inv _ _ _ _ _ _ a]) (auto simp: node_ok_def)
  moreover have "put_node (fs_root s) r (s\<lparr>fs_allocs := a\<rparr>) = s\<lparr>fs_allocs := a\<rparr>"
    using \<open>fs_nodes s (fs_root s) = Some r\<close> by (simp add: put_node_def map_upd_triv)
  ultimately show ?thesis by simp
qed

text \<open>The bytes of a file.\<close>

definition content :: "ramfs_node \<Rightarrow> byte list" where
  "content n = take (vn_size n) (rn_data n)"

lemma ramfs_read_ok:
  assumes inv: "fs_inv s ex" and n: "fs_nodes s v = Some n"
  shows "ramfs_read v k off s =
    Some (if vn_type n \<noteq> VFS_TYPE_REG then Inl (- EISDIR) else Inr (take k (drop off (content n))))"
proof -
  have "vn_size n \<le> length (rn_data n)" using fs_invD(1) [OF inv n] by (simp add: node_ok_def)
  then show ?thesis using n
    by (auto simp: ramfs_read_def content_def drop_take min_def)
qed

lemma grow_cap_returns:
  assumes "0 < c" "c < two64"
  shows "\<exists>g. grow_cap c need = Some g \<and> (\<forall>k. g = Inr k \<longrightarrow> need \<le> k \<and> c \<le> k \<and> k < two64) \<and> (\<forall>e. g = Inl e \<longrightarrow> e = - ENOMEM)"
  using assms
proof (induction "need - c" arbitrary: c rule: less_induct)
  case less
  show ?case
  proof (cases "c < need \<and> c \<le> 4611686018427387904")
    case True
    then have "need - 2 * c < need - c" using less.prems by linarith
    moreover have "2 * c < two64" using True by simp
    ultimately obtain g where
      "grow_cap (2 * c) need = Some g" "\<forall>k. g = Inr k \<longrightarrow> need \<le> k \<and> 2 * c \<le> k \<and> k < two64" "\<forall>e. g = Inl e \<longrightarrow> e = - ENOMEM"
      using less.hyps [of "2 * c"] less.prems(1) by auto
    then show ?thesis using True by (subst grow_cap.simps) auto
  next
    case False
    then show ?thesis using less.prems by (subst grow_cap.simps) auto
  qed
qed

lemma length_grown_data [simp]: "length (grown_data d sz off newcap junk) = newcap"
  by (simp add: grown_data_def)

lemma grow_for_returns:
  assumes inv: "fs_inv s ex" and n: "fs_nodes s v = Some n"
  shows "\<exists>g a. grow_for n need off s = Some (g, s\<lparr>fs_allocs := a\<rparr>) \<and> fs_allocs s \<le> a \<and> (\<forall>e. g = Inl e \<longrightarrow> e = - ENOMEM) \<and>
    (\<forall>m. g = Inr m \<longrightarrow> need \<le> rn_capacity m \<and> length (rn_data m) = rn_capacity m \<and> vn_size m = vn_size n \<and> vn_size n \<le> rn_capacity m \<and> rn_capacity m < two64 \<and>
      shape m = shape n \<and> vn_refcount m = vn_refcount n \<and> content m = content n \<and> vn_type m = vn_type n)"
proof (cases "rn_capacity n < need")
  case False
  then show ?thesis using fs_invD(1) [OF inv n] by (intro exI [of _ "Inr n"] exI [of _ "fs_allocs s"]) (auto simp: grow_for_def node_ok_def)
next
  case True
  define c where "c = (if rn_capacity n \<noteq> 0 then rn_capacity n else 64)"
  have sz: "vn_size n \<le> rn_capacity n" "length (rn_data n) = rn_capacity n"
    using fs_invD(1) [OF inv n] by (auto simp: node_ok_def)
  have "0 < c" "c < two64" using fs_invD(1) [OF inv n] by (auto simp: c_def node_ok_def)
  then obtain g where g: "grow_cap c need = Some g" "\<forall>k. g = Inr k \<longrightarrow> need \<le> k \<and> c \<le> k \<and> k < two64" "\<forall>e. g = Inl e \<longrightarrow> e = - ENOMEM"
    using grow_cap_returns by blast
  show ?thesis
  proof (cases g)
    case (Inl e)
    then show ?thesis using True g unfolding grow_for_def c_def [symmetric]
      by (intro exI [of _ "Inl e"] exI [of _ "fs_allocs s"]) simp
  next
    case (Inr k)
    let ?m = "n\<lparr>rn_data := grown_data (rn_data n) (vn_size n) off k (fs_junk s (fs_allocs s)), rn_capacity := k\<rparr>"
    have k: "need \<le> k" "vn_size n \<le> k" "k < two64" using g(2) Inr True sz by (auto simp: c_def split: if_splits)
    have "content ?m = content n"
      using sz k by (intro nth_equalityI) (auto simp: content_def grown_data_def)
    then show ?thesis
      using True g Inr k sz unfolding grow_for_def c_def [symmetric]
      by (intro exI [of _ "if fs_oom s (fs_allocs s) k then Inl (- ENOMEM) else Inr ?m"] exI [of _ "fs_allocs s + 1"])
        (simp add: alloc_def Let_def)
  qed
qed

lemma put_bytes_Some:
  "off + length buf \<le> length d \<Longrightarrow> put_bytes d off buf = Some (take off d @ buf @ drop (off + length buf) d)"
  by (simp add: put_bytes_def)

lemma ramfs_write_ok:
  assumes inv: "fs_inv s ex" and n: "fs_nodes s v = Some n" and ty: "vn_type n = VFS_TYPE_REG"
    and off: "off < two64" "length buf < two64"
  shows "\<exists>r a m. ramfs_write v buf off s = Some (r, put_node v m (s\<lparr>fs_allocs := a\<rparr>)) \<and>
    fs_inv (put_node v m (s\<lparr>fs_allocs := a\<rparr>)) ex \<and> shape m = shape n \<and> vn_type m = VFS_TYPE_REG \<and>
    (if r < 0 \<or> buf = [] then m = n \<and> (r = - EINVAL \<or> r = - ENOMEM \<or> r = 0)
     else r = int (length buf) \<and> vn_size m = max (vn_size n) (off + length buf) \<and> off + length buf < two64 \<and>
       take (length buf) (drop off (content m)) = buf \<and>
       (\<forall>i < length (content n). i < off \<or> off + length buf \<le> i \<longrightarrow> content m ! i = content n ! i))"
proof -
  have N: "length (rn_data n) = rn_capacity n" "vn_size n \<le> rn_capacity n" "rn_capacity n < two64"
    using fs_invD(1) [OF inv n] by (auto simp: node_ok_def)
  have keep: "fs_inv (put_node v n (s\<lparr>fs_allocs := a\<rparr>)) ex" if "fs_allocs s \<le> a" for a
    using fs_inv_put_data [OF inv n refl refl N that] .
  have same: "put_node v n (s\<lparr>fs_allocs := a\<rparr>) = s\<lparr>fs_allocs := a\<rparr>" for a
    using n by (simp add: put_node_def map_upd_triv)
  let ?need = "wrap64 (off + length buf)"
  consider "buf = []" | "buf \<noteq> []" "?need < off" | "buf \<noteq> []" "off \<le> ?need" by linarith
  then show ?thesis
  proof cases
    case 1
    then show ?thesis using keep [of "fs_allocs s"] same [of "fs_allocs s"] n ty
      by (intro exI [of _ 0] exI [of _ "fs_allocs s"] exI [of _ n]) (simp add: ramfs_write_def)
  next
    case 2
    then show ?thesis using keep [of "fs_allocs s"] same [of "fs_allocs s"] n ty
      by (intro exI [of _ "- EINVAL"] exI [of _ "fs_allocs s"] exI [of _ n]) (simp add: ramfs_write_def kconst)
  next
    case 3
    have need: "?need = off + length buf" "off + length buf < two64"
    proof -
      show lt: "off + length buf < two64"
      proof (rule ccontr)
        assume over: "\<not> off + length buf < two64"
        then have "?need = off + length buf - two64"
          using off by (simp add: wrap64_def mod_if)
        then show False using 3 off over by linarith
      qed
      then show "?need = off + length buf" by simp
    qed
    obtain g a where g: "grow_for n ?need off s = Some (g, s\<lparr>fs_allocs := a\<rparr>)" "fs_allocs s \<le> a" "\<forall>e. g = Inl e \<longrightarrow> e = - ENOMEM"
      "\<forall>m. g = Inr m \<longrightarrow> ?need \<le> rn_capacity m \<and> length (rn_data m) = rn_capacity m \<and> vn_size m = vn_size n \<and> vn_size n \<le> rn_capacity m \<and> rn_capacity m < two64 \<and>
        shape m = shape n \<and> vn_refcount m = vn_refcount n \<and> content m = content n \<and> vn_type m = vn_type n"
      using grow_for_returns [OF inv n] by blast
    show ?thesis
    proof (cases g)
      case (Inl e)
      then show ?thesis using keep [OF g(2)] same [of a] n ty g 3
        by (intro exI [of _ "- ENOMEM"] exI [of _ a] exI [of _ n]) (simp add: ramfs_write_def kconst Let_def)
    next
      case (Inr m)
      note G = g(4) [rule_format, OF Inr, unfolded need]
      define m' where "m' = m\<lparr>rn_data := take off (rn_data m) @ buf @ drop (off + length buf) (rn_data m),
          vn_size := max (vn_size n) (off + length buf)\<rparr>"
      have "fs_inv (put_node v m' (s\<lparr>fs_allocs := a\<rparr>)) ex"
        by (rule fs_inv_put_data [OF inv n _ _ _ _ _ g(2)]) (use G in \<open>auto simp: m'_def\<close>)
      moreover have "ramfs_write v buf off s = Some (int (length buf), put_node v m' (s\<lparr>fs_allocs := a\<rparr>))"
        using n ty 3 need g(1) Inr G put_bytes_Some [of off buf "rn_data m"]
        by (simp add: ramfs_write_def Let_def m'_def max_def)
      moreover have "take (length buf) (drop off (content m')) = buf"
        using G by (simp add: content_def m'_def drop_take)
      moreover have "content m' ! i = content n ! i" if "i < length (content n)" "i < off \<or> off + length buf \<le> i" for i
      proof -
        have "content m' ! i = content m ! i"
          using that G by (auto simp: content_def m'_def nth_append)
        then show ?thesis using G by simp
      qed
      ultimately show ?thesis using G 3 need ty
        by (intro exI [of _ "int (length buf)"] exI [of _ a] exI [of _ m']) (auto simp: m'_def)
    qed
  qed
qed

lemma ramfs_truncate_ok:
  assumes inv: "fs_inv s ex" and n: "fs_nodes s v = Some n" and ty: "vn_type n = VFS_TYPE_REG" and z: "sz < two64"
  shows "\<exists>r a m. ramfs_truncate v sz s = Some (r, put_node v m (s\<lparr>fs_allocs := a\<rparr>)) \<and>
    fs_inv (put_node v m (s\<lparr>fs_allocs := a\<rparr>)) ex \<and> shape m = shape n \<and>
    (if r = 0 then content m = take sz (content n) @ replicate (sz - length (content n)) 0 else r = - ENOMEM \<and> m = n)"
proof -
  have N: "length (rn_data n) = rn_capacity n" "vn_size n \<le> rn_capacity n" "rn_capacity n < two64"
    using fs_invD(1) [OF inv n] by (auto simp: node_ok_def)
  have keep: "fs_inv (put_node v m (s\<lparr>fs_allocs := a\<rparr>)) ex"
    if "fs_allocs s \<le> a" "shape m = shape n" "vn_refcount m = vn_refcount n" "length (rn_data m) = rn_capacity m" "vn_size m \<le> rn_capacity m" "rn_capacity m < two64" for a m
    using fs_inv_put_data [OF inv n that(2-6,1)] .
  have same: "put_node v n (s\<lparr>fs_allocs := a\<rparr>) = s\<lparr>fs_allocs := a\<rparr>" for a
    using n by (simp add: put_node_def map_upd_triv)
  consider "sz = vn_size n" | "sz \<noteq> vn_size n" "sz \<le> rn_capacity n" "vn_size n < sz"
    | "sz \<noteq> vn_size n" "sz \<le> rn_capacity n" "\<not> vn_size n < sz" | "rn_capacity n < sz" by linarith
  then show ?thesis
  proof cases
    case 1
    then show ?thesis using keep [of "fs_allocs s" n] same [of "fs_allocs s"] n ty N
      by (intro exI [of _ 0] exI [of _ "fs_allocs s"] exI [of _ n]) (simp add: ramfs_truncate_def content_def)
  next
    case 2
    define m where "m = n\<lparr>rn_data := take (vn_size n) (rn_data n) @ replicate (sz - vn_size n) 0 @ drop sz (rn_data n), vn_size := sz\<rparr>"
    have "ramfs_truncate v sz s = Some (0, put_node v m s)"
      using 2 n ty N put_bytes_Some [of "vn_size n" "replicate (sz - vn_size n) 0" "rn_data n"]
      by (simp add: ramfs_truncate_def m_def)
    moreover have "s\<lparr>fs_allocs := fs_allocs s\<rparr> = s" by simp
    moreover have "content m = take sz (content n) @ replicate (sz - length (content n)) 0"
      using 2 N by (simp add: content_def m_def min_absorb2)
    ultimately show ?thesis using keep [of "fs_allocs s" m] 2 N
      by (intro exI [of _ 0] exI [of _ "fs_allocs s"] exI [of _ m]) (simp add: m_def)
  next
    case 3
    define m where "m = n\<lparr>vn_size := sz\<rparr>"
    have "ramfs_truncate v sz s = Some (0, put_node v m (s\<lparr>fs_allocs := fs_allocs s\<rparr>))"
      using 3 n ty by (simp add: ramfs_truncate_def m_def)
    moreover have "content m = take sz (content n) @ replicate (sz - length (content n)) 0"
      using 3 N by (simp add: content_def m_def min_def)
    ultimately show ?thesis using keep [of "fs_allocs s" m] 3 N
      by (intro exI [of _ 0] exI [of _ "fs_allocs s"] exI [of _ m]) (simp add: m_def)
  next
    case 4
    show ?thesis
    proof (cases "fs_oom s (fs_allocs s) sz")
      case True
      then show ?thesis using 4 n ty N keep [of "fs_allocs s + 1" n] same
        by (intro exI [of _ "- ENOMEM"] exI [of _ "fs_allocs s + 1"] exI [of _ n])
          (simp add: ramfs_truncate_def alloc_def Let_def kconst)
    next
      case False
      define m where "m = n\<lparr>rn_data := take (vn_size n) (rn_data n) @ replicate (sz - vn_size n) 0, rn_capacity := sz, vn_size := sz\<rparr>"
      have "ramfs_truncate v sz s = Some (0, put_node v m (s\<lparr>fs_allocs := fs_allocs s + 1\<rparr>))"
        using 4 False n ty N by (simp add: ramfs_truncate_def alloc_def Let_def m_def)
      moreover have "content m = take sz (content n) @ replicate (sz - length (content n)) 0"
        using 4 N by (simp add: content_def m_def min_def)
      ultimately show ?thesis using keep [of "fs_allocs s + 1" m] 4 N z
        by (intro exI [of _ 0] exI [of _ "fs_allocs s + 1"] exI [of _ m]) (simp add: m_def)
    qed
  qed
qed

section \<open>Directory operations keep the invariant\<close>

lemma ramfs_lookup_ok:
  assumes inv: "fs_inv s ex" and d: "fs_nodes s dir = Some d" and e: "\<And>v. ex v < 1000"
  shows "ramfs_lookup dir name s =
    Some (case child s dir name of None \<Rightarrow> (Inl (- ENOENT), s) | Some c \<Rightarrow> (Inr c, taken c s))"
proof (cases "child s dir name")
  case None
  then show ?thesis using ramfs_find_eq [OF inv d] by (simp add: ramfs_lookup_def)
next
  case (Some c)
  then obtain m where "fs_nodes s c = Some m" "c \<noteq> 0" using childD [OF inv] by blast
  then show ?thesis using Some ramfs_find_eq [OF inv d] vnode_ref_ok(1) [OF inv _ e]
    by (simp add: ramfs_lookup_def)
qed

definition fresh_node :: "nat \<Rightarrow> string \<Rightarrow> u32 \<Rightarrow> u32 \<Rightarrow> vfs \<Rightarrow> ramfs_node" where
  "fresh_node dir name ty md s = \<lparr>vn_ino = fs_next_ino s, vn_type = ty, vn_mode = md, vn_refcount = 1,
     vn_size = 0, vn_parent = dir, rn_name = name, rn_data = [], rn_capacity = 0, rn_children = []\<rparr>"

definition with_child :: "nat \<Rightarrow> string \<Rightarrow> u32 \<Rightarrow> u32 \<Rightarrow> vfs \<Rightarrow> vfs" where
  "with_child dir name ty md s = grown_tree dir (fs_allocs s + 1) (the (fs_nodes s dir))
     (fresh_node dir name ty md s) (wrap64 (fs_next_ino s + 1)) s"

lemma new_child_eq:
  assumes inv: "fs_inv s ex" and d: "fs_nodes s dir = Some d" and nm: "length name \<le> VFS_NAME_MAX"
    and mem: "\<not> fs_oom s (fs_allocs s) 344"
  shows "\<exists>s1. ramfs_new_node ty md s = (fs_allocs s + 1, s1) \<and> link_child dir name (fs_allocs s + 1) s1 = Some (with_child dir name ty md s)"
proof -
  have "dir \<le> fs_allocs s" using fs_invD(1) [OF inv d] by (simp add: node_ok_def)
  then have "dir \<noteq> fs_allocs s + 1" by simp
  then show ?thesis using d nm mem
    by (simp add: ramfs_new_node_def alloc_def Let_def link_child_def put_node_def with_child_def grown_tree_def fresh_node_def)
qed

lemma new_node_oom:
  "fs_oom s (fs_allocs s) 344 \<Longrightarrow> ramfs_new_node ty md s = (0, s\<lparr>fs_allocs := fs_allocs s + 1\<rparr>)"
  by (simp add: ramfs_new_node_def alloc_def Let_def)

lemma with_child_inv:
  assumes inv: "fs_inv s ex" and d: "fs_nodes s dir = Some d" "vn_type d = VFS_TYPE_DIR" "linked s dir"
    and nm: "child s dir name = None" "length name \<le> VFS_NAME_MAX" and ty: "ty \<in> {VFS_TYPE_REG, VFS_TYPE_DIR}"
  shows "fs_inv (with_child dir name ty md s) ex"
  unfolding with_child_def
  by (rule fs_inv_grown_tree [OF inv]) (use d nm ty in \<open>auto simp: fresh_node_def\<close>)

lemma with_child_simps [simp]:
  "fs_files (with_child dir name ty md s) = fs_files s" "fs_root (with_child dir name ty md s) = fs_root s"
  "fs_allocs (with_child dir name ty md s) = fs_allocs s + 1"
  by (simp_all add: with_child_def)

lemma ramfs_mkdir_ok:
  assumes inv: "fs_inv s ex" and d: "fs_nodes s dir = Some d" "vn_type d = VFS_TYPE_DIR" "linked s dir"
    and nm: "length name \<le> VFS_NAME_MAX"
  shows "\<exists>r s'. ramfs_mkdir dir name md s = Some (r, s') \<and> fs_inv s' ex \<and>
    (if child s dir name \<noteq> None then r = - EEXIST \<and> s' = s
     else if fs_oom s (fs_allocs s) 344 then r = - ENOMEM \<and> s' = s\<lparr>fs_allocs := fs_allocs s + 1\<rparr>
     else r = 0 \<and> s' = with_child dir name VFS_TYPE_DIR md s)"
proof (cases "child s dir name")
  case (Some c)
  then have "c \<noteq> 0" using childD [OF inv Some] by blast
  then show ?thesis using Some ramfs_find_eq [OF inv d(1)] inv by (simp add: ramfs_mkdir_def)
next
  case None
  show ?thesis
  proof (cases "fs_oom s (fs_allocs s) 344")
    case True
    then show ?thesis using None ramfs_find_eq [OF inv d(1)] fs_inv_alloc [OF inv, of "fs_allocs s + 1"] new_node_oom
      by (simp add: ramfs_mkdir_def)
  next
    case False
    obtain s1 where "ramfs_new_node VFS_TYPE_DIR md s = (fs_allocs s + 1, s1)"
      "link_child dir name (fs_allocs s + 1) s1 = Some (with_child dir name VFS_TYPE_DIR md s)"
      using new_child_eq [OF inv d(1) nm False] by blast
    then show ?thesis using None False ramfs_find_eq [OF inv d(1)] with_child_inv [OF inv d None nm]
      by (simp add: ramfs_mkdir_def)
  qed
qed

lemma ramfs_create_ok:
  assumes inv: "fs_inv s ex" and d: "fs_nodes s dir = Some d" "vn_type d = VFS_TYPE_DIR" "linked s dir"
    and nm: "length name \<le> VFS_NAME_MAX" and e: "\<And>v. ex v < 1000"
  shows "\<exists>r s'. ramfs_create dir name md s = Some (r, s') \<and>
    (if child s dir name \<noteq> None then r = Inl (- EEXIST) \<and> s' = s \<and> fs_inv s' ex
     else if fs_oom s (fs_allocs s) 344 then r = Inl (- ENOMEM) \<and> s' = s\<lparr>fs_allocs := fs_allocs s + 1\<rparr> \<and> fs_inv s' ex
     else r = Inr (fs_allocs s + 1) \<and> s' = taken (fs_allocs s + 1) (with_child dir name VFS_TYPE_REG md s) \<and>
       fs_inv s' (ex(fs_allocs s + 1 := 1)))"
proof (cases "child s dir name")
  case (Some c)
  then have "c \<noteq> 0" using childD [OF inv Some] by blast
  then show ?thesis using Some ramfs_find_eq [OF inv d(1)] inv by (simp add: ramfs_create_def)
next
  case None
  show ?thesis
  proof (cases "fs_oom s (fs_allocs s) 344")
    case True
    then show ?thesis using None ramfs_find_eq [OF inv d(1)] fs_inv_alloc [OF inv, of "fs_allocs s + 1"] new_node_oom
      by (simp add: ramfs_create_def)
  next
    case False
    let ?v = "fs_allocs s + 1" and ?s = "with_child dir name VFS_TYPE_REG md s"
    obtain s1 where "ramfs_new_node VFS_TYPE_REG md s = (?v, s1)" "link_child dir name ?v s1 = Some ?s"
      using new_child_eq [OF inv d(1) nm False] by blast
    moreover have i: "fs_inv ?s ex" using with_child_inv [OF inv d None nm] by simp
    moreover have "fs_nodes s ?v = None"
    proof (rule ccontr)
      assume "fs_nodes s ?v \<noteq> None"
      then obtain x where "fs_nodes s ?v = Some x" by auto
      then show False using fs_invD(1) [OF inv] by (fastforce simp: node_ok_def)
    qed
    ultimately have e0: "ex ?v = 0" and L: "ramfs_new_node VFS_TYPE_REG md s = (?v, s1)" "link_child dir name ?v s1 = Some ?s"
      using dead_node(3) [OF inv] by blast+
    obtain x where x: "fs_nodes ?s ?v = Some x" by (cases "dir = ?v") (auto simp: with_child_def)
    have "fs_inv (taken ?v ?s) (ex(?v := 1))" using vnode_ref_ok(2) [OF i x e] e0 by simp
    then show ?thesis using None False ramfs_find_eq [OF inv d(1)] vnode_ref_ok(1) [OF i x e] L
      by (simp add: ramfs_create_def)
  qed
qed

text \<open>What removing \<open>c\<close> from \<open>dir\<close> leaves: the list without \<open>c\<close>, and the node freed unless an
  open file holds it.\<close>

definition without_child :: "nat \<Rightarrow> nat \<Rightarrow> vfs \<Rightarrow> vfs \<Rightarrow> bool" where
  "without_child dir c s s' \<longleftrightarrow>
     s' = bump (\<lambda>r. r - 1) c (cut_tree dir c (the (fs_nodes s dir)) s) \<or>
     s' = freed c (cut_tree dir c (the (fs_nodes s dir)) s)"

lemma unlink_child_ok:
  assumes inv: "fs_inv s ex" and d: "fs_nodes s dir = Some d" and c: "c \<in> set (rn_children d)"
    and cm: "fs_nodes s c = Some cm" "rn_children cm = []"
  shows "\<exists>s'. unlink_child dir c s = Some s' \<and> fs_inv s' ex \<and> without_child dir c s s'"
proof -
  have i: "fs_inv (cut_tree dir c d s) (ex(c := ex c + 1))" by (rule fs_inv_cut_tree [OF inv d c cm])
  obtain s' where "vnode_unref c (cut_tree dir c d s) = Some s'" "fs_inv s' ex"
    "s' = bump (\<lambda>r. r - 1) c (cut_tree dir c d s) \<or> s' = freed c (cut_tree dir c d s)"
    using vnode_unref_ok [OF i, of c] by auto
  then show ?thesis using d by (auto simp: unlink_child_def cut_tree_def without_child_def)
qed

lemma ramfs_unlink_ok:
  assumes inv: "fs_inv s ex" and d: "fs_nodes s dir = Some d"
  shows "\<exists>r s'. ramfs_unlink dir name s = Some (r, s') \<and> fs_inv s' ex \<and>
    (case child s dir name of
       None \<Rightarrow> r = - ENOENT \<and> s' = s
     | Some c \<Rightarrow> if vn_type (the (fs_nodes s c)) = VFS_TYPE_DIR then r = - EISDIR \<and> s' = s
                 else r = 0 \<and> without_child dir c s s')"
proof (cases "child s dir name")
  case None
  then show ?thesis using ramfs_find_eq [OF inv d] inv by (simp add: ramfs_unlink_def)
next
  case (Some c)
  obtain m where m: "c \<in> set (rn_children d)" "fs_nodes s c = Some m" "c \<noteq> 0"
    using childD [OF inv Some] d by auto
  have find: "ramfs_find s dir name = Some c" using Some ramfs_find_eq [OF inv d] by simp
  show ?thesis
  proof (cases "vn_type m = VFS_TYPE_DIR")
    case True
    then show ?thesis using Some m find inv by (simp add: ramfs_unlink_def)
  next
    case False
    then have "rn_children m = []" using fs_invD(1) [OF inv m(2)] by (auto simp: node_ok_def)
    then show ?thesis using unlink_child_ok [OF inv d m(1,2)] Some m find False by (auto simp: ramfs_unlink_def)
  qed
qed

lemma ramfs_rmdir_ok:
  assumes inv: "fs_inv s ex" and d: "fs_nodes s dir = Some d"
  shows "\<exists>r s'. ramfs_rmdir dir name s = Some (r, s') \<and> fs_inv s' ex \<and>
    (case child s dir name of
       None \<Rightarrow> r = - ENOENT \<and> s' = s
     | Some c \<Rightarrow> if vn_type (the (fs_nodes s c)) \<noteq> VFS_TYPE_DIR then r = - ENOTDIR \<and> s' = s
                 else if kids s c \<noteq> [] then r = - ENOTEMPTY \<and> s' = s
                 else r = 0 \<and> without_child dir c s s')"
proof (cases "child s dir name")
  case None
  then show ?thesis using ramfs_find_eq [OF inv d] inv by (simp add: ramfs_rmdir_def)
next
  case (Some c)
  obtain m where m: "c \<in> set (rn_children d)" "fs_nodes s c = Some m" "c \<noteq> 0"
    using childD [OF inv Some] d by auto
  have find: "ramfs_find s dir name = Some c" using Some ramfs_find_eq [OF inv d] by simp
  show ?thesis
  proof (cases "vn_type m = VFS_TYPE_DIR \<and> rn_children m = []")
    case True
    then show ?thesis using unlink_child_ok [OF inv d m(1,2)] Some m find by (auto simp: ramfs_rmdir_def kids_def)
  next
    case False
    then show ?thesis using Some m find inv by (auto simp: ramfs_rmdir_def kids_def)
  qed
qed

end
