(* ===== verification/Vfs.thy ===== *)
theory Vfs
  imports Ramfs
begin

text \<open>
  The VFS core of the file server: \<^verbatim>\<open>userspace/vfs/vfs.c\<close> (paths, open files, directory
  mutation) and the descriptor tables of \<^verbatim>\<open>userspace/vfs/fd_table.c\<close>.  Every node carries the
  RAMFS operation table, so that a call through \<^verbatim>\<open>vn->ops\<close> is a call of the RAMFS function
  and the tests for missing operations never succeed.
\<close>

abbreviation VFS_PATH_MAX :: nat where "VFS_PATH_MAX \<equiv> 1024"
abbreviation VFS_O_RDONLY :: u32 where "VFS_O_RDONLY \<equiv> 0x0001"
abbreviation VFS_O_WRONLY :: u32 where "VFS_O_WRONLY \<equiv> 0x0002"
abbreviation VFS_O_RDWR :: u32 where "VFS_O_RDWR \<equiv> 0x0003"
abbreviation VFS_O_CREAT :: u32 where "VFS_O_CREAT \<equiv> 0x0100"
abbreviation VFS_O_EXCL :: u32 where "VFS_O_EXCL \<equiv> 0x0200"
abbreviation VFS_O_TRUNC :: u32 where "VFS_O_TRUNC \<equiv> 0x0400"
abbreviation VFS_O_APPEND :: u32 where "VFS_O_APPEND \<equiv> 0x0800"

definition acc_read :: "u32 \<Rightarrow> bool" where
  "acc_read flags \<longleftrightarrow> flags AND VFS_O_RDWR \<noteq> VFS_O_WRONLY"

definition acc_write :: "u32 \<Rightarrow> bool" where
  "acc_write flags \<longleftrightarrow> flags AND VFS_O_RDWR \<noteq> VFS_O_RDONLY"

section \<open>Path walking\<close>

definition skip_slashes :: "string \<Rightarrow> string" where
  "skip_slashes p = dropWhile (\<lambda>c. c = CHR ''/'') p"

definition path_name :: "string \<Rightarrow> string" where
  "path_name p = takeWhile (\<lambda>c. c \<noteq> CHR ''/'') p"

definition path_rest :: "string \<Rightarrow> string" where
  "path_rest p = dropWhile (\<lambda>c. c \<noteq> CHR ''/'') p"

lemma path_rest_less: "skip_slashes p \<noteq> [] \<Longrightarrow> length (path_rest (skip_slashes p)) < length p"
proof -
  assume ne: "skip_slashes p \<noteq> []"
  then obtain c q where q: "skip_slashes p = c # q" "c \<noteq> CHR ''/''"
    by (metis (mono_tags, lifting) hd_dropWhile list.exhaust_sel skip_slashes_def)
  have "length (path_rest (skip_slashes p)) \<le> length q"
    unfolding path_rest_def q(1) using q(2) by (simp add: length_dropWhile_le)
  moreover have "length (skip_slashes p) \<le> length p"
    unfolding skip_slashes_def by (rule length_dropWhile_le)
  ultimately show ?thesis using q(1) by simp
qed

function resolve_loop :: "nat \<Rightarrow> string \<Rightarrow> vfs \<Rightarrow> ((int + nat) \<times> vfs) option" where
  "resolve_loop cur p s =
    (let q = skip_slashes p; name = path_name q in
     if q = [] then Some (Inr cur, s)
     else if VFS_NAME_MAX < length name then do { s \<leftarrow> vnode_unref cur s; Some (Inl (- ENAMETOOLONG), s) }
     else if name = ''.'' then resolve_loop cur (path_rest q) s
     else if name = ''..'' then do {
       n \<leftarrow> fs_nodes s cur;
       let par = (if vn_parent n \<noteq> 0 then vn_parent n else cur);
       if par \<noteq> cur
       then do { s \<leftarrow> vnode_ref par s; s \<leftarrow> vnode_unref cur s; resolve_loop par (path_rest q) s }
       else resolve_loop cur (path_rest q) s }
     else do {
       n \<leftarrow> fs_nodes s cur;
       if vn_type n \<noteq> VFS_TYPE_DIR then do { s \<leftarrow> vnode_unref cur s; Some (Inl (- ENOTDIR), s) }
       else do {
         (r, s) \<leftarrow> ramfs_lookup cur name s;
         case r of
           Inl e \<Rightarrow> do { s \<leftarrow> vnode_unref cur s; Some (Inl e, s) }
         | Inr nx \<Rightarrow> do { s \<leftarrow> vnode_unref cur s; resolve_loop nx (path_rest q) s } } })"
  by pat_completeness auto
termination
  by (relation "measure (\<lambda>(cur, p, s). length p)") (auto simp: path_rest_less)

declare resolve_loop.simps [simp del]

definition resolve_from :: "nat \<Rightarrow> string \<Rightarrow> vfs \<Rightarrow> ((int + nat) \<times> vfs) option" where
  "resolve_from start path s = do { s \<leftarrow> vnode_ref start s; resolve_loop start path s }"

definition vfs_init :: "vfs \<Rightarrow> vfs" where
  "vfs_init s = s\<lparr>fs_root := 0\<rparr>"

definition vfs_mount_root :: "nat \<Rightarrow> vfs \<Rightarrow> vfs option" where
  "vfs_mount_root root s = do {
     s \<leftarrow> (if fs_root s \<noteq> 0 then vnode_unref (fs_root s) s else Some s);
     let s = s\<lparr>fs_root := root\<rparr>;
     if root \<noteq> 0 then do { n \<leftarrow> fs_nodes s root; Some (put_node root (n\<lparr>vn_parent := root\<rparr>) s) }
     else Some s }"

definition vfs_resolve :: "string \<Rightarrow> vfs \<Rightarrow> ((int + nat) \<times> vfs) option" where
  "vfs_resolve path s =
    (if fs_root s = 0 then Some (Inl (- ENODEV), s)
     else if path = [] \<or> hd path \<noteq> CHR ''/'' then Some (Inl (- EINVAL), s)
     else resolve_from (fs_root s) path s)"

text \<open>The directory part (up to and including the last slash) and the last name of a path.\<close>

definition path_last :: "string \<Rightarrow> string" where
  "path_last path = rev (takeWhile (\<lambda>c. c \<noteq> CHR ''/'') (rev path))"

definition path_dir :: "string \<Rightarrow> string" where
  "path_dir path = rev (dropWhile (\<lambda>c. c \<noteq> CHR ''/'') (rev path))"

definition split_parent :: "string \<Rightarrow> vfs \<Rightarrow> ((int + (string \<times> nat)) \<times> vfs) option" where
  "split_parent path s =
    (if length path = 0 \<or> VFS_PATH_MAX < length path then Some (Inl (- ENAMETOOLONG), s)
     else if path_last path = [] then Some (Inl (- EINVAL), s)
     else if VFS_NAME_MAX < length (path_last path) then Some (Inl (- ENAMETOOLONG), s)
     else do {
       (r, s) \<leftarrow> vfs_resolve (if path_dir path = [] then ''/'' else path_dir path) s;
       Some (map_sum id (Pair (path_last path)) r, s) })"

section \<open>Open files\<close>

definition open_file :: "nat \<Rightarrow> u32 \<Rightarrow> vfs \<Rightarrow> ((int + nat) \<times> vfs) option" where
  "open_file v flags s = do {
     let (f, s) = alloc 24 s;
     if f = 0 then do { s \<leftarrow> vnode_unref v s; Some (Inl (- ENOMEM), s) }
     else Some (Inr f, s\<lparr>fs_files := (fs_files s)(f \<mapsto>
            \<lparr>fl_vn = v, fl_offset = 0, fl_flags = flags, fl_refcount = 1\<rparr>)\<rparr>) }"

definition open_trunc :: "nat \<Rightarrow> u32 \<Rightarrow> vfs \<Rightarrow> ((int + nat) \<times> vfs) option" where
  "open_trunc v flags s = do {
     n \<leftarrow> fs_nodes s v;
     if flags AND VFS_O_TRUNC \<noteq> 0 \<and> acc_write flags \<and> vn_type n = VFS_TYPE_REG
     then do {
       (r, s) \<leftarrow> ramfs_truncate v 0 s;
       if r < 0 then do { s \<leftarrow> vnode_unref v s; Some (Inl r, s) } else open_file v flags s }
     else open_file v flags s }"

definition vfs_open :: "string \<Rightarrow> u32 \<Rightarrow> u32 \<Rightarrow> vfs \<Rightarrow> ((int + nat) \<times> vfs) option" where
  "vfs_open path flags md s = do {
     (r, s) \<leftarrow> vfs_resolve path s;
     case r of
       Inl e \<Rightarrow>
         if e = - ENOENT \<and> flags AND VFS_O_CREAT \<noteq> 0 then do {
           (r, s) \<leftarrow> split_parent path s;
           case r of
             Inl e \<Rightarrow> Some (Inl e, s)
           | Inr (name, parent) \<Rightarrow> do {
               n \<leftarrow> fs_nodes s parent;
               if vn_type n \<noteq> VFS_TYPE_DIR
               then do { s \<leftarrow> vnode_unref parent s; Some (Inl (- ENOTDIR), s) }
               else do {
                 (r, s) \<leftarrow> ramfs_create parent name md s;
                 s \<leftarrow> vnode_unref parent s;
                 case r of Inl e \<Rightarrow> Some (Inl e, s) | Inr v \<Rightarrow> open_trunc v flags s } } }
         else Some (Inl e, s)
     | Inr v \<Rightarrow>
         if flags AND (VFS_O_CREAT OR VFS_O_EXCL) = (VFS_O_CREAT OR VFS_O_EXCL)
         then do { s \<leftarrow> vnode_unref v s; Some (Inl (- EEXIST), s) }
         else open_trunc v flags s }"

definition vfs_close :: "nat \<Rightarrow> vfs \<Rightarrow> (int \<times> vfs) option" where
  "vfs_close f s =
    (if f = 0 then Some (- EINVAL, s)
     else do {
       fl \<leftarrow> fs_files s f;
       if 1 < fl_refcount fl
       then Some (0, s\<lparr>fs_files := (fs_files s)(f \<mapsto> fl\<lparr>fl_refcount := fl_refcount fl - 1\<rparr>)\<rparr>)
       else do {
         s \<leftarrow> vnode_unref (fl_vn fl) s;
         Some (0, s\<lparr>fs_files := (fs_files s)(f := None)\<rparr>) } })"

section \<open>Input and output\<close>

definition put_offset :: "nat \<Rightarrow> nat \<Rightarrow> vfs \<Rightarrow> vfs" where
  "put_offset f off s = s\<lparr>fs_files := (fs_files s)(f := map_option (\<lambda>fl. fl\<lparr>fl_offset := off\<rparr>) (fs_files s f))\<rparr>"

definition vfs_read :: "nat \<Rightarrow> nat \<Rightarrow> vfs \<Rightarrow> ((int + byte list) \<times> vfs) option" where
  "vfs_read f n s =
    (if f = 0 then Some (Inl (- EINVAL), s)
     else do {
       fl \<leftarrow> fs_files s f;
       if \<not> acc_read (fl_flags fl) then Some (Inl (- EBADF), s)
       else do {
         r \<leftarrow> ramfs_read (fl_vn fl) n (fl_offset fl) s;
         case r of
           Inl e \<Rightarrow> Some (Inl e, s)
         | Inr buf \<Rightarrow> Some (Inr buf, put_offset f (wrap64 (fl_offset fl + length buf)) s) } })"

definition vfs_write :: "nat \<Rightarrow> byte list \<Rightarrow> vfs \<Rightarrow> (int \<times> vfs) option" where
  "vfs_write f buf s =
    (if f = 0 then Some (- EINVAL, s)
     else do {
       fl \<leftarrow> fs_files s f;
       if \<not> acc_write (fl_flags fl) then Some (- EBADF, s)
       else do {
         vn \<leftarrow> fs_nodes s (fl_vn fl);
         let off = (if fl_flags fl AND VFS_O_APPEND \<noteq> 0 then vn_size vn else fl_offset fl);
         (r, s) \<leftarrow> ramfs_write (fl_vn fl) buf off s;
         Some (r, if 0 < r then put_offset f (wrap64 (off + nat r)) s else s) } })"

text \<open>\<open>(i64)x\<close> of an unsigned 64-bit value, and the wrap-around of a signed sum.\<close>

definition as_i64 :: "int \<Rightarrow> int" where
  "as_i64 x = (x + 9223372036854775808) mod 18446744073709551616 - 9223372036854775808"

definition vfs_seek :: "nat \<Rightarrow> int \<Rightarrow> int \<Rightarrow> vfs \<Rightarrow> (int \<times> vfs) option" where
  "vfs_seek f off whence s =
    (if f = 0 then Some (- EINVAL, s)
     else do {
       fl \<leftarrow> fs_files s f;
       base \<leftarrow> (if whence = 0 then Some (Some 0)
         else if whence = 1 then Some (Some (as_i64 (int (fl_offset fl))))
         else if whence = 2 then do { vn \<leftarrow> fs_nodes s (fl_vn fl); Some (Some (as_i64 (int (vn_size vn)))) }
         else Some None);
       case base of
         None \<Rightarrow> Some (- EINVAL, s)
       | Some b \<Rightarrow>
           let new_off = as_i64 (b + off) in
           if new_off < 0 then Some (- EINVAL, s) else Some (new_off, put_offset f (nat new_off) s) })"

section \<open>Directory mutation\<close>

definition in_parent :: "string \<Rightarrow> (nat \<Rightarrow> string \<Rightarrow> vfs \<Rightarrow> (int \<times> vfs) option) \<Rightarrow> vfs \<Rightarrow> (int \<times> vfs) option" where
  "in_parent path act s = do {
     (r, s) \<leftarrow> split_parent path s;
     case r of
       Inl e \<Rightarrow> Some (e, s)
     | Inr (name, parent) \<Rightarrow> do {
         n \<leftarrow> fs_nodes s parent;
         if vn_type n \<noteq> VFS_TYPE_DIR
         then do { s \<leftarrow> vnode_unref parent s; Some (- ENOTDIR, s) }
         else do {
           (r, s) \<leftarrow> act parent name s;
           s \<leftarrow> vnode_unref parent s;
           Some (r, s) } } }"

definition vfs_mkdir :: "string \<Rightarrow> u32 \<Rightarrow> vfs \<Rightarrow> (int \<times> vfs) option" where
  "vfs_mkdir path md s = in_parent path (\<lambda>d name. ramfs_mkdir d name md) s"

definition vfs_unlink :: "string \<Rightarrow> vfs \<Rightarrow> (int \<times> vfs) option" where
  "vfs_unlink path s = in_parent path ramfs_unlink s"

definition vfs_rmdir :: "string \<Rightarrow> vfs \<Rightarrow> (int \<times> vfs) option" where
  "vfs_rmdir path s = in_parent path ramfs_rmdir s"

section \<open>Descriptor tables\<close>

abbreviation VFS_FD_MAX :: nat where "VFS_FD_MAX \<equiv> 64"

type_synonym vfs_fd_table = "nat list"

definition vfs_fd_init :: vfs_fd_table where
  "vfs_fd_init = replicate VFS_FD_MAX 0"

definition vfs_fd_alloc :: "vfs_fd_table \<Rightarrow> nat \<Rightarrow> (int + nat) \<times> vfs_fd_table" where
  "vfs_fd_alloc t f =
    (case find (\<lambda>i. t ! i = 0) [0..<VFS_FD_MAX] of
       Some i \<Rightarrow> (Inr i, t[i := f])
     | None \<Rightarrow> (Inl (- EMFILE), t))"

definition vfs_fd_get :: "vfs_fd_table \<Rightarrow> int \<Rightarrow> nat" where
  "vfs_fd_get t fd = (if fd < 0 \<or> int VFS_FD_MAX \<le> fd then 0 else t ! nat fd)"

definition vfs_fd_close :: "vfs_fd_table \<Rightarrow> int \<Rightarrow> vfs \<Rightarrow> (int \<times> vfs_fd_table \<times> vfs) option" where
  "vfs_fd_close t fd s =
    (if fd < 0 \<or> int VFS_FD_MAX \<le> fd then Some (- EBADF, t, s)
     else if t ! nat fd = 0 then Some (- EBADF, t, s)
     else do { (_, s) \<leftarrow> vfs_close (t ! nat fd) s; Some (0, t[nat fd := 0], s) })"


section \<open>Resolution refines a walk of the tree\<close>

text \<open>The components of a path and the walk along them: no references, no change of state.\<close>

function comps :: "string \<Rightarrow> string list" where
  "comps p = (let q = skip_slashes p in if q = [] then [] else path_name q # comps (path_rest q))"
  by auto
termination by (relation "measure length") (auto simp: path_rest_less)

declare comps.simps [simp del]

primrec walk :: "vfs \<Rightarrow> nat \<Rightarrow> string list \<Rightarrow> int + nat" where
  "walk s cur [] = Inr cur"
| "walk s cur (name # cs) =
    (if VFS_NAME_MAX < length name then Inl (- ENAMETOOLONG)
     else if name = ''.'' then walk s cur cs
     else if name = ''..'' then walk s (vn_parent (the (fs_nodes s cur))) cs
     else if vn_type (the (fs_nodes s cur)) \<noteq> VFS_TYPE_DIR then Inl (- ENOTDIR)
     else case child s cur name of None \<Rightarrow> Inl (- ENOENT) | Some c \<Rightarrow> walk s c cs)"

lemma child_bump [simp]: "child (bump g v s) d name = child s d name"
proof -
  have "map_option rn_name (fs_nodes (bump g v s) c) = map_option rn_name (fs_nodes s c)" for c
    by (cases "fs_nodes s c") auto
  then show ?thesis by (simp add: child_def)
qed

lemma linked_live: "fs_inv s ex \<Longrightarrow> linked s v \<Longrightarrow> \<exists>n. fs_nodes s v = Some n"
  using dead_node(1) by blast

lemma linked_parent:
  assumes inv: "fs_inv s ex" and n: "fs_nodes s v = Some n" and l: "linked s v"
  shows "linked s (vn_parent n)" "vn_parent n \<noteq> 0"
proof -
  have "linked s (vn_parent n)"
  proof (cases "v = fs_root s")
    case True
    then show ?thesis using inv n by (auto simp: fs_inv_def linked_def)
  next
    case False
    then obtain d where "v \<in> set (kids s d)" using l by (auto simp: linked_def)
    then obtain m where m: "fs_nodes s d = Some m" "v \<in> set (rn_children m)"
      by (cases "fs_nodes s d") (auto simp: kids_def)
    note N = fs_invD(1) [OF inv m(1)]
    have "vn_parent n = d" using N m(2) n by (auto simp: node_ok_def)
    moreover have "linked s d" using N m(2) by (auto simp: node_ok_def)
    ultimately show ?thesis by simp
  qed
  then show "linked s (vn_parent n)" .
  then obtain m where "fs_nodes s (vn_parent n) = Some m" using linked_live [OF inv] by blast
  then show "vn_parent n \<noteq> 0" using fs_invD(1) [OF inv] by (auto simp: node_ok_def)
qed

lemma walk_linked:
  assumes inv: "fs_inv s ex"
  shows "linked s cur \<Longrightarrow> walk s cur cs = Inr v \<Longrightarrow> linked s v"
proof (induction cs arbitrary: cur)
  case (Cons name cs)
  obtain n where n: "fs_nodes s cur = Some n" using linked_live [OF inv Cons.prems(1)] by blast
  note P = linked_parent(1) [OF inv n Cons.prems(1)]
  have c: "linked s c" if "child s cur name = Some c" for c using childD [OF inv that] by blast
  show ?case using Cons.prems Cons.IH P c n by (auto split: if_splits option.splits)
qed simp

lemma unref_other_taken:
  assumes inv: "fs_inv s ex" and v: "fs_nodes s v = Some n" and w: "fs_nodes s w = Some m" and "v \<noteq> w" "ex w < 1000"
  shows "vnode_unref v (taken w (taken v s)) = Some (taken w s)"
proof -
  have "fs_inv (taken w s) (ex(w := ex w + 1))" by (rule vnode_ref_ok(2) [OF inv w assms(5)])
  then have "vnode_unref v (taken v (taken w s)) = Some (taken w s)"
    using v \<open>v \<noteq> w\<close> by (intro vnode_unref_taken [of _ _ _ n]) auto
  then show ?thesis using bump_comm [OF \<open>v \<noteq> w\<close>, of Suc Suc s] by simp
qed

lemma resolve_loop_walk:
  assumes inv: "fs_inv s ex" and e: "\<And>v. ex v < 900" and l: "linked s cur"
  shows "resolve_loop cur p (taken cur s) =
      Some (case walk s cur (comps p) of Inl e \<Rightarrow> (Inl e, s) | Inr v \<Rightarrow> (Inr v, taken v s))"
  using l
proof (induction p arbitrary: cur rule: comps.induct)
  case (1 p)
  define q where "q = skip_slashes p"
  define name where "name = path_name q"
  obtain n where n: "fs_nodes s cur = Some n" using linked_live [OF inv "1.prems"] by blast
  have drop: "vnode_unref cur (taken cur s) = Some s" by (rule vnode_unref_taken [OF inv n])
  have it: "fs_inv (taken cur s) (ex(cur := ex cur + 1))" using vnode_ref_ok(2) [OF inv n] e [of cur] by simp
  have et: "(ex(cur := ex cur + 1)) v < 1000" for v using e [of v] e [of cur] by simp
  have nt: "fs_nodes (taken cur s) cur = Some (n\<lparr>vn_refcount := Suc (vn_refcount n)\<rparr>)" using n by simp
  show ?case
  proof (cases "q = []")
    case True
    then have "comps p = []" by (subst comps.simps) (simp add: q_def)
    then show ?thesis using True "1.prems" by (subst resolve_loop.simps) (simp add: q_def)
  next
    case q: False
    have cs: "comps p = name # comps (path_rest q)"
      using q by (subst comps.simps) (simp add: q_def name_def Let_def)
    note IH = "1.IH" [OF q_def q]
    have R: "resolve_loop cur p (taken cur s) =
     (if VFS_NAME_MAX < length name then Some (Inl (- ENAMETOOLONG), s)
      else if name = ''.'' then resolve_loop cur (path_rest q) (taken cur s)
      else if name = ''..'' then
        (if vn_parent n \<noteq> cur then resolve_loop (vn_parent n) (path_rest q) (taken (vn_parent n) s)
         else resolve_loop cur (path_rest q) (taken cur s))
      else if vn_type n \<noteq> VFS_TYPE_DIR then Some (Inl (- ENOTDIR), s)
      else case child s cur name of None \<Rightarrow> Some (Inl (- ENOENT), s)
        | Some c \<Rightarrow> resolve_loop c (path_rest q) (taken c s))"
    proof -
      note P = linked_parent [OF inv n "1.prems"]
      obtain pm where pm: "fs_nodes s (vn_parent n) = Some pm" using linked_live [OF inv P(1)] by blast
      have up: "vn_parent n \<noteq> cur \<Longrightarrow> vnode_ref (vn_parent n) (taken cur s) = Some (taken (vn_parent n) (taken cur s))"
        by (rule vnode_ref_ok(1) [OF it _ et]) (use pm in auto)
      have up': "vn_parent n \<noteq> cur \<Longrightarrow> vnode_unref cur (taken (vn_parent n) (taken cur s)) = Some (taken (vn_parent n) s)"
        using e [of "vn_parent n"] by (intro unref_other_taken [OF inv n pm]) auto
      have down: "vnode_unref cur (taken c (taken cur s)) = Some (taken c s)" if ch: "child s cur name = Some c" for c
      proof -
        obtain m where "fs_nodes s c = Some m" "cur < c" using childD [OF inv ch] by blast
        then show ?thesis using e [of c] by (intro unref_other_taken [OF inv n]) auto
      qed
      show ?thesis
        using q n P(2) drop up up' down ramfs_lookup_ok [OF it nt et, of name]
        by (subst resolve_loop.simps) (auto simp: Let_def simp flip: q_def name_def split: option.splits)
    qed
    have c: "linked s c" if "child s cur name = Some c" for c using childD [OF inv that] by blast
    note P = linked_parent(1) [OF inv n "1.prems"]
    show ?thesis unfolding R cs
      using IH [OF "1.prems"] IH [OF P] IH [OF c] n by (auto split: option.splits)
  qed
qed

lemma vfs_resolve_walk:
  assumes inv: "fs_inv s ex" and e: "\<And>v. ex v < 900"
  shows "vfs_resolve path s =
      Some (if path = [] \<or> hd path \<noteq> CHR ''/'' then (Inl (- EINVAL), s)
        else case walk s (fs_root s) (comps path) of Inl e \<Rightarrow> (Inl e, s) | Inr v \<Rightarrow> (Inr v, taken v s))"
proof -
  have l: "linked s (fs_root s)" by (simp add: linked_def)
  obtain r where r: "fs_nodes s (fs_root s) = Some r" using linked_live [OF inv l] by blast
  then have "fs_root s \<noteq> 0" using fs_invD(1) [OF inv r] by (auto simp: node_ok_def)
  then show ?thesis
    using vnode_ref_ok(1) [OF inv r] resolve_loop_walk [OF inv e l] e [of "fs_root s"]
    by (simp add: vfs_resolve_def resolve_from_def)
qed

section \<open>Operations inside a parent directory\<close>

definition parent_walk :: "vfs \<Rightarrow> string \<Rightarrow> int + string \<times> nat" where
  "parent_walk s path =
    (let dir = (if path_dir path = [] then ''/'' else path_dir path) in
     if length path = 0 \<or> VFS_PATH_MAX < length path then Inl (- ENAMETOOLONG)
     else if path_last path = [] then Inl (- EINVAL)
     else if VFS_NAME_MAX < length (path_last path) then Inl (- ENAMETOOLONG)
     else if hd dir \<noteq> CHR ''/'' then Inl (- EINVAL)
     else map_sum id (Pair (path_last path)) (walk s (fs_root s) (comps dir)))"

lemma split_parent_walk:
  assumes "fs_inv s ex" "\<And>v. ex v < 900"
  shows "split_parent path s =
    Some (case parent_walk s path of Inl e \<Rightarrow> (Inl e, s) | Inr (name, d) \<Rightarrow> (Inr (name, d), taken d s))"
  unfolding split_parent_def parent_walk_def Let_def vfs_resolve_walk [OF assms]
  by (auto split: sum.splits)

lemma parent_walk_Inr:
  assumes inv: "fs_inv s ex" and p: "parent_walk s path = Inr (name, d)"
  shows "linked s d" "length name \<le> VFS_NAME_MAX" "name = path_last path"
proof -
  have l: "linked s (fs_root s)" by (simp add: linked_def)
  show "linked s d" "length name \<le> VFS_NAME_MAX" "name = path_last path"
    using p walk_linked [OF inv l]
    by (auto simp: parent_walk_def Let_def split: if_splits; (cases "walk s (fs_root s) (comps ''/'')"; cases "walk s (fs_root s) (comps (path_dir path))"; auto))+
qed

lemma vnode_unref_linked:
  assumes inv: "fs_inv s ex" and e: "0 < ex v" and l: "linked s v"
  shows "vnode_unref v s = Some (bump (\<lambda>r. r - 1) v s)" "fs_inv (bump (\<lambda>r. r - 1) v s) (ex(v := ex v - 1))"
proof -
  obtain n where n: "fs_nodes s v = Some n" using linked_live [OF inv l] by blast
  note D = fs_invD [OF inv n]
  have r: "2 \<le> vn_refcount n" using D(2) e l by (simp add: refs_def)
  show "vnode_unref v s = Some (bump (\<lambda>r. r - 1) v s)"
    by (rule vnode_unref_shared [OF n _ r]) (use D in \<open>simp add: node_ok_def\<close>)
  show "fs_inv (bump (\<lambda>r. r - 1) v s) (ex(v := ex v - 1))"
    by (rule fs_inv_bump [OF inv n]) (use D r e in \<open>auto simp: refs_def\<close>)
qed

lemma in_parent_ok:
  assumes inv: "fs_inv s ex" and e: "\<And>v. ex v < 900"
    and act: "\<And>d name t dn. fs_inv t (ex(d := ex d + 1)) \<Longrightarrow> fs_nodes t d = Some dn \<Longrightarrow> vn_type dn = VFS_TYPE_DIR \<Longrightarrow>
      linked t d \<Longrightarrow> length name \<le> VFS_NAME_MAX \<Longrightarrow>
      \<exists>r t'. act d name t = Some (r, t') \<and> fs_inv t' (ex(d := ex d + 1)) \<and> linked t' d \<and> Q d name t r t'"
    and Q: "\<And>d name t r t' g w. Q d name (bump g w t) r t' \<longleftrightarrow> Q d name t r t'"
      "\<And>d name t r t' g w. Q d name t r (bump g w t') \<longleftrightarrow> Q d name t r t'"
  shows "\<exists>r s'. in_parent path act s = Some (r, s') \<and> fs_inv s' ex \<and>
    (case parent_walk s path of
       Inl e \<Rightarrow> r = e \<and> s' = s
     | Inr (name, d) \<Rightarrow> if vn_type (the (fs_nodes s d)) \<noteq> VFS_TYPE_DIR then r = - ENOTDIR \<and> s' = s else Q d name s r s')"
proof (cases "parent_walk s path")
  case (Inl er)
  then show ?thesis using split_parent_walk [OF inv e] inv by (simp add: in_parent_def)
next
  case (Inr p)
  obtain name d where p: "p = (name, d)" by (cases p)
  note W = parent_walk_Inr [OF inv Inr [unfolded p]]
  obtain dn where dn: "fs_nodes s d = Some dn" using linked_live [OF inv W(1)] by blast
  let ?t = "taken d s" and ?dn = "dn\<lparr>vn_refcount := Suc (vn_refcount dn)\<rparr>"
  have it: "fs_inv ?t (ex(d := ex d + 1))" using vnode_ref_ok(2) [OF inv dn] e [of d] by simp
  have sp: "split_parent path s = Some (Inr (name, d), ?t)" using split_parent_walk [OF inv e] Inr p by simp
  show ?thesis
  proof (cases "vn_type dn = VFS_TYPE_DIR")
    case False
    then show ?thesis using sp dn vnode_unref_taken [OF inv dn] Inr p inv by (simp add: in_parent_def)
  next
    case True
    obtain r t' where a: "act d name ?t = Some (r, t')" "fs_inv t' (ex(d := ex d + 1))" "linked t' d" "Q d name ?t r t'"
      using act [OF it, of ?dn name] dn True W by auto
    have u: "vnode_unref d t' = Some (bump (\<lambda>r. r - 1) d t')" "fs_inv (bump (\<lambda>r. r - 1) d t') ex"
      using vnode_unref_linked [OF a(2) _ a(3)] by auto
    have "Q d name s r (bump (\<lambda>r. r - 1) d t')" using a(4) by (simp add: Q)
    then show ?thesis using sp dn True a(1) u Inr p by (simp add: in_parent_def)
  qed
qed

text \<open>The tree seen through its children: which directory has which child under which name.\<close>

definition ntype :: "vfs \<Rightarrow> nat \<Rightarrow> u32 option" where
  "ntype s v = map_option vn_type (fs_nodes s v)"

lemma ntype_bump [simp]: "ntype (bump g v s) w = ntype s w"
  by (simp add: ntype_def option.map_comp o_def)

definition tree_kept :: "vfs \<Rightarrow> vfs \<Rightarrow> bool" where
  "tree_kept s s' \<longleftrightarrow> (\<forall>d n. child s' d n = child s d n) \<and> (\<forall>v. ntype s' v = ntype s v)"

definition child_added :: "nat \<Rightarrow> string \<Rightarrow> nat \<Rightarrow> u32 \<Rightarrow> vfs \<Rightarrow> vfs \<Rightarrow> bool" where
  "child_added d name c ty s s' \<longleftrightarrow>
     (\<forall>d' n'. child s' d' n' = (if d' = d \<and> n' = name then Some c else child s d' n')) \<and>
     (\<forall>v. ntype s' v = (if v = c then Some ty else ntype s v)) \<and> kids s' c = []"

definition child_removed :: "nat \<Rightarrow> string \<Rightarrow> vfs \<Rightarrow> vfs \<Rightarrow> bool" where
  "child_removed d name s s' \<longleftrightarrow>
     (\<forall>d' n'. child s' d' n' = (if d' = d \<and> n' = name then None else child s d' n'))"

lemma child_with_child:
  assumes inv: "fs_inv s ex" and d: "fs_nodes s dir = Some d" and nm: "child s dir name = None"
  shows "child_added dir name (fs_allocs s + 1) ty s (with_child dir name ty md s)"
    and "linked s dir \<Longrightarrow> linked (with_child dir name ty md s) dir"
proof -
  let ?c = "fs_allocs s + 1" and ?s = "with_child dir name ty md s"
  have fresh: "fs_nodes s ?c = None"
  proof (rule ccontr)
    assume "fs_nodes s ?c \<noteq> None"
    then obtain x where "fs_nodes s ?c = Some x" by auto
    then show False using fs_invD(1) [OF inv] by (fastforce simp: node_ok_def)
  qed
  have dc: "dir \<noteq> ?c" using d fresh by auto
  have nodes: "fs_nodes ?s w = (if w = dir then Some (d\<lparr>rn_children := ?c # rn_children d\<rparr>)
      else if w = ?c then Some (fresh_node dir name ty md s) else fs_nodes s w)" for w
    using d by (simp add: with_child_def)
  have kd: "kids ?s w = (if w = dir then ?c # kids s dir else if w = ?c then [] else kids s w)" for w
    using d nodes by (simp add: kids_def fresh_node_def)
  have names: "map_option rn_name (fs_nodes ?s w) = (if w = ?c then Some name else map_option rn_name (fs_nodes s w))" for w
    using d dc nodes by (simp add: fresh_node_def)
  have old: "find (\<lambda>c. map_option rn_name (fs_nodes ?s c) = Some n') (kids s w) = child s w n'" for w n'
  proof -
    have "?c \<notin> set (kids s w)" using dead_node(1) [OF inv fresh] by (auto simp: linked_def)
    then have "x \<in> set (kids s w) \<Longrightarrow> map_option rn_name (fs_nodes ?s x) = map_option rn_name (fs_nodes s x)" for x
      using names by auto
    then show ?thesis unfolding child_def by (intro find_cong) auto
  qed
  have "kids s ?c = []" using fresh by (simp add: kids_def)
  then have cn: "child s ?c n' = None" for n' by (simp add: child_def)
  have "child ?s d' n' = (if d' = dir \<and> n' = name then Some ?c else child s d' n')" for d' n'
  proof -
    consider "d' = dir" | "d' = ?c" | "d' \<noteq> dir" "d' \<noteq> ?c" by blast
    then show ?thesis
    proof cases
      case 1
      then have "child ?s d' n' = (if n' = name then Some ?c else find (\<lambda>c. map_option rn_name (fs_nodes ?s c) = Some n') (kids s dir))"
        unfolding child_def kd by (simp only: if_True find.simps names) auto
      then show ?thesis unfolding old using 1 by simp
    next
      case 2
      then show ?thesis using dc cn by (simp add: child_def kd)
    next
      case 3
      have "child ?s d' n' = child s d' n'" unfolding child_def [of ?s] kd using 3 old by simp
      then show ?thesis using 3 by simp
    qed
  qed
  moreover have "ntype ?s v = (if v = ?c then Some ty else ntype s v)" for v
    using d dc by (simp add: ntype_def nodes fresh_node_def)
  ultimately show "child_added dir name ?c ty s ?s" using dc kd by (simp add: child_added_def)
  show "linked ?s dir" if l: "linked s dir"
  proof (cases "dir = fs_root s")
    case False
    then obtain w where w: "dir \<in> set (kids s w)" using l by (auto simp: linked_def)
    then have "w \<noteq> ?c" using \<open>kids s ?c = []\<close> by auto
    then have "dir \<in> set (kids ?s w)" unfolding kd using w by auto
    then show ?thesis unfolding linked_def by blast
  qed (simp add: linked_def)
qed

lemma kids_freed: "kids (freed c t) w = (if w = c then [] else kids t w)"
  by (simp add: kids_def)

lemma find_remove1: "\<not> P c \<Longrightarrow> find P (remove1 c xs) = find P xs"
  by (induction xs) auto

lemma child_without_child:
  assumes inv: "fs_inv s ex" and c: "child s dir name = Some c" and k: "kids s c = []"
    and s': "without_child dir c s s'"
  shows "child_removed dir name s s'" and "linked s dir \<Longrightarrow> linked s' dir"
proof -
  obtain d m where d: "fs_nodes s dir = Some d" "c \<in> set (rn_children d)" "fs_nodes s c = Some m" "rn_name m = name" "dir < c"
    using childD [OF inv c] by blast
  let ?t = "cut_tree dir c d s"
  have nodes: "map_option rn_name (fs_nodes ?t w) = map_option rn_name (fs_nodes s w)" for w using d(1) by simp
  have kd: "kids ?t w = (if w = dir then remove1 c (kids s dir) else kids s w)" for w
    using d(1) by (simp add: kids_def)
  have N: "distinct (kids s dir)" "inj_on (\<lambda>c. map_option rn_name (fs_nodes s c)) (set (kids s dir))"
    using fs_invD(1) [OF inv d(1)] kids_Some [OF d(1)] by (auto simp: node_ok_def)
  have cc: "c \<in> set (kids s dir)" using d(2) kids_Some [OF d(1)] by simp
  have ct: "child ?t d' n' = (if d' = dir \<and> n' = name then None else child s d' n')" for d' n'
  proof (cases "d' = dir")
    case True
    show ?thesis
    proof (cases "n' = name")
      case True
      have "map_option rn_name (fs_nodes s x) \<noteq> Some name" if "x \<in> set (remove1 c (kids s dir))" for x
      proof -
        have "x \<in> set (kids s dir)" "x \<noteq> c" using that N(1) by auto
        then show ?thesis using inj_onD [OF N(2), of x c] cc d(3,4) by auto
      qed
      then show ?thesis using \<open>d' = dir\<close> True unfolding child_def kd nodes by (auto simp: find_None_iff)
    next
      case False
      then have "\<not> map_option rn_name (fs_nodes s c) = Some n'" using d(3,4) by simp
      then show ?thesis using \<open>d' = dir\<close> False
        unfolding child_def kd nodes by (simp only: if_True find_remove1 simp_thms if_False)
    qed
  next
    case False
    then show ?thesis unfolding child_def kd nodes by simp
  qed
  have kt: "kids ?t c = []" using k d(5) kd by simp
  have "c \<notin> set (kids ?t w)" for w
  proof (cases "w = dir")
    case True
    then show ?thesis using N(1) unfolding kd by simp
  next
    case False
    then show ?thesis using child_unique_dir [OF inv cc, of w] unfolding kd by auto
  qed
  then have ff: "child (freed c ?t) d' n' = child ?t d' n'" for d' n'
  proof -
    have "kids (freed c ?t) d' = kids ?t d'" using kt by (simp add: kids_freed)
    moreover have "x \<in> set (kids ?t d') \<Longrightarrow> map_option rn_name (fs_nodes (freed c ?t) x) = map_option rn_name (fs_nodes ?t x)" for x
      using \<open>\<And>w. c \<notin> set (kids ?t w)\<close> [of d'] by (metis freed_simps(6))
    ultimately show ?thesis unfolding child_def by (intro find_cong) auto
  qed
  have s'': "s' = bump (\<lambda>r. r - 1) c ?t \<or> s' = freed c ?t" using s' d(1) by (simp add: without_child_def)
  then show "child_removed dir name s s'" using ct ff by (auto simp: child_removed_def)
  assume l: "linked s dir"
  have "kids (freed c ?t) w = kids ?t w" for w using kt by (simp add: kids_freed)
  moreover have "linked ?t dir"
  proof (cases "dir = fs_root s")
    case False
    then obtain w where w: "dir \<in> set (kids s w)" using l by (auto simp: linked_def)
    then have "dir \<in> set (kids ?t w)" unfolding kd using d(5) by auto
    then show ?thesis by (auto simp: linked_def)
  qed (simp add: linked_def)
  ultimately show "linked s' dir" using s'' by (auto simp: linked_def)
qed

definition mkdir_spec :: "nat \<Rightarrow> string \<Rightarrow> vfs \<Rightarrow> int \<Rightarrow> vfs \<Rightarrow> bool" where
  "mkdir_spec d name s r s' \<longleftrightarrow> fs_files s' = fs_files s \<and>
     (if child s d name \<noteq> None then r = - EEXIST \<and> tree_kept s s'
      else if fs_oom s (fs_allocs s) 344 then r = - ENOMEM \<and> tree_kept s s'
      else r = 0 \<and> child_added d name (fs_allocs s + 1) VFS_TYPE_DIR s s')"

definition unlink_spec :: "nat \<Rightarrow> string \<Rightarrow> vfs \<Rightarrow> int \<Rightarrow> vfs \<Rightarrow> bool" where
  "unlink_spec d name s r s' \<longleftrightarrow> fs_files s' = fs_files s \<and>
     (case child s d name of
        None \<Rightarrow> r = - ENOENT \<and> tree_kept s s'
      | Some c \<Rightarrow> if ntype s c = Some VFS_TYPE_DIR then r = - EISDIR \<and> tree_kept s s'
                  else r = 0 \<and> child_removed d name s s')"

definition rmdir_spec :: "nat \<Rightarrow> string \<Rightarrow> vfs \<Rightarrow> int \<Rightarrow> vfs \<Rightarrow> bool" where
  "rmdir_spec d name s r s' \<longleftrightarrow> fs_files s' = fs_files s \<and>
     (case child s d name of
        None \<Rightarrow> r = - ENOENT \<and> tree_kept s s'
      | Some c \<Rightarrow> if ntype s c \<noteq> Some VFS_TYPE_DIR then r = - ENOTDIR \<and> tree_kept s s'
                  else if kids s c \<noteq> [] then r = - ENOTEMPTY \<and> tree_kept s s'
                  else r = 0 \<and> child_removed d name s s')"

definition dir_result :: "vfs \<Rightarrow> string \<Rightarrow> (nat \<Rightarrow> string \<Rightarrow> vfs \<Rightarrow> int \<Rightarrow> vfs \<Rightarrow> bool) \<Rightarrow> int \<Rightarrow> vfs \<Rightarrow> bool" where
  "dir_result s path Q r s' \<longleftrightarrow>
    (case parent_walk s path of
       Inl e \<Rightarrow> r = e \<and> s' = s
     | Inr (name, d) \<Rightarrow> if vn_type (the (fs_nodes s d)) \<noteq> VFS_TYPE_DIR then r = - ENOTDIR \<and> s' = s else Q d name s r s')"

lemma tree_kept_refl [simp]: "tree_kept s s"
  by (simp add: tree_kept_def)

lemma tree_kept_bump [simp]:
  "tree_kept (bump g v s) s' = tree_kept s s'" "tree_kept s (bump g v s') = tree_kept s s'"
  "child_added d n c ty (bump g v s) s' = child_added d n c ty s s'"
  "child_added d n c ty s (bump g v s') = child_added d n c ty s s'"
  "child_removed d n (bump g v s) s' = child_removed d n s s'"
  "child_removed d n s (bump g v s') = child_removed d n s s'"
  by (simp_all add: tree_kept_def child_added_def child_removed_def)

lemma tree_kept_allocs [simp]: "tree_kept s (s\<lparr>fs_allocs := a\<rparr>)"
  by (simp add: tree_kept_def child_def ntype_def kids_def)

lemma spec_bump [simp]:
  "mkdir_spec d n (bump g w t) r t' = mkdir_spec d n t r t'" "mkdir_spec d n t r (bump g w t') = mkdir_spec d n t r t'"
  "unlink_spec d n (bump g w t) r t' = unlink_spec d n t r t'" "unlink_spec d n t r (bump g w t') = unlink_spec d n t r t'"
  "rmdir_spec d n (bump g w t) r t' = rmdir_spec d n t r t'" "rmdir_spec d n t r (bump g w t') = rmdir_spec d n t r t'"
  by (simp_all add: mkdir_spec_def unlink_spec_def rmdir_spec_def split: option.split)

lemma without_child_files: "without_child dir c s s' \<Longrightarrow> fs_files s' = fs_files s"
  by (auto simp: without_child_def)

lemma linked_allocs [simp]: "linked (s\<lparr>fs_allocs := a\<rparr>) v = linked s v"
  by (simp add: linked_def kids_def)

lemma vfs_mkdir_ok:
  assumes inv: "fs_inv s ex" and e: "\<And>v. ex v < 900"
  shows "\<exists>r s'. vfs_mkdir path md s = Some (r, s') \<and> fs_inv s' ex \<and> dir_result s path mkdir_spec r s'"
  unfolding vfs_mkdir_def dir_result_def
proof (rule in_parent_ok [OF inv e])
  fix d dn :: _ and name :: string and t :: vfs
  assume t: "fs_inv t (ex(d := ex d + 1))" "fs_nodes t d = Some dn" "vn_type dn = VFS_TYPE_DIR" "linked t d"
    "length name \<le> VFS_NAME_MAX"
  obtain r t' where m: "ramfs_mkdir d name md t = Some (r, t')" "fs_inv t' (ex(d := ex d + 1))"
    "if child t d name \<noteq> None then r = - EEXIST \<and> t' = t
     else if fs_oom t (fs_allocs t) 344 then r = - ENOMEM \<and> t' = t\<lparr>fs_allocs := fs_allocs t + 1\<rparr>
     else r = 0 \<and> t' = with_child d name VFS_TYPE_DIR md t"
    using ramfs_mkdir_ok [OF t, of md] by blast
  have "linked t' d \<and> mkdir_spec d name t r t'"
    using m(3) child_with_child [OF t(1,2), of name VFS_TYPE_DIR md] t(4)
    by (cases "child t d name"; cases "fs_oom t (fs_allocs t) 344") (simp_all add: mkdir_spec_def)
  then show "\<exists>r t'. ramfs_mkdir d name md t = Some (r, t') \<and> fs_inv t' (ex(d := ex d + 1)) \<and> linked t' d \<and> mkdir_spec d name t r t'"
    using m(1,2) by blast
qed simp_all

lemma vfs_unlink_ok:
  assumes inv: "fs_inv s ex" and e: "\<And>v. ex v < 900"
  shows "\<exists>r s'. vfs_unlink path s = Some (r, s') \<and> fs_inv s' ex \<and> dir_result s path unlink_spec r s'"
  unfolding vfs_unlink_def dir_result_def
proof (rule in_parent_ok [OF inv e])
  fix d dn :: _ and name :: string and t :: vfs
  assume t: "fs_inv t (ex(d := ex d + 1))" "fs_nodes t d = Some dn" "vn_type dn = VFS_TYPE_DIR" "linked t d"
    "length name \<le> VFS_NAME_MAX"
  obtain r t' where u: "ramfs_unlink d name t = Some (r, t')" "fs_inv t' (ex(d := ex d + 1))"
    "case child t d name of None \<Rightarrow> r = - ENOENT \<and> t' = t
     | Some c \<Rightarrow> if vn_type (the (fs_nodes t c)) = VFS_TYPE_DIR then r = - EISDIR \<and> t' = t else r = 0 \<and> without_child d c t t'"
    using ramfs_unlink_ok [OF t(1,2)] by blast
  have "linked t' d \<and> unlink_spec d name t r t'"
  proof (cases "child t d name")
    case None
    then show ?thesis using u(3) t(4) by (simp add: unlink_spec_def)
  next
    case (Some c)
    obtain m where m: "fs_nodes t c = Some m" using childD [OF t(1) Some] by blast
    then have ty: "ntype t c = Some (vn_type m)" by (simp add: ntype_def)
    have "vn_type m \<noteq> VFS_TYPE_DIR \<Longrightarrow> kids t c = []"
      using fs_invD(1) [OF t(1) m] kids_Some [OF m] by (auto simp: node_ok_def)
    then show ?thesis using Some u(3) m ty t(4) child_without_child [OF t(1) Some] without_child_files
      by (auto simp: unlink_spec_def split: if_splits)
  qed
  then show "\<exists>r t'. ramfs_unlink d name t = Some (r, t') \<and> fs_inv t' (ex(d := ex d + 1)) \<and> linked t' d \<and> unlink_spec d name t r t'"
    using u(1,2) by blast
qed simp_all

lemma vfs_rmdir_ok:
  assumes inv: "fs_inv s ex" and e: "\<And>v. ex v < 900"
  shows "\<exists>r s'. vfs_rmdir path s = Some (r, s') \<and> fs_inv s' ex \<and> dir_result s path rmdir_spec r s'"
  unfolding vfs_rmdir_def dir_result_def
proof (rule in_parent_ok [OF inv e])
  fix d dn :: _ and name :: string and t :: vfs
  assume t: "fs_inv t (ex(d := ex d + 1))" "fs_nodes t d = Some dn" "vn_type dn = VFS_TYPE_DIR" "linked t d"
    "length name \<le> VFS_NAME_MAX"
  obtain r t' where u: "ramfs_rmdir d name t = Some (r, t')" "fs_inv t' (ex(d := ex d + 1))"
    "case child t d name of None \<Rightarrow> r = - ENOENT \<and> t' = t
     | Some c \<Rightarrow> if vn_type (the (fs_nodes t c)) \<noteq> VFS_TYPE_DIR then r = - ENOTDIR \<and> t' = t
         else if kids t c \<noteq> [] then r = - ENOTEMPTY \<and> t' = t else r = 0 \<and> without_child d c t t'"
    using ramfs_rmdir_ok [OF t(1,2)] by blast
  have "linked t' d \<and> rmdir_spec d name t r t'"
  proof (cases "child t d name")
    case None
    then show ?thesis using u(3) t(4) by (simp add: rmdir_spec_def)
  next
    case (Some c)
    obtain m where m: "fs_nodes t c = Some m" using childD [OF t(1) Some] by blast
    then have ty: "ntype t c = Some (vn_type m)" by (simp add: ntype_def)
    show ?thesis using Some u(3) m ty t(4) child_without_child [OF t(1) Some] without_child_files
      by (auto simp: rmdir_spec_def split: if_splits)
  qed
  then show "\<exists>r t'. ramfs_rmdir d name t = Some (r, t') \<and> fs_inv t' (ex(d := ex d + 1)) \<and> linked t' d \<and> rmdir_spec d name t r t'"
    using u(1,2) by blast
qed simp_all

section \<open>Open files keep the invariant\<close>

lemma holders_upd:
  assumes "finite (dom (fs_files s))" "fs_files s f = None"
  shows "holders (s\<lparr>fs_files := (fs_files s)(f \<mapsto> fl)\<rparr>) v = holders s v + (if fl_vn fl = v then 1 else 0)"
proof -
  let ?A = "{g. \<exists>fl. fs_files s g = Some fl \<and> fl_vn fl = v}"
  have "finite ?A" by (rule finite_subset [OF _ assms(1)]) auto
  moreover have "f \<notin> ?A" using assms(2) by simp
  moreover have "{g. \<exists>fl'. ((fs_files s)(f \<mapsto> fl)) g = Some fl' \<and> fl_vn fl' = v} = (if fl_vn fl = v then insert f ?A else ?A)"
    using assms(2) by auto
  ultimately show ?thesis by (simp add: holders_def)
qed

lemma holders_del:
  assumes "finite (dom (fs_files s))" "fs_files s f = Some fl"
  shows "holders s v = holders (s\<lparr>fs_files := (fs_files s)(f := None)\<rparr>) v + (if fl_vn fl = v then 1 else 0)"
proof -
  let ?s = "s\<lparr>fs_files := (fs_files s)(f := None)\<rparr>"
  have "finite (dom (fs_files ?s))" using assms(1) by simp
  then have "holders (?s\<lparr>fs_files := (fs_files ?s)(f \<mapsto> fl)\<rparr>) v = holders ?s v + (if fl_vn fl = v then 1 else 0)"
    by (rule holders_upd) simp
  moreover have "?s\<lparr>fs_files := (fs_files ?s)(f \<mapsto> fl)\<rparr> = s" using assms(2) by (simp add: fun_upd_idem)
  ultimately show ?thesis by simp
qed

lemma linked_files [simp]: "linked (s\<lparr>fs_files := F\<rparr>) v = linked s v"
  by (simp add: linked_def kids_def)

lemma same_tree_files [simp]: "fs_allocs s \<le> a \<Longrightarrow> same_tree s (s\<lparr>fs_files := F, fs_allocs := a\<rparr>)" "same_tree s (s\<lparr>fs_files := F\<rparr>)"
  by (simp_all add: same_tree_def)

lemma fs_inv_opened:
  assumes inv: "fs_inv s ex" and e: "0 < ex v" and f: "f = fs_allocs s + 1"
    and fl: "fl_vn fl = v" "fl_refcount fl = 1" "fl_offset fl < two64" and card: "card (dom (fs_files s)) + 1 < 2147483648"
  shows "fs_inv (s\<lparr>fs_files := (fs_files s)(f \<mapsto> fl), fs_allocs := f\<rparr>) (ex(v := ex v - 1))" "fs_files s f = None"
proof -
  let ?s = "s\<lparr>fs_files := (fs_files s)(f \<mapsto> fl), fs_allocs := f\<rparr>"
  have F: "files_ok s" by (rule fs_inv_files [OF inv])
  show none: "fs_files s f = None"
  proof (rule ccontr)
    assume "fs_files s f \<noteq> None"
    then obtain x where "fs_files s f = Some x" by auto
    then show False using F f unfolding files_ok_def by fastforce
  qed
  have fin: "finite (dom (fs_files s))" using F by (simp add: files_ok_def)
  have live: "fs_nodes s v \<noteq> None" using inv e unfolding fs_inv_def by blast
  have "card (dom ((fs_files s)(f \<mapsto> fl))) < 2147483648" using fin none card by (simp add: card_insert_if domIff)
  then have "files_ok ?s" using F f fl live fin unfolding files_ok_def by (auto intro: le_SucI)
  moreover have rf: "refs ?s (ex(v := ex v - 1)) w = refs s ex w" for w
    using e fl(1) holders_upd [OF fin none, of fl w] by (simp add: refs_def linked_def kids_def holders_def)
  ultimately show "fs_inv ?s (ex(v := ex v - 1))"
    using inv f by (intro fs_inv_same_tree [OF inv])
      (auto simp: fs_inv_def node_ok_def split: if_splits)
qed

lemma fs_inv_closed:
  assumes inv: "fs_inv s ex" and fl: "fs_files s f = Some fl"
  shows "fs_inv (s\<lparr>fs_files := (fs_files s)(f := None)\<rparr>) (ex(fl_vn fl := ex (fl_vn fl) + 1))"
proof -
  let ?s = "s\<lparr>fs_files := (fs_files s)(f := None)\<rparr>" and ?v = "fl_vn fl"
  have F: "files_ok s" by (rule fs_inv_files [OF inv])
  then have fin: "finite (dom (fs_files s))" and live: "fs_nodes s ?v \<noteq> None"
    using fl unfolding files_ok_def by auto
  have "card (dom (fs_files ?s)) \<le> card (dom (fs_files s))" using fin by (intro card_mono) auto
  then have "files_ok ?s" using F unfolding files_ok_def by (auto split: if_splits)
  moreover have "refs ?s (ex(?v := ex ?v + 1)) w = refs s ex w" for w
    using holders_del [OF fin fl, of w] by (simp add: refs_def)
  ultimately show ?thesis using inv live
    by (intro fs_inv_same_tree [OF inv]) (auto simp: fs_inv_def node_ok_def split: if_splits)
qed

lemma fs_inv_put_offset:
  assumes inv: "fs_inv s ex" and off: "off < two64"
  shows "fs_inv (put_offset f off s) ex"
proof -
  let ?s = "put_offset f off s"
  have files: "map_option fl_vn (fs_files ?s g) = map_option fl_vn (fs_files s g)" for g
    by (simp add: put_offset_def option.map_comp o_def)
  then have h: "holders ?s v = holders s v" for v
    unfolding holders_def by (intro arg_cong [of _ _ card] Collect_cong) (metis (no_types, lifting) map_option_eq_Some)
  have st: "same_tree s ?s" by (simp add: put_offset_def)
  have rf: "refs ?s ex w = refs s ex w" for w by (simp add: refs_def h same_tree_linked [OF st])
  have "dom (fs_files ?s) = dom (fs_files s)" using files by (auto simp: dom_def put_offset_def)
  then have "files_ok ?s" using fs_inv_files [OF inv] off unfolding files_ok_def
    by (auto simp: put_offset_def split: if_splits)
  moreover have "fs_nodes ?s = fs_nodes s" by (simp add: put_offset_def)
  ultimately show ?thesis using inv
    by (intro fs_inv_same_tree [OF inv st]) (auto simp: fs_inv_def node_ok_def rf split: if_splits)
qed

definition new_file :: "nat \<Rightarrow> u32 \<Rightarrow> vfile" where
  "new_file v flags = \<lparr>fl_vn = v, fl_offset = 0, fl_flags = flags, fl_refcount = 1\<rparr>"

definition open_result :: "u32 \<Rightarrow> vfs \<Rightarrow> (int + nat) \<Rightarrow> vfs \<Rightarrow> bool" where
  "open_result flags s r s' \<longleftrightarrow>
    (case r of
       Inl e \<Rightarrow> e < 0 \<and> fs_files s' = fs_files s
     | Inr f \<Rightarrow> f \<noteq> 0 \<and> fs_files s f = None \<and> (\<exists>v. fs_files s' = (fs_files s)(f \<mapsto> new_file v flags)))"

lemma open_result_cong: "fs_files t = fs_files s \<Longrightarrow> open_result flags t = open_result flags s"
  by (intro ext) (simp only: open_result_def)

lemma open_file_ok:
  assumes inv: "fs_inv s ex" and e: "0 < ex v" and card: "card (dom (fs_files s)) + 1 < 2147483648"
  shows "\<exists>r s'. open_file v flags s = Some (r, s') \<and> fs_inv s' (ex(v := ex v - 1)) \<and> open_result flags s r s'"
proof (cases "fs_oom s (fs_allocs s) 24")
  case True
  have i: "fs_inv (s\<lparr>fs_allocs := fs_allocs s + 1\<rparr>) ex" by (rule fs_inv_alloc [OF inv]) simp
  obtain s' where "vnode_unref v (s\<lparr>fs_allocs := fs_allocs s + 1\<rparr>) = Some s'" "fs_inv s' (ex(v := ex v - 1))" "fs_files s' = fs_files s"
    using vnode_unref_ok [OF i e] by auto
  then show ?thesis using True by (simp add: open_file_def alloc_def Let_def open_result_def kconst)
next
  case False
  note O = fs_inv_opened [OF inv e refl, of "new_file v flags"]
  have "open_file v flags s = Some (Inr (fs_allocs s + 1),
      s\<lparr>fs_files := (fs_files s)(fs_allocs s + 1 \<mapsto> new_file v flags), fs_allocs := fs_allocs s + 1\<rparr>)"
    using False by (simp add: open_file_def alloc_def Let_def new_file_def)
  then show ?thesis using O card by (auto simp: open_result_def new_file_def)
qed

lemma open_trunc_ok:
  assumes inv: "fs_inv s ex" and e: "0 < ex v" and card: "card (dom (fs_files s)) + 1 < 2147483648"
  shows "\<exists>r s'. open_trunc v flags s = Some (r, s') \<and> fs_inv s' (ex(v := ex v - 1)) \<and> open_result flags s r s'"
proof -
  obtain n where n: "fs_nodes s v = Some n" using inv e unfolding fs_inv_def by blast
  show ?thesis
  proof (cases "flags AND VFS_O_TRUNC \<noteq> 0 \<and> acc_write flags \<and> vn_type n = VFS_TYPE_REG")
    case False
    then have "open_trunc v flags s = open_file v flags s" using n by (auto simp: open_trunc_def)
    then show ?thesis using open_file_ok [OF assms] by simp
  next
    case True
    obtain r a m where t: "ramfs_truncate v 0 s = Some (r, put_node v m (s\<lparr>fs_allocs := a\<rparr>))"
      "fs_inv (put_node v m (s\<lparr>fs_allocs := a\<rparr>)) ex" "r = 0 \<or> r = - ENOMEM"
      using ramfs_truncate_ok [OF inv n, of 0] True by (auto split: if_splits)
    let ?s = "put_node v m (s\<lparr>fs_allocs := a\<rparr>)"
    have ff: "fs_files ?s = fs_files s" by (simp add: put_node_def)
    show ?thesis
    proof (cases "r < 0")
      case neg: True
      obtain s' where "vnode_unref v ?s = Some s'" "fs_inv s' (ex(v := ex v - 1))" "fs_files s' = fs_files s"
        using vnode_unref_ok [OF t(2) e] ff by auto
      then show ?thesis using True n t neg by (simp add: open_trunc_def open_result_def)
    next
      case pos: False
      have "open_trunc v flags s = open_file v flags ?s" using True n t pos by (simp add: open_trunc_def)
      moreover have "open_result flags ?s = open_result flags s" by (rule open_result_cong [OF ff])
      ultimately show ?thesis using open_file_ok [OF t(2) e, of flags] card ff by simp
    qed
  qed
qed

lemma open_create_ok:
  assumes inv: "fs_inv s ex" and e: "\<And>v. ex v = 0" and l: "linked s d" and nm: "length name \<le> VFS_NAME_MAX"
    and card: "card (dom (fs_files s)) + 1 < 2147483648"
  shows "\<exists>r s'. (do {
       n \<leftarrow> fs_nodes (taken d s) d;
       if vn_type n \<noteq> VFS_TYPE_DIR
       then do { s \<leftarrow> vnode_unref d (taken d s); Some (Inl (- ENOTDIR), s) }
       else do {
         (r, s) \<leftarrow> ramfs_create d name md (taken d s);
         s \<leftarrow> vnode_unref d s;
         case r of Inl e \<Rightarrow> Some (Inl e, s) | Inr v \<Rightarrow> open_trunc v flags s } }) = Some (r, s')
     \<and> fs_inv s' ex \<and> open_result flags s r s'"
proof -
  obtain n where n: "fs_nodes s d = Some n" using linked_live [OF inv l] by blast
  let ?t = "taken d s" and ?ex = "ex(d := ex d + 1)" and ?n = "n\<lparr>vn_refcount := Suc (vn_refcount n)\<rparr>"
  have it: "fs_inv ?t ?ex" using vnode_ref_ok(2) [OF inv n] e [of d] by simp
  have nt: "fs_nodes ?t d = Some ?n" using n by simp
  have lt: "linked ?t d" using l by simp
  have ex0: "?ex(d := ?ex d - 1) = ex" by auto
  show ?thesis
  proof (cases "vn_type n = VFS_TYPE_DIR")
    case False
    then show ?thesis using n vnode_unref_taken [OF inv n] inv by (simp add: open_result_def kconst)
  next
    case True
    then have ty: "vn_type ?n = VFS_TYPE_DIR" by simp
    have e1: "?ex v < 1000" for v using e by simp
    obtain r s' where c: "ramfs_create d name md ?t = Some (r, s')"
      "if child ?t d name \<noteq> None then r = Inl (- EEXIST) \<and> s' = ?t \<and> fs_inv s' ?ex
       else if fs_oom ?t (fs_allocs ?t) 344 then r = Inl (- ENOMEM) \<and> s' = ?t\<lparr>fs_allocs := fs_allocs ?t + 1\<rparr> \<and> fs_inv s' ?ex
       else r = Inr (fs_allocs ?t + 1) \<and> s' = taken (fs_allocs ?t + 1) (with_child d name VFS_TYPE_REG md ?t) \<and>
         fs_inv s' (?ex(fs_allocs ?t + 1 := 1))"
      using ramfs_create_ok [OF it nt ty lt nm e1, of md] by blast
    show ?thesis
    proof (cases r)
      case (Inl er)
      then have "fs_inv s' ?ex \<and> linked s' d \<and> fs_files s' = fs_files s \<and> er < 0"
        using c(2) lt by (auto simp: kconst split: if_splits)
      then have "vnode_unref d s' = Some (bump (\<lambda>r. r - 1) d s')" "fs_inv (bump (\<lambda>r. r - 1) d s') ex"
        and "fs_files s' = fs_files s" "er < 0"
        using vnode_unref_linked [of s' ?ex d] ex0 by auto
      then show ?thesis using n True c(1) Inl by (simp add: open_result_def)
    next
      case (Inr v)
      then have nn: "child ?t d name = None" and v: "v = fs_allocs s + 1"
        and s': "s' = taken v (with_child d name VFS_TYPE_REG md ?t)" and i: "fs_inv s' (?ex(v := 1))"
        using c(2) by (auto split: if_splits)
      have vd: "v \<noteq> d" using fs_invD(1) [OF inv n] v by (auto simp: node_ok_def)
      have ls: "linked s' d" using child_with_child(2) [OF it nt nn lt] s' by simp
      have ff: "fs_files s' = fs_files s" using s' by simp
      let ?u = "bump (\<lambda>r. r - 1) d s'" and ?ex2 = "(?ex(v := 1))(d := (?ex(v := 1)) d - 1)"
      have u: "vnode_unref d s' = Some ?u" "fs_inv ?u ?ex2"
        using vnode_unref_linked [OF i _ ls] vd by simp_all
      have "?ex2(v := ?ex2 v - 1) = ex" using e vd by (auto simp: fun_eq_iff)
      moreover have "0 < ?ex2 v" using vd by simp
      moreover have "open_result flags ?u = open_result flags s" by (rule open_result_cong) (simp add: ff)
      ultimately have "\<exists>r s''. open_trunc v flags ?u = Some (r, s'') \<and> fs_inv s'' ex \<and> open_result flags s r s''"
        using open_trunc_ok [OF u(2), of v flags] card ff by simp
      then show ?thesis using n True c(1) Inr u(1) by simp
    qed
  qed
qed

lemma vfs_open_ok:
  assumes inv: "fs_inv s ex" and e: "\<And>v. ex v = 0" and card: "card (dom (fs_files s)) + 1 < 2147483648"
  shows "\<exists>r s'. vfs_open path flags md s = Some (r, s') \<and> fs_inv s' ex \<and> open_result flags s r s'"
proof -
  have e9: "\<And>v. ex v < 900" using e by simp
  have err: "open_result flags s (Inl er) s'" if "er < 0" "fs_files s' = fs_files s" for er s'
    using that by (simp add: open_result_def)
  have down: "(ex(v := ex v + 1))(v := (ex(v := ex v + 1)) v - 1) = ex" for v by auto
  note R = vfs_resolve_walk [OF inv e9, of path]
  have wneg: "walk s cur cs = Inl er \<Longrightarrow> er < 0" for cur cs er
    by (induction cs arbitrary: cur) (auto simp: kconst split: if_splits option.splits)
  have pneg: "parent_walk s path = Inl er \<Longrightarrow> er < 0" for er
    by (auto simp: parent_walk_def Let_def kconst split: if_splits; (cases "walk s (fs_root s) (comps ''/'')"; cases "walk s (fs_root s) (comps (path_dir path))"; auto dest: wneg))
  show ?thesis
  proof (cases "path = [] \<or> hd path \<noteq> CHR ''/''")
    case True
    then show ?thesis using R inv err [of "- EINVAL" s] by (simp add: vfs_open_def kconst)
  next
    case absolute: False
    show ?thesis
    proof (cases "walk s (fs_root s) (comps path)")
      case (Inr v)
      have "linked s v" using walk_linked [OF inv _ Inr] by (simp add: linked_def)
      then obtain n where n: "fs_nodes s v = Some n" using linked_live [OF inv] by blast
      have it: "fs_inv (taken v s) (ex(v := ex v + 1))" using vnode_ref_ok(2) [OF inv n] e9 [of v] by simp
      have drop: "vnode_unref v (taken v s) = Some s" by (rule vnode_unref_taken [OF inv n])
      have res: "open_result flags (taken v s) = open_result flags s" by (rule open_result_cong) simp
      show ?thesis
        using R Inr absolute drop inv err [of "- EEXIST" s] open_trunc_ok [OF it, of v flags] card
        by (simp add: vfs_open_def kconst down res)
    next
      case (Inl er)
      have neg: "er < 0" by (rule wneg [OF Inl])
      show ?thesis
      proof (cases "er = - ENOENT \<and> flags AND VFS_O_CREAT \<noteq> 0")
        case False
        then show ?thesis using R Inl absolute inv err [OF neg] by (auto simp: vfs_open_def)
      next
        case True
        show ?thesis
        proof (cases "parent_walk s path")
          case (Inl er')
          then show ?thesis using R \<open>walk s (fs_root s) (comps path) = Inl er\<close> absolute True inv err [OF pneg [OF Inl]]
              split_parent_walk [OF inv e9, of path] by (simp add: vfs_open_def)
        next
          case (Inr p)
          obtain name d where p: "p = (name, d)" by (cases p)
          have O: "vfs_open path flags md s = (do {
               n \<leftarrow> fs_nodes (taken d s) d;
               if vn_type n \<noteq> VFS_TYPE_DIR
               then do { s \<leftarrow> vnode_unref d (taken d s); Some (Inl (- ENOTDIR), s) }
               else do {
                 (r, s) \<leftarrow> ramfs_create d name md (taken d s);
                 s \<leftarrow> vnode_unref d s;
                 case r of Inl e \<Rightarrow> Some (Inl e, s) | Inr v \<Rightarrow> open_trunc v flags s } })"
            using R Inl absolute True Inr p split_parent_walk [OF inv e9, of path] by (simp add: vfs_open_def)
          note W = parent_walk_Inr [OF inv Inr [unfolded p]]
          show ?thesis unfolding O by (rule open_create_ok [OF inv e W(1,2) card])
        qed
      qed
    qed
  qed
qed

lemma vfs_close_ok:
  assumes inv: "fs_inv s ex" and fl: "fs_files s f = Some fl"
  shows "\<exists>s'. vfs_close f s = Some (0, s') \<and> fs_inv s' ex \<and> fs_files s' = (fs_files s)(f := None)"
proof -
  let ?v = "fl_vn fl" and ?F = "(fs_files s)(f := None)"
  let ?t = "s\<lparr>fs_files := ?F\<rparr>" and ?ex = "ex(fl_vn fl := ex (fl_vn fl) + 1)"
  have F: "f \<noteq> 0" "fl_refcount fl = 1" "fs_nodes s ?v \<noteq> None"
    using fs_inv_files [OF inv] fl unfolding files_ok_def by auto
  then obtain n where n: "fs_nodes s ?v = Some n" by auto
  have it: "fs_inv ?t ?ex" by (rule fs_inv_closed [OF inv fl])
  have ex0: "?ex(?v := ?ex ?v - 1) = ex" by auto
  obtain t' where t': "vnode_unref ?v ?t = Some t'" "fs_inv t' ex"
    using vnode_unref_ok [OF it, of ?v] ex0 by auto
  have nt: "fs_nodes ?t ?v = Some n" using n by simp
  have v0: "0 < ?v" using fs_invD(1) [OF inv n] by (simp add: node_ok_def)
  have "\<exists>s'. vnode_unref ?v s = Some s' \<and> s'\<lparr>fs_files := ?F\<rparr> = t' \<and> fs_files s' = fs_files s"
  proof (cases "vn_refcount n = 1")
    case True
    have ch: "rn_children n = []" using fs_inv_freed(2) [OF it nt _ True] by simp
    have "vnode_unref ?v s = Some (freed ?v s)" "vnode_unref ?v ?t = Some (freed ?v ?t)"
      using n nt v0 True ch by (auto intro: vnode_unref_last)
    then show ?thesis using t'(1) by (auto simp: freed_def)
  next
    case False
    then have r: "2 \<le> vn_refcount n" using fs_invD(2,3) [OF inv n] by linarith
    have "vnode_unref ?v s = Some (bump (\<lambda>r. r - 1) ?v s)" "vnode_unref ?v ?t = Some (bump (\<lambda>r. r - 1) ?v ?t)"
      using vnode_unref_shared [OF n v0 r] vnode_unref_shared [OF nt v0 r] by blast+
    then show ?thesis using t'(1) by (auto simp: bump_def)
  qed
  then obtain s' where "vnode_unref ?v s = Some s'" "s'\<lparr>fs_files := ?F\<rparr> = t'" "fs_files s' = fs_files s" by blast
  then show ?thesis using fl F t'(2) by (auto simp: vfs_close_def)
qed

lemma vfs_read_ok:
  assumes inv: "fs_inv s ex" and fl: "fs_files s f = Some fl"
  shows "\<exists>r s' n. fs_nodes s (fl_vn fl) = Some n \<and> vfs_read f k s = Some (r, s') \<and> fs_inv s' ex \<and> dom (fs_files s') = dom (fs_files s) \<and>
    (if \<not> acc_read (fl_flags fl) then r = Inl (- EBADF) \<and> s' = s
     else if vn_type n \<noteq> VFS_TYPE_REG then r = Inl (- EISDIR) \<and> s' = s
     else r = Inr (take k (drop (fl_offset fl) (content n))) \<and>
       s' = put_offset f (wrap64 (fl_offset fl + length (take k (drop (fl_offset fl) (content n))))) s)"
proof -
  have F: "f \<noteq> 0" "fs_nodes s (fl_vn fl) \<noteq> None" using fs_inv_files [OF inv] fl unfolding files_ok_def by auto
  then obtain n where n: "fs_nodes s (fl_vn fl) = Some n" by auto
  let ?d = "take k (drop (fl_offset fl) (content n))"
  have "fs_inv (put_offset f (wrap64 (fl_offset fl + length ?d)) s) ex" by (rule fs_inv_put_offset [OF inv]) simp
  moreover have "dom (fs_files (put_offset f w s)) = dom (fs_files s)" for w by (auto simp: put_offset_def dom_def)
  ultimately show ?thesis using n fl F ramfs_read_ok [OF inv n, of k "fl_offset fl"] inv
    by (cases "acc_read (fl_flags fl)"; cases "vn_type n = VFS_TYPE_REG") (simp_all add: vfs_read_def)
qed

definition write_result :: "vfile \<Rightarrow> byte list \<Rightarrow> nat \<Rightarrow> ramfs_node \<Rightarrow> int \<Rightarrow> ramfs_node \<Rightarrow> bool" where
  "write_result fl buf off n r m \<longleftrightarrow>
    (if \<not> acc_write (fl_flags fl) then r = - EBADF \<and> m = n
     else if vn_type n \<noteq> VFS_TYPE_REG then r = - EISDIR \<and> m = n
     else if r < 0 \<or> buf = [] then (r = - EINVAL \<or> r = - ENOMEM \<or> r = 0) \<and> m = n
     else r = int (length buf) \<and> vn_type m = VFS_TYPE_REG \<and>
       vn_size m = max (vn_size n) (off + length buf) \<and> off + length buf < two64 \<and>
       take (length buf) (drop off (content m)) = buf \<and>
       (\<forall>i < length (content n). i < off \<or> off + length buf \<le> i \<longrightarrow> content m ! i = content n ! i))"

definition write_off :: "vfile \<Rightarrow> ramfs_node \<Rightarrow> nat" where
  "write_off fl n = (if fl_flags fl AND VFS_O_APPEND \<noteq> 0 then vn_size n else fl_offset fl)"

lemma vfs_write_ok:
  assumes inv: "fs_inv s ex" and fl: "fs_files s f = Some fl" and buf: "length buf < two64"
  shows "\<exists>r s' n m. fs_nodes s (fl_vn fl) = Some n \<and> vfs_write f buf s = Some (r, s') \<and> fs_inv s' ex \<and>
    write_result fl buf (write_off fl n) n r m \<and> fs_nodes s' = (fs_nodes s)(fl_vn fl \<mapsto> m) \<and>
    fs_files s' = (if 0 < r then (fs_files s)(f \<mapsto> fl\<lparr>fl_offset := write_off fl n + length buf\<rparr>) else fs_files s)"
proof -
  have F: "f \<noteq> 0" "fs_nodes s (fl_vn fl) \<noteq> None" "fl_offset fl < two64"
    using fs_inv_files [OF inv] fl unfolding files_ok_def by auto
  then obtain n where n: "fs_nodes s (fl_vn fl) = Some n" by auto
  define off where "off = write_off fl n"
  show ?thesis
  proof (cases "acc_write (fl_flags fl) \<and> vn_type n = VFS_TYPE_REG")
    case False
    let ?r = "if acc_write (fl_flags fl) then - EISDIR else - EBADF"
    have "vfs_write f buf s = Some (?r, s)" using False n fl F by (auto simp: vfs_write_def ramfs_write_def Let_def kconst)
    moreover have "write_result fl buf off n ?r n" "\<not> 0 < ?r" using False by (auto simp: write_result_def kconst)
    ultimately show ?thesis using n inv
      by (intro exI [of _ ?r] exI [of _ s] exI [of _ n]) (simp add: off_def map_upd_triv)
  next
    case True
    have o64: "off < two64" using F(3) fs_invD(1) [OF inv n] by (auto simp: off_def write_off_def node_ok_def)
    obtain r a m where w: "ramfs_write (fl_vn fl) buf off s = Some (r, put_node (fl_vn fl) m (s\<lparr>fs_allocs := a\<rparr>))"
      "fs_inv (put_node (fl_vn fl) m (s\<lparr>fs_allocs := a\<rparr>)) ex" "vn_type m = VFS_TYPE_REG"
      "if r < 0 \<or> buf = [] then m = n \<and> (r = - EINVAL \<or> r = - ENOMEM \<or> r = 0)
       else r = int (length buf) \<and> vn_size m = max (vn_size n) (off + length buf) \<and> off + length buf < two64 \<and>
         take (length buf) (drop off (content m)) = buf \<and>
         (\<forall>i < length (content n). i < off \<or> off + length buf \<le> i \<longrightarrow> content m ! i = content n ! i)"
      using ramfs_write_ok [OF inv n _ o64 buf] True by blast
    let ?t = "put_node (fl_vn fl) m (s\<lparr>fs_allocs := a\<rparr>)"
    have wr: "vfs_write f buf s = Some (r, if 0 < r then put_offset f (wrap64 (off + nat r)) ?t else ?t)"
      using F(1) fl True n w(1) by (simp add: vfs_write_def Let_def off_def write_off_def)
    have t: "fs_nodes ?t = (fs_nodes s)(fl_vn fl \<mapsto> m)" "fs_files ?t = fs_files s" by (simp_all add: put_node_def)
    have res: "write_result fl buf off n r m" using w(3,4) True by (simp add: write_result_def split: if_splits)
    show ?thesis
    proof (cases "0 < r")
      case False
      then have "vfs_write f buf s = Some (r, ?t)" using wr by simp
      then show ?thesis using False n w(2) t res
        by (intro exI [of _ r] exI [of _ ?t] exI [of _ n] exI [of _ m]) (simp add: off_def)
    next
      case pos: True
      then have r: "r = int (length buf)" "off + length buf < two64" using w(4) by (auto simp: kconst split: if_splits)
      let ?u = "put_offset f (off + length buf) ?t"
      have "vfs_write f buf s = Some (r, ?u)" using wr r pos by simp
      moreover have "fs_inv ?u ex" by (rule fs_inv_put_offset [OF w(2) r(2)])
      moreover have "fs_files ?u = (fs_files s)(f \<mapsto> fl\<lparr>fl_offset := off + length buf\<rparr>)" "fs_nodes ?u = fs_nodes ?t"
        using fl t by (simp_all add: put_offset_def)
      ultimately show ?thesis using n t res pos
        by (intro exI [of _ r] exI [of _ ?u] exI [of _ n] exI [of _ m]) (simp add: off_def)
    qed
  qed
qed

lemma vfs_seek_ok:
  assumes inv: "fs_inv s ex" and fl: "fs_files s f = Some fl"
  shows "\<exists>r s'. vfs_seek f off whence s = Some (r, s') \<and> fs_inv s' ex \<and> dom (fs_files s') = dom (fs_files s) \<and>
    (if r < 0 then r = - EINVAL \<and> s' = s else s' = put_offset f (nat r) s \<and> nat r < two64)"
proof -
  have F: "f \<noteq> 0" "fs_nodes s (fl_vn fl) \<noteq> None" using fs_inv_files [OF inv] fl unfolding files_ok_def by auto
  then obtain n where n: "fs_nodes s (fl_vn fl) = Some n" by auto
  have b: "nat (as_i64 x) < two64" for x by (simp add: as_i64_def)
  have i: "fs_inv (put_offset f (nat (as_i64 x)) s) ex" for x by (rule fs_inv_put_offset [OF inv b])
  have d: "dom (fs_files (put_offset f w s)) = dom (fs_files s)" for w by (auto simp: put_offset_def dom_def)
  show ?thesis using n fl F(1) inv i d b
    by (cases "whence = 0"; cases "whence = 1"; cases "whence = 2") (auto simp: vfs_seek_def Let_def kconst)
qed

section \<open>Properties\<close>

text \<open>C14: path resolution refines a walk of the tree.  On every file system that satisfies the
  invariant \<^verbatim>\<open>vfs_resolve\<close> returns; a path that is not absolute is refused, an error of the walk is
  returned with the state unchanged, and a node is returned with exactly one reference more on it and
  nothing else changed: every reference taken on the way has been dropped.\<close>

theorem vfs_resolve_refines:
  assumes "fs_inv s (\<lambda>_. 0)"
  shows "vfs_resolve path s =
    Some (if path = [] \<or> hd path \<noteq> CHR ''/'' then (Inl (- EINVAL), s)
      else case walk s (fs_root s) (comps path) of Inl e \<Rightarrow> (Inl e, s) | Inr v \<Rightarrow> (Inr v, taken v s))"
  by (rule vfs_resolve_walk [OF assms]) simp

definition dir_node :: "nat \<Rightarrow> nat list \<Rightarrow> ramfs_node" where
  "dir_node rc ch = \<lparr>vn_ino = 1, vn_type = VFS_TYPE_DIR, vn_mode = 0x1ED, vn_refcount = rc, vn_size = 0, vn_parent = 1,
     rn_name = [], rn_data = [], rn_capacity = 0, rn_children = ch\<rparr>"

definition root_vfs :: "(nat \<Rightarrow> nat \<Rightarrow> bool) \<Rightarrow> (nat \<Rightarrow> nat \<Rightarrow> byte) \<Rightarrow> vfs" where
  "root_vfs oom junk = \<lparr>fs_nodes = [1 \<mapsto> dir_node 1 []], fs_files = Map.empty, fs_root = 1, fs_next_ino = 2,
     fs_allocs = 1, fs_oom = oom, fs_junk = junk\<rparr>"

lemma root_vfs_inv: "fs_inv (root_vfs oom junk) (\<lambda>_. 0)"
  by (auto simp: root_vfs_def dir_node_def fs_inv_def files_ok_def node_ok_def refs_def linked_def holders_def kids_def)

lemmas path_simps = comps.simps skip_slashes_def path_name_def path_rest_def path_last_def path_dir_def

theorem vfs_resolve_refines_witness:
  "vfs_resolve ''/../x'' (root_vfs (\<lambda>_ _. False) (\<lambda>_ _. 0)) = Some (Inl (- ENOENT), root_vfs (\<lambda>_ _. False) (\<lambda>_ _. 0))"
  unfolding vfs_resolve_refines [OF root_vfs_inv]
  by (simp add: path_simps Let_def root_vfs_def dir_node_def child_def kids_def)

text \<open>C20: \<^verbatim>\<open>vfs_mkdir\<close>, \<^verbatim>\<open>vfs_unlink\<close> and \<^verbatim>\<open>vfs_rmdir\<close> return on every path, keep the
  invariant, and do exactly what their result says: an error leaves the tree as it was, and success adds
  the one new empty directory under the last name of the path, or removes the one entry; a directory
  is not unlinked, a file is not removed as a directory, and a directory with entries is not removed.\<close>

theorem vfs_directory_ops:
  assumes "fs_inv s (\<lambda>_. 0)"
  shows "(\<exists>r s'. vfs_mkdir path md s = Some (r, s') \<and> fs_inv s' (\<lambda>_. 0) \<and> dir_result s path mkdir_spec r s') \<and>
    (\<exists>r s'. vfs_unlink path s = Some (r, s') \<and> fs_inv s' (\<lambda>_. 0) \<and> dir_result s path unlink_spec r s') \<and>
    (\<exists>r s'. vfs_rmdir path s = Some (r, s') \<and> fs_inv s' (\<lambda>_. 0) \<and> dir_result s path rmdir_spec r s')"
  using vfs_mkdir_ok [OF assms, of path md] vfs_unlink_ok [OF assms, of path] vfs_rmdir_ok [OF assms, of path]
  by simp

theorem vfs_directory_ops_witness:
  "\<exists>s'. vfs_mkdir ''/a'' 0 (root_vfs (\<lambda>_ _. False) (\<lambda>_ _. 0)) = Some (0, s') \<and> child s' 1 ''a'' = Some 2"
proof -
  let ?s = "root_vfs (\<lambda>_ _. False) (\<lambda>_ _. 0)"
  have p: "parent_walk ?s ''/a'' = Inr (''a'', 1)"
    by (simp add: parent_walk_def Let_def path_simps root_vfs_def)
  have c: "child ?s 1 ''a'' = None" "vn_type (the (fs_nodes ?s 1)) = VFS_TYPE_DIR" "fs_allocs ?s = 1"
    "\<not> fs_oom ?s (fs_allocs ?s) 344"
    by (simp_all add: root_vfs_def dir_node_def child_def kids_def)
  obtain r s' where "vfs_mkdir ''/a'' 0 ?s = Some (r, s')" "dir_result ?s ''/a'' mkdir_spec r s'"
    using vfs_directory_ops [OF root_vfs_inv, of "''/a''" 0 "\<lambda>_ _. False" "\<lambda>_ _. 0"] by blast
  then show ?thesis using p c by (simp add: dir_result_def mkdir_spec_def child_added_def)
qed

text \<open>C21: what is written is read back: after \<^verbatim>\<open>vfs_write\<close> accepted a buffer on a file open for
  reading and writing, seeking to where it was written and reading as many bytes returns it.\<close>

theorem vfs_write_read:
  assumes inv: "fs_inv s (\<lambda>_. 0)" and fl: "fs_files s f = Some fl" and n: "fs_nodes s (fl_vn fl) = Some n"
    and acc: "acc_read (fl_flags fl)" and buf: "buf \<noteq> []" "length buf < two64"
    and w: "vfs_write f buf s = Some (r, s1)" "0 < r" and off: "write_off fl n < 9223372036854775808"
  shows "\<exists>s2 s3. vfs_seek f (int (write_off fl n)) 0 s1 = Some (int (write_off fl n), s2) \<and>
    vfs_read f (length buf) s2 = Some (Inr buf, s3)"
proof -
  let ?off = "write_off fl n" and ?fl = "fl\<lparr>fl_offset := write_off fl n + length buf\<rparr>"
  obtain m where m: "fs_inv s1 (\<lambda>_. 0)" "write_result fl buf ?off n r m" "fs_nodes s1 = (fs_nodes s)(fl_vn fl \<mapsto> m)"
    "fs_files s1 = (fs_files s)(f \<mapsto> ?fl)"
    using vfs_write_ok [OF inv fl buf(2)] n w by auto
  have ty: "vn_type m = VFS_TYPE_REG" "take (length buf) (drop ?off (content m)) = buf"
    using m(2) w(2) buf(1) by (auto simp: write_result_def kconst split: if_splits)
  have f0: "f \<noteq> 0" using fs_inv_files [OF inv] fl by (auto simp: files_ok_def)
  let ?s2 = "put_offset f ?off s1"
  have "as_i64 (int ?off) = int ?off" using off by (simp add: as_i64_def)
  then have sk: "vfs_seek f (int ?off) 0 s1 = Some (int ?off, ?s2)" using f0 m(4) by (simp add: vfs_seek_def Let_def)
  have f2: "fs_files ?s2 f = Some (?fl\<lparr>fl_offset := ?off\<rparr>)" "fs_nodes ?s2 = fs_nodes s1" using m(4) by (simp_all add: put_offset_def)
  have i2: "fs_inv ?s2 (\<lambda>_. 0)" using off by (intro fs_inv_put_offset [OF m(1)]) simp
  show ?thesis using vfs_read_ok [OF i2 f2(1), of "length buf"] f2(2) m(3) acc ty sk by auto
qed

text \<open>A root directory with one file of two bytes, open for reading and writing.\<close>

definition file_vfs :: vfs where
  "file_vfs = \<lparr>fs_nodes = [1 \<mapsto> dir_node 1 [2], 2 \<mapsto> \<lparr>vn_ino = 2, vn_type = VFS_TYPE_REG, vn_mode = 0, vn_refcount = 2,
       vn_size = 2, vn_parent = 1, rn_name = ''f'', rn_data = [65, 66], rn_capacity = 2, rn_children = []\<rparr>],
     fs_files = [3 \<mapsto> new_file 2 VFS_O_RDWR], fs_root = 1, fs_next_ino = 3, fs_allocs = 3,
     fs_oom = \<lambda>_ _. False, fs_junk = \<lambda>_ _. 0\<rparr>"

lemma file_vfs_inv: "fs_inv file_vfs (\<lambda>_. 0)"
proof -
  have h: "holders file_vfs v = (if v = 2 then 1 else 0)" for v
  proof -
    have "{f. \<exists>fl. fs_files file_vfs f = Some fl \<and> fl_vn fl = v} = (if v = 2 then {3} else {})"
      by (auto simp: file_vfs_def new_file_def split: if_splits)
    then show ?thesis by (simp add: holders_def)
  qed
  have k: "kids file_vfs v = (if v = 1 then [2] else [])" for v by (simp add: kids_def file_vfs_def dir_node_def)
  have l: "linked file_vfs v \<longleftrightarrow> v = 1 \<or> v = 2" for v
    unfolding linked_def k by (auto simp: file_vfs_def)
  have "files_ok file_vfs" by (auto simp: files_ok_def file_vfs_def new_file_def split: if_splits)
  moreover have "node_ok file_vfs v n \<and> vn_refcount n = refs file_vfs (\<lambda>_. 0) v \<and> 0 < refs file_vfs (\<lambda>_. 0) v"
    if "fs_nodes file_vfs v = Some n" for v n
    using that unfolding node_ok_def refs_def l h by (auto simp: file_vfs_def dir_node_def split: if_splits)
  ultimately show ?thesis unfolding fs_inv_def by (auto simp: file_vfs_def dir_node_def)
qed

lemmas file_simps = file_vfs_def new_file_def acc_read_def acc_write_def write_off_def vfs_write_def ramfs_write_def
  grow_for_def put_bytes_def put_node_def put_offset_def vfs_seek_def vfs_read_def ramfs_read_def ramfs_truncate_def
  as_i64_def Let_def wrap64_def

theorem vfs_write_read_witness:
  "\<exists>s1 s2 s3. vfs_write 3 [67] file_vfs = Some (1, s1) \<and> vfs_seek 3 0 0 s1 = Some (0, s2) \<and> vfs_read 3 1 s2 = Some (Inr [67], s3)"
proof -
  obtain s1 where w: "vfs_write 3 [67] file_vfs = Some (1, s1)" by (simp add: file_simps)
  have "\<exists>s2 s3. vfs_seek 3 (int (write_off (new_file 2 VFS_O_RDWR) (the (fs_nodes file_vfs 2)))) 0 s1
      = Some (int (write_off (new_file 2 VFS_O_RDWR) (the (fs_nodes file_vfs 2))), s2) \<and> vfs_read 3 (length [67 :: byte]) s2 = Some (Inr [67], s3)"
    by (rule vfs_write_read [OF file_vfs_inv _ _ _ _ _ w]) (simp_all add: file_simps)
  then show ?thesis using w by (simp add: file_simps)
qed


end
