(* ===== verification/VfsServer.thy ===== *)
theory VfsServer
  imports Vfs
begin

text \<open>
  The VFS server program, \<^verbatim>\<open>userspace/vfs/main.c\<close>: the table of attached clients, the request
  dispatcher and one round of the receive loop of \<^verbatim>\<open>main\<close>.  What the server sends and which
  handles it closes is recorded in an output log.  The request has the layout of
  \<^verbatim>\<open>struct vfs_req\<close>; a reply keeps \<^verbatim>\<open>data\<close> as the list of its \<^verbatim>\<open>data_len\<close> bytes.
\<close>

abbreviation VFS_MAX_CLIENTS :: nat where "VFS_MAX_CLIENTS \<equiv> 8"
abbreviation VFS_RPC_PATH_MAX :: nat where "VFS_RPC_PATH_MAX \<equiv> 256"
abbreviation VFS_RPC_DATA_MAX :: nat where "VFS_RPC_DATA_MAX \<equiv> 512"
abbreviation VFS_RPC_MSG_SIZE :: int where "VFS_RPC_MSG_SIZE \<equiv> 1024"
abbreviation EXYDE_HANDLE_INVALID :: nat where "EXYDE_HANDLE_INVALID \<equiv> 0xFFFFFFFF"

datatype vfs_op = VFS_OP_ATTACH | VFS_OP_OPEN | VFS_OP_CLOSE | VFS_OP_READ | VFS_OP_WRITE | VFS_OP_SEEK
  | VFS_OP_MKDIR | VFS_OP_UNLINK | VFS_OP_RMDIR | VFS_OP_READDIR | VFS_OP_SHUTDOWN | VFS_OP_OTHER nat

record vfs_req =
  rq_op :: vfs_op
  rq_fd :: nat
  rq_arg0 :: nat
  rq_arg1 :: nat
  rq_data_len :: nat
  rq_client_id :: nat
  rq_path :: string
  rq_data :: "byte list"

record vfs_rsp =
  rsp_ret :: int
  rsp_aux :: nat
  rsp_data :: "byte list"

datatype out = Sent nat vfs_rsp | Closed nat

record vfs_client =
  cl_in_use :: bool
  cl_id :: nat
  cl_resp :: nat
  cl_fdtab :: vfs_fd_table

record server =
  sv_clients :: "vfs_client list"
  sv_next_id :: nat
  sv_fs :: vfs
  sv_out :: "out list"

section \<open>Clients\<close>

definition client_find :: "nat \<Rightarrow> server \<Rightarrow> nat option" where
  "client_find i sv =
    (if i = 0 then None
     else find (\<lambda>k. cl_in_use (sv_clients sv ! k) \<and> cl_id (sv_clients sv ! k) = i) [0..<VFS_MAX_CLIENTS])"

definition clients_any_alive :: "server \<Rightarrow> bool" where
  "clients_any_alive sv \<longleftrightarrow> find (\<lambda>k. cl_in_use (sv_clients sv ! k)) [0..<VFS_MAX_CLIENTS] \<noteq> None"

definition client_attach :: "nat \<Rightarrow> server \<Rightarrow> nat option \<times> server" where
  "client_attach ch_resp sv =
    (case find (\<lambda>k. \<not> cl_in_use (sv_clients sv ! k)) [0..<VFS_MAX_CLIENTS] of
       None \<Rightarrow> (None, sv)
     | Some k \<Rightarrow> (Some k, sv\<lparr>sv_clients := (sv_clients sv)[k := \<lparr>cl_in_use = True, cl_id = sv_next_id sv,
           cl_resp = ch_resp, cl_fdtab = vfs_fd_init\<rparr>], sv_next_id := wrap32 (sv_next_id sv + 1)\<rparr>))"

fun close_files :: "nat list \<Rightarrow> vfs \<Rightarrow> vfs option" where
  "close_files [] s = Some s"
| "close_files (f # fs) s =
    (if f \<noteq> 0 then do { (_, s) \<leftarrow> vfs_close f s; close_files fs s } else close_files fs s)"

definition client_detach :: "nat \<Rightarrow> server \<Rightarrow> server option" where
  "client_detach k sv = do {
     let c = sv_clients sv ! k;
     fs \<leftarrow> close_files (cl_fdtab c) (sv_fs sv);
     Some (sv\<lparr>sv_clients := (sv_clients sv)[k := c\<lparr>cl_fdtab := replicate VFS_FD_MAX 0,
           cl_resp := EXYDE_HANDLE_INVALID, cl_in_use := False\<rparr>],
         sv_fs := fs, sv_out := sv_out sv @ [Closed (cl_resp c)]\<rparr>) }"

section \<open>Replies\<close>

text \<open>\<^verbatim>\<open>reply_ok\<close> copies \<^verbatim>\<open>data_len\<close> bytes into the 512-byte field of the reply: more would
  overflow it.\<close>

definition reply_ok :: "nat \<Rightarrow> int \<Rightarrow> nat \<Rightarrow> byte list \<Rightarrow> server \<Rightarrow> server option" where
  "reply_ok k ret aux data sv =
    (if VFS_RPC_DATA_MAX < length data then None
     else Some (sv\<lparr>sv_out := sv_out sv @ [Sent (cl_resp (sv_clients sv ! k)) \<lparr>rsp_ret = ret, rsp_aux = aux, rsp_data = data\<rparr>]\<rparr>))"

definition reply_err :: "nat \<Rightarrow> int \<Rightarrow> server \<Rightarrow> server option" where
  "reply_err k err sv =
    Some (sv\<lparr>sv_out := sv_out sv @ [Sent (cl_resp (sv_clients sv ! k)) \<lparr>rsp_ret = - err, rsp_aux = 0, rsp_data = []\<rparr>]\<rparr>)"

definition check_path :: "vfs_req \<Rightarrow> int" where
  "check_path q =
    (case find (\<lambda>i. rq_path q ! i = CHR 0x00) [0..<VFS_RPC_PATH_MAX] of Some _ \<Rightarrow> 0 | None \<Rightarrow> - EINVAL)"

text \<open>The C string in the path field and the conversions \<^verbatim>\<open>(int)\<close> and \<^verbatim>\<open>(u32)\<close> of the arguments.\<close>

definition path_of :: "vfs_req \<Rightarrow> string" where
  "path_of q = takeWhile (\<lambda>c. c \<noteq> CHR 0x00) (rq_path q)"

definition as_i32 :: "nat \<Rightarrow> int" where
  "as_i32 x = (int x + 2147483648) mod 4294967296 - 2147483648"

definition as_u32 :: "nat \<Rightarrow> u32" where
  "as_u32 x = word_of_nat x"

definition name_bytes :: "string \<Rightarrow> byte list" where
  "name_bytes name = map (\<lambda>c. word_of_nat (of_char c)) name @ [0]"

section \<open>Requests\<close>

definition set_fs :: "vfs \<Rightarrow> server \<Rightarrow> server" where
  "set_fs fs sv = sv\<lparr>sv_fs := fs\<rparr>"

definition set_fdtab :: "nat \<Rightarrow> vfs_fd_table \<Rightarrow> server \<Rightarrow> server" where
  "set_fdtab k t sv = sv\<lparr>sv_clients := (sv_clients sv)[k := (sv_clients sv ! k)\<lparr>cl_fdtab := t\<rparr>]\<rparr>"

definition fdtab :: "nat \<Rightarrow> server \<Rightarrow> vfs_fd_table" where
  "fdtab k sv = cl_fdtab (sv_clients sv ! k)"

definition op_open :: "nat \<Rightarrow> vfs_req \<Rightarrow> server \<Rightarrow> ((int + nat) \<times> server) option" where
  "op_open k q sv = do {
     (r, fs) \<leftarrow> vfs_open (path_of q) (as_u32 (rq_arg0 q)) (as_u32 (rq_arg1 q)) (sv_fs sv);
     let sv = set_fs fs sv;
     case r of
       Inl e \<Rightarrow> Some (Inl e, sv)
     | Inr f \<Rightarrow>
         (case vfs_fd_alloc (fdtab k sv) f of
            (Inl e, _) \<Rightarrow> do { (_, fs) \<leftarrow> vfs_close f (sv_fs sv); Some (Inl e, set_fs fs sv) }
          | (Inr fd, t) \<Rightarrow> Some (Inr fd, set_fdtab k t sv)) }"

definition reply_status :: "nat \<Rightarrow> int \<Rightarrow> server \<Rightarrow> server option" where
  "reply_status k r sv = (if r < 0 then reply_err k (- r) sv else reply_ok k 0 0 [] sv)"

definition serve_open :: "nat \<Rightarrow> vfs_req \<Rightarrow> server \<Rightarrow> server option" where
  "serve_open k q sv = do {
     (r, sv) \<leftarrow> op_open k q sv;
     case r of Inl e \<Rightarrow> reply_err k (- e) sv | Inr fd \<Rightarrow> reply_ok k 0 fd [] sv }"

definition serve_close :: "nat \<Rightarrow> vfs_req \<Rightarrow> server \<Rightarrow> server option" where
  "serve_close k q sv = do {
     (r, t, fs) \<leftarrow> vfs_fd_close (fdtab k sv) (as_i32 (rq_fd q)) (sv_fs sv);
     reply_status k r (set_fs fs (set_fdtab k t sv)) }"

definition serve_read :: "nat \<Rightarrow> vfs_req \<Rightarrow> server \<Rightarrow> server option" where
  "serve_read k q sv =
    (let f = vfs_fd_get (fdtab k sv) (as_i32 (rq_fd q)) in
     if f = 0 then reply_err k EBADF sv
     else if rq_arg0 q = 0 \<or> VFS_RPC_DATA_MAX < rq_arg0 q then reply_err k EINVAL sv
     else do {
       (r, fs) \<leftarrow> vfs_read f (rq_arg0 q) (sv_fs sv);
       case r of
         Inl e \<Rightarrow> reply_err k (- e) (set_fs fs sv)
       | Inr buf \<Rightarrow> reply_ok k (int (length buf)) 0 buf (set_fs fs sv) })"

definition serve_write :: "nat \<Rightarrow> vfs_req \<Rightarrow> server \<Rightarrow> server option" where
  "serve_write k q sv =
    (let f = vfs_fd_get (fdtab k sv) (as_i32 (rq_fd q)) in
     if f = 0 then reply_err k EBADF sv
     else if rq_data_len q = 0 \<or> VFS_RPC_DATA_MAX < rq_data_len q then reply_err k EINVAL sv
     else do {
       (n, fs) \<leftarrow> vfs_write f (take (rq_data_len q) (rq_data q)) (sv_fs sv);
       if n < 0 then reply_err k (- n) (set_fs fs sv) else reply_ok k n 0 [] (set_fs fs sv) })"

definition serve_seek :: "nat \<Rightarrow> vfs_req \<Rightarrow> server \<Rightarrow> server option" where
  "serve_seek k q sv =
    (let f = vfs_fd_get (fdtab k sv) (as_i32 (rq_fd q)) in
     if f = 0 then reply_err k EBADF sv
     else do {
       (r, fs) \<leftarrow> vfs_seek f (as_i64 (int (rq_arg0 q))) (as_i32 (rq_arg1 q)) (sv_fs sv);
       if r < 0 then reply_err k (- r) (set_fs fs sv) else reply_ok k r (nat r) [] (set_fs fs sv) })"

definition serve_readdir :: "nat \<Rightarrow> vfs_req \<Rightarrow> server \<Rightarrow> server option" where
  "serve_readdir k q sv =
    (let f = vfs_fd_get (fdtab k sv) (as_i32 (rq_fd q)) in
     if f = 0 then reply_err k EBADF sv
     else do {
       fl \<leftarrow> fs_files (sv_fs sv) f;
       n \<leftarrow> fs_nodes (sv_fs sv) (fl_vn fl);
       if vn_type n \<noteq> VFS_TYPE_DIR then reply_err k ENOTDIR sv
       else do {
         r \<leftarrow> ramfs_readdir (fl_vn fl) (wrap32 (rq_arg0 q)) VFS_RPC_DATA_MAX (sv_fs sv);
         case r of
           Inl e \<Rightarrow> reply_err k (- e) sv
         | Inr name \<Rightarrow> reply_ok k 0 0 (name_bytes name) sv } })"

definition serve_dirop :: "nat \<Rightarrow> (vfs \<Rightarrow> (int \<times> vfs) option) \<Rightarrow> server \<Rightarrow> server option" where
  "serve_dirop k act sv = do { (r, fs) \<leftarrow> act (sv_fs sv); reply_status k r (set_fs fs sv) }"

definition handle :: "nat \<Rightarrow> vfs_req \<Rightarrow> server \<Rightarrow> server option" where
  "handle k q sv =
    (case rq_op q of
       VFS_OP_OPEN \<Rightarrow> serve_open k q sv
     | VFS_OP_CLOSE \<Rightarrow> serve_close k q sv
     | VFS_OP_READ \<Rightarrow> serve_read k q sv
     | VFS_OP_WRITE \<Rightarrow> serve_write k q sv
     | VFS_OP_SEEK \<Rightarrow> serve_seek k q sv
     | VFS_OP_MKDIR \<Rightarrow> serve_dirop k (vfs_mkdir (path_of q) (as_u32 (rq_arg0 q))) sv
     | VFS_OP_UNLINK \<Rightarrow> serve_dirop k (vfs_unlink (path_of q)) sv
     | VFS_OP_RMDIR \<Rightarrow> serve_dirop k (vfs_rmdir (path_of q)) sv
     | VFS_OP_READDIR \<Rightarrow> serve_readdir k q sv
     | _ \<Rightarrow> reply_err k ENOSYS sv)"

section \<open>The receive loop\<close>

text \<open>One message of \<open>n\<close> bytes with the handle \<open>new_resp\<close> it carried: the exit status when the
  program ends, and the new state.\<close>

definition serve :: "int \<Rightarrow> vfs_req \<Rightarrow> nat \<Rightarrow> server \<Rightarrow> (int option \<times> server) option" where
  "serve n q new_resp sv =
    (if n \<noteq> VFS_RPC_MSG_SIZE then Some (Some 1, sv)
     else if rq_op q = VFS_OP_ATTACH then
       (if new_resp = EXYDE_HANDLE_INVALID then Some (None, sv)
        else case client_attach new_resp sv of
          (None, sv) \<Rightarrow> Some (None, sv\<lparr>sv_out := sv_out sv @
             [Sent new_resp \<lparr>rsp_ret = - EMFILE, rsp_aux = 0, rsp_data = []\<rparr>, Closed new_resp]\<rparr>)
        | (Some k, sv) \<Rightarrow> Some (None, sv\<lparr>sv_out := sv_out sv @
             [Sent (cl_resp (sv_clients sv ! k)) \<lparr>rsp_ret = 0, rsp_aux = cl_id (sv_clients sv ! k), rsp_data = []\<rparr>]\<rparr>))
     else do {
       let sv = (if new_resp \<noteq> EXYDE_HANDLE_INVALID then sv\<lparr>sv_out := sv_out sv @ [Closed new_resp]\<rparr> else sv);
       case client_find (rq_client_id q) sv of
         None \<Rightarrow> Some (None, sv)
       | Some k \<Rightarrow>
           if rq_op q = VFS_OP_SHUTDOWN then do {
             sv \<leftarrow> reply_ok k 0 0 [] sv;
             sv \<leftarrow> client_detach k sv;
             Some (if clients_any_alive sv then None else Some 0, sv) }
           else if rq_op q \<in> {VFS_OP_OPEN, VFS_OP_MKDIR, VFS_OP_UNLINK, VFS_OP_RMDIR} \<and> check_path q < 0
           then do { sv \<leftarrow> reply_err k EINVAL sv; Some (None, sv) }
           else do { sv \<leftarrow> handle k q sv; Some (None, sv) } })"

text \<open>The state in which \<^verbatim>\<open>main\<close> enters the loop; \<open>None\<close> as the first component when no root
  could be made.\<close>

definition server_boot :: "vfs \<Rightarrow> (server option) option" where
  "server_boot s = do {
     (root, s) \<leftarrow> ramfs_create_root (vfs_init s);
     if root = 0 then Some None
     else do {
       s \<leftarrow> vfs_mount_root root s;
       Some (Some \<lparr>sv_clients = replicate VFS_MAX_CLIENTS \<lparr>cl_in_use = False, cl_id = 0, cl_resp = 0,
           cl_fdtab = replicate VFS_FD_MAX 0\<rparr>, sv_next_id = 1, sv_fs = s, sv_out = []\<rparr>) } }"

section \<open>Invariant\<close>

text \<open>Every open file of the file system is in exactly one slot of one client's descriptor
  table, and every used slot names an open file.\<close>

definition ent :: "vfs_client list \<Rightarrow> nat \<times> nat \<Rightarrow> nat" where
  "ent cs p = cl_fdtab (cs ! fst p) ! snd p"

definition slots :: "vfs_client list \<Rightarrow> (nat \<times> nat) set" where
  "slots cs = {p. fst p < VFS_MAX_CLIENTS \<and> snd p < VFS_FD_MAX \<and> ent cs p \<noteq> 0}"

definition tables_ok :: "vfs_client list \<Rightarrow> nat set \<Rightarrow> bool" where
  "tables_ok cs F \<longleftrightarrow> length cs = VFS_MAX_CLIENTS \<and> (\<forall>c \<in> set cs. length (cl_fdtab c) = VFS_FD_MAX) \<and>
     (\<forall>c \<in> set cs. \<not> cl_in_use c \<longrightarrow> cl_fdtab c = replicate VFS_FD_MAX 0) \<and>
     inj_on (ent cs) (slots cs) \<and> ent cs ` slots cs = F"

definition server_inv :: "server \<Rightarrow> bool" where
  "server_inv sv \<longleftrightarrow> fs_inv (sv_fs sv) (\<lambda>_. 0) \<and> tables_ok (sv_clients sv) (dom (fs_files (sv_fs sv)))"

lemma slots_finite: "finite (slots cs)" "card (slots cs) \<le> 512"
proof -
  have sub: "slots cs \<subseteq> {..<VFS_MAX_CLIENTS} \<times> {..<VFS_FD_MAX}" by (auto simp: slots_def)
  then show "finite (slots cs)" using finite_subset by blast
  show "card (slots cs) \<le> 512" using card_mono [OF _ sub] by simp
qed

lemma tables_card: "tables_ok cs F \<Longrightarrow> card F \<le> 512"
  using slots_finite [of cs] card_image_le [of "slots cs" "ent cs"] by (auto simp: tables_ok_def)

lemma tables_client: "tables_ok cs F \<Longrightarrow> k < VFS_MAX_CLIENTS \<Longrightarrow> length (cl_fdtab (cs ! k)) = VFS_FD_MAX"
  by (simp add: tables_ok_def)

lemma ent_upd: "k < length cs \<Longrightarrow> ent (cs[k := c]) p = (if fst p = k then cl_fdtab c ! snd p else ent cs p)"
  by (simp add: ent_def nth_list_update)

lemma tables_put:
  assumes ok: "tables_ok cs F" and k: "k < VFS_MAX_CLIENTS" "cl_in_use (cs ! k)" and i: "i < VFS_FD_MAX" "cl_fdtab (cs ! k) ! i = 0"
    and f: "f \<noteq> 0" "f \<notin> F"
  shows "tables_ok (cs[k := (cs ! k)\<lparr>cl_fdtab := (cl_fdtab (cs ! k))[i := f]\<rparr>]) (insert f F)"
proof -
  let ?cs = "cs[k := (cs ! k)\<lparr>cl_fdtab := (cl_fdtab (cs ! k))[i := f]\<rparr>]"
  have len: "length cs = VFS_MAX_CLIENTS" "length (cl_fdtab (cs ! k)) = VFS_FD_MAX" using ok k by (auto simp: tables_ok_def)
  have e: "ent ?cs p = (if p = (k, i) then f else ent cs p)" for p
  proof (cases "fst p = k")
    case True
    then show ?thesis using len k i by (cases p) (auto simp: ent_upd nth_list_update ent_def)
  next
    case False
    then show ?thesis using len k by (auto simp: ent_upd)
  qed
  have e0: "ent cs (k, i) = 0" using i by (simp add: ent_def)
  have sl: "slots ?cs = insert (k, i) (slots cs)" using f k i e0 by (auto simp: slots_def e)
  have new: "(k, i) \<notin> slots cs" using e0 by (simp add: slots_def)
  have img: "ent ?cs ` slots cs = ent cs ` slots cs" using new by (intro image_cong) (auto simp: e)
  have "inj_on (ent ?cs) (slots cs) \<longleftrightarrow> inj_on (ent cs) (slots cs)" using new by (intro inj_on_cong) (auto simp: e)
  then have "inj_on (ent ?cs) (insert (k, i) (slots cs))"
    using ok new f img by (simp add: tables_ok_def e)
  moreover have "ent ?cs ` insert (k, i) (slots cs) = insert f F"
    unfolding image_insert img using e [of "(k, i)"] ok by (simp add: tables_ok_def)
  moreover have "\<forall>c \<in> set ?cs. length (cl_fdtab c) = VFS_FD_MAX \<and> (\<not> cl_in_use c \<longrightarrow> cl_fdtab c = replicate VFS_FD_MAX 0)"
    using ok len k by (auto simp: tables_ok_def dest!: set_update_subset_insert [THEN subsetD])
  ultimately show ?thesis using ok unfolding sl [symmetric] by (simp add: tables_ok_def)
qed

lemma tables_keep:
  assumes ok: "tables_ok cs F" and k: "k < VFS_MAX_CLIENTS" and c: "cl_fdtab c = cl_fdtab (cs ! k)"
    "\<not> cl_in_use c \<longrightarrow> cl_fdtab c = replicate VFS_FD_MAX 0"
  shows "tables_ok (cs[k := c]) F"
proof -
  have len: "length cs = VFS_MAX_CLIENTS" using ok by (simp add: tables_ok_def)
  have e: "ent (cs[k := c]) = ent cs" using len k c(1) by (intro ext) (simp add: ent_def nth_list_update)
  have "\<forall>c' \<in> set (cs[k := c]). length (cl_fdtab c') = VFS_FD_MAX \<and> (\<not> cl_in_use c' \<longrightarrow> cl_fdtab c' = replicate VFS_FD_MAX 0)"
    using ok len k c by (auto simp: tables_ok_def dest!: set_update_subset_insert [THEN subsetD])
  then show ?thesis using ok by (simp add: tables_ok_def slots_def e)
qed

text \<open>Emptying the slots \<open>I\<close> of client \<open>k\<close>.\<close>

lemma tables_clear:
  assumes ok: "tables_ok cs F" and k: "k < VFS_MAX_CLIENTS" and t: "length (cl_fdtab c) = VFS_FD_MAX"
    "\<And>i. i < VFS_FD_MAX \<Longrightarrow> cl_fdtab c ! i = (if i \<in> I then 0 else cl_fdtab (cs ! k) ! i)"
    "\<not> cl_in_use c \<longrightarrow> cl_fdtab c = replicate VFS_FD_MAX 0"
  shows "tables_ok (cs[k := c]) (F - (\<lambda>i. cl_fdtab (cs ! k) ! i) ` {i. i < VFS_FD_MAX \<and> i \<in> I \<and> cl_fdtab (cs ! k) ! i \<noteq> 0})"
proof -
  let ?cs = "cs[k := c]" and ?gone = "{i. i < VFS_FD_MAX \<and> i \<in> I \<and> ent cs (k, i) \<noteq> 0}"
  have ek: "cl_fdtab (cs ! k) ! i = ent cs (k, i)" for i by (simp add: ent_def)
  have len: "length cs = VFS_MAX_CLIENTS" using ok by (simp add: tables_ok_def)
  have e: "ent ?cs p = (if fst p = k \<and> snd p \<in> I then 0 else ent cs p)" if "snd p < VFS_FD_MAX" for p
    using len k t(2) that by (auto simp: ent_def nth_list_update)
  have sl: "slots ?cs = slots cs - Pair k ` ?gone"
    using k e by (auto simp: slots_def image_iff split: if_splits)
  have inj: "inj_on (ent cs) (slots cs)" using ok by (simp add: tables_ok_def)
  have same: "p \<in> slots ?cs \<Longrightarrow> ent ?cs p = ent cs p" for p using e [of p] by (auto simp: slots_def split: if_splits)
  have "inj_on (ent ?cs) (slots ?cs)"
  proof -
    have "inj_on (ent cs) (slots ?cs)" by (rule inj_on_subset [OF inj]) (unfold sl, blast)
    then show ?thesis using inj_on_cong [of "slots ?cs" "ent ?cs" "ent cs", OF same] by blast
  qed
  moreover have "ent ?cs ` slots ?cs = F - (\<lambda>i. ent cs (k, i)) ` ?gone"
  proof -
    have "Pair k ` ?gone \<subseteq> slots cs" using k by (auto simp: slots_def)
    then have "ent cs ` (slots cs - Pair k ` ?gone) = ent cs ` slots cs - ent cs ` (Pair k ` ?gone)"
      using inj by (simp add: inj_on_image_set_diff)
    moreover have "ent cs ` (Pair k ` ?gone) = (\<lambda>i. ent cs (k, i)) ` ?gone" by (simp add: image_image)
    moreover have "ent ?cs ` slots ?cs = ent cs ` slots ?cs" using same by (intro image_cong) auto
    ultimately show ?thesis using ok sl by (simp add: tables_ok_def)
  qed
  moreover have "\<forall>c' \<in> set ?cs. length (cl_fdtab c') = VFS_FD_MAX \<and> (\<not> cl_in_use c' \<longrightarrow> cl_fdtab c' = replicate VFS_FD_MAX 0)"
    using ok t(1,3) by (auto simp: tables_ok_def dest!: set_update_subset_insert [THEN subsetD])
  ultimately show ?thesis using ok unfolding ek by (simp add: tables_ok_def)
qed

section \<open>Every request is served\<close>

text \<open>\<open>kept\<close>: the request changed at most the file system and the table of client \<open>k\<close>;
  \<open>handled\<close>: it was then answered by one reply on the channel of client \<open>k\<close>.\<close>

definition kept :: "nat \<Rightarrow> server \<Rightarrow> server \<Rightarrow> bool" where
  "kept k sv sv' \<longleftrightarrow> server_inv sv' \<and> (\<forall>i. i \<noteq> k \<longrightarrow> sv_clients sv' ! i = sv_clients sv ! i) \<and>
     cl_resp (sv_clients sv' ! k) = cl_resp (sv_clients sv ! k) \<and> sv_out sv' = sv_out sv"

definition handled :: "nat \<Rightarrow> server \<Rightarrow> server \<Rightarrow> bool" where
  "handled k sv sv' \<longleftrightarrow> server_inv sv' \<and> (\<forall>i. i \<noteq> k \<longrightarrow> sv_clients sv' ! i = sv_clients sv ! i) \<and>
     (\<exists>rs. sv_out sv' = sv_out sv @ [Sent (cl_resp (sv_clients sv ! k)) rs] \<and> length (rsp_data rs) \<le> VFS_RPC_DATA_MAX)"

lemma server_inv_out [simp]: "server_inv (sv\<lparr>sv_out := out\<rparr>) = server_inv sv"
  by (simp add: server_inv_def)

lemma reply_err_handled: "kept k sv sv1 \<Longrightarrow> \<exists>sv'. reply_err k e sv1 = Some sv' \<and> handled k sv sv'"
  by (auto simp: kept_def handled_def reply_err_def)

lemma reply_ok_handled:
  "kept k sv sv1 \<Longrightarrow> length data \<le> VFS_RPC_DATA_MAX \<Longrightarrow> \<exists>sv'. reply_ok k r aux data sv1 = Some sv' \<and> handled k sv sv'"
  by (auto simp: kept_def handled_def reply_ok_def)

lemma reply_status_handled: "kept k sv sv1 \<Longrightarrow> \<exists>sv'. reply_status k r sv1 = Some sv' \<and> handled k sv sv'"
  unfolding reply_status_def using reply_err_handled reply_ok_handled [where data = "[]"] by auto

lemma kept_refl: "server_inv sv \<Longrightarrow> kept k sv sv"
  by (simp add: kept_def)

lemma kept_set_fs:
  "server_inv sv \<Longrightarrow> fs_inv fs (\<lambda>_. 0) \<Longrightarrow> dom (fs_files fs) = dom (fs_files (sv_fs sv)) \<Longrightarrow> kept k sv (set_fs fs sv)"
  by (simp add: kept_def server_inv_def set_fs_def)

lemma server_file:
  assumes inv: "server_inv sv" and k: "k < VFS_MAX_CLIENTS" and f: "f = vfs_fd_get (fdtab k sv) fd" "f \<noteq> 0"
  shows "\<exists>fl. fs_files (sv_fs sv) f = Some fl"
proof -
  have fd: "0 \<le> fd" "nat fd < VFS_FD_MAX" "f = ent (sv_clients sv) (k, nat fd)"
    using f by (auto simp: vfs_fd_get_def fdtab_def ent_def split: if_splits)
  then have "(k, nat fd) \<in> slots (sv_clients sv)" using k f(2) by (simp add: slots_def)
  then have "f \<in> dom (fs_files (sv_fs sv))" using inv fd(3) unfolding server_inv_def tables_ok_def by blast
  then show ?thesis by auto
qed

lemma server_inv_fs: "server_inv sv \<Longrightarrow> fs_inv (sv_fs sv) (\<lambda>_. 0)"
  by (simp add: server_inv_def)

lemma server_card: "server_inv sv \<Longrightarrow> card (dom (fs_files (sv_fs sv))) + 1 < 2147483648"
  using tables_card unfolding server_inv_def by fastforce

lemma serve_read_ok:
  assumes inv: "server_inv sv" and k: "k < VFS_MAX_CLIENTS"
  shows "\<exists>sv'. serve_read k q sv = Some sv' \<and> handled k sv sv'"
proof -
  let ?f = "vfs_fd_get (fdtab k sv) (as_i32 (rq_fd q))"
  consider "?f = 0" | "?f \<noteq> 0" "rq_arg0 q = 0 \<or> VFS_RPC_DATA_MAX < rq_arg0 q" | "?f \<noteq> 0" "0 < rq_arg0 q" "rq_arg0 q \<le> VFS_RPC_DATA_MAX"
    by linarith
  then show ?thesis
  proof cases
    case 3
    obtain fl where fl: "fs_files (sv_fs sv) ?f = Some fl" using server_file [OF inv k refl 3(1)] by blast
    obtain r fs where r: "vfs_read ?f (rq_arg0 q) (sv_fs sv) = Some (r, fs)" "fs_inv fs (\<lambda>_. 0)"
      "dom (fs_files fs) = dom (fs_files (sv_fs sv))" "\<forall>buf. r = Inr buf \<longrightarrow> length buf \<le> rq_arg0 q"
      using vfs_read_ok [OF server_inv_fs [OF inv] fl, of "rq_arg0 q"] by (fastforce split: if_splits)
    have "kept k sv (set_fs fs sv)" by (rule kept_set_fs [OF inv r(2,3)])
    then show ?thesis using 3 r reply_err_handled reply_ok_handled [where data = "projr r"]
      by (cases r) (auto simp: serve_read_def Let_def)
  qed (use reply_err_handled [OF kept_refl [OF inv]] in \<open>auto simp: serve_read_def Let_def\<close>)
qed

lemma serve_write_ok:
  assumes inv: "server_inv sv" and k: "k < VFS_MAX_CLIENTS" and q: "length (rq_data q) = VFS_RPC_DATA_MAX"
  shows "\<exists>sv'. serve_write k q sv = Some sv' \<and> handled k sv sv'"
proof -
  let ?f = "vfs_fd_get (fdtab k sv) (as_i32 (rq_fd q))" and ?buf = "take (rq_data_len q) (rq_data q)"
  consider "?f = 0" | "?f \<noteq> 0" "rq_data_len q = 0 \<or> VFS_RPC_DATA_MAX < rq_data_len q" | "?f \<noteq> 0" "0 < rq_data_len q" "rq_data_len q \<le> VFS_RPC_DATA_MAX"
    by linarith
  then show ?thesis
  proof cases
    case 3
    obtain fl where fl: "fs_files (sv_fs sv) ?f = Some fl" using server_file [OF inv k refl 3(1)] by blast
    have "length ?buf < two64" using q by simp
    from vfs_write_ok [OF server_inv_fs [OF inv] fl this] obtain r fs where
      r: "vfs_write ?f ?buf (sv_fs sv) = Some (r, fs)" "fs_inv fs (\<lambda>_. 0)"
        "fs_files fs = (if 0 < r then (fs_files (sv_fs sv))(?f \<mapsto> fl\<lparr>fl_offset := write_off fl (the (fs_nodes (sv_fs sv) (fl_vn fl))) + length ?buf\<rparr>) else fs_files (sv_fs sv))"
      by auto
    have "dom (fs_files fs) = dom (fs_files (sv_fs sv))" using r(3) fl by (auto simp: dom_def)
    then have "kept k sv (set_fs fs sv)" by (rule kept_set_fs [OF inv r(2)])
    then show ?thesis using 3 r(1) reply_err_handled reply_ok_handled [where data = "[]"]
      by (auto simp: serve_write_def Let_def)
  qed (use reply_err_handled [OF kept_refl [OF inv]] in \<open>auto simp: serve_write_def Let_def\<close>)
qed

lemma serve_seek_ok:
  assumes inv: "server_inv sv" and k: "k < VFS_MAX_CLIENTS"
  shows "\<exists>sv'. serve_seek k q sv = Some sv' \<and> handled k sv sv'"
proof -
  let ?f = "vfs_fd_get (fdtab k sv) (as_i32 (rq_fd q))"
  show ?thesis
  proof (cases "?f = 0")
    case True
    then show ?thesis using reply_err_handled [OF kept_refl [OF inv]] by (auto simp: serve_seek_def Let_def)
  next
    case False
    obtain fl where fl: "fs_files (sv_fs sv) ?f = Some fl" using server_file [OF inv k refl False] by blast
    obtain r fs where r: "vfs_seek ?f (as_i64 (int (rq_arg0 q))) (as_i32 (rq_arg1 q)) (sv_fs sv) = Some (r, fs)" "fs_inv fs (\<lambda>_. 0)"
      "dom (fs_files fs) = dom (fs_files (sv_fs sv))"
      using vfs_seek_ok [OF server_inv_fs [OF inv] fl] by blast
    have "kept k sv (set_fs fs sv)" by (rule kept_set_fs [OF inv r(2,3)])
    then show ?thesis using False r(1) reply_err_handled reply_ok_handled [where data = "[]"]
      by (auto simp: serve_seek_def Let_def)
  qed
qed

lemma ramfs_readdir_ok:
  assumes inv: "fs_inv s ex" and d: "fs_nodes s dir = Some d"
  shows "\<exists>r. ramfs_readdir dir i n s = Some r \<and> (\<forall>name. r = Inr name \<longrightarrow> length name + 1 \<le> n)"
proof (cases "i < length (rn_children d)")
  case True
  then have "rn_children d ! i \<in> set (rn_children d)" by simp
  then obtain c where "fs_nodes s (rn_children d ! i) = Some c"
    using fs_invD(1) [OF inv d] unfolding node_ok_def by blast
  then show ?thesis using True d by (auto simp: ramfs_readdir_def)
qed (use d in \<open>auto simp: ramfs_readdir_def\<close>)

lemma serve_readdir_ok:
  assumes inv: "server_inv sv" and k: "k < VFS_MAX_CLIENTS"
  shows "\<exists>sv'. serve_readdir k q sv = Some sv' \<and> handled k sv sv'"
proof -
  let ?f = "vfs_fd_get (fdtab k sv) (as_i32 (rq_fd q))"
  show ?thesis
  proof (cases "?f = 0")
    case True
    then show ?thesis using reply_err_handled [OF kept_refl [OF inv]] by (auto simp: serve_readdir_def Let_def)
  next
    case False
    obtain fl where fl: "fs_files (sv_fs sv) ?f = Some fl" using server_file [OF inv k refl False] by blast
    obtain n where n: "fs_nodes (sv_fs sv) (fl_vn fl) = Some n"
      using fs_inv_files [OF server_inv_fs [OF inv]] fl unfolding files_ok_def by fastforce
    obtain r where r: "ramfs_readdir (fl_vn fl) (wrap32 (rq_arg0 q)) VFS_RPC_DATA_MAX (sv_fs sv) = Some r"
      "\<forall>name. r = Inr name \<longrightarrow> length name + 1 \<le> VFS_RPC_DATA_MAX"
      using ramfs_readdir_ok [OF server_inv_fs [OF inv] n] by blast
    show ?thesis using False fl n r reply_err_handled [OF kept_refl [OF inv]]
        reply_ok_handled [OF kept_refl [OF inv], of "name_bytes (projr r)"]
      by (cases r) (auto simp: serve_readdir_def Let_def name_bytes_def)
  qed
qed

lemma serve_dirop_ok:
  assumes inv: "server_inv sv" and act: "\<exists>r fs. act (sv_fs sv) = Some (r, fs) \<and> fs_inv fs (\<lambda>_. 0) \<and> fs_files fs = fs_files (sv_fs sv)"
  shows "\<exists>sv'. serve_dirop k act sv = Some sv' \<and> handled k sv sv'"
proof -
  obtain r fs where a: "act (sv_fs sv) = Some (r, fs)" "fs_inv fs (\<lambda>_. 0)" "fs_files fs = fs_files (sv_fs sv)"
    using act by blast
  have "kept k sv (set_fs fs sv)" by (rule kept_set_fs [OF inv a(2)]) (simp add: a(3))
  then show ?thesis using reply_status_handled a(1) by (simp add: serve_dirop_def)
qed

lemma dir_result_files:
  assumes "dir_result s path Q r s'" "\<And>d name s r s'. Q d name s r s' \<Longrightarrow> fs_files s' = fs_files s"
  shows "fs_files s' = fs_files s"
  using assms by (auto simp: dir_result_def split: sum.splits prod.splits if_splits)

lemma serve_dirops_ok:
  assumes inv: "server_inv sv"
  shows "\<exists>sv'. serve_dirop k (vfs_mkdir path md) sv = Some sv' \<and> handled k sv sv'"
    "\<exists>sv'. serve_dirop k (vfs_unlink path) sv = Some sv' \<and> handled k sv sv'"
    "\<exists>sv'. serve_dirop k (vfs_rmdir path) sv = Some sv' \<and> handled k sv sv'"
proof -
  note I = server_inv_fs [OF inv]
  show "\<exists>sv'. serve_dirop k (vfs_mkdir path md) sv = Some sv' \<and> handled k sv sv'"
    by (rule serve_dirop_ok [OF inv])
      (use vfs_mkdir_ok [OF I, of path md] dir_result_files [of _ _ mkdir_spec] in \<open>fastforce simp: mkdir_spec_def\<close>)
  show "\<exists>sv'. serve_dirop k (vfs_unlink path) sv = Some sv' \<and> handled k sv sv'"
    by (rule serve_dirop_ok [OF inv])
      (use vfs_unlink_ok [OF I, of path] dir_result_files [of _ _ unlink_spec] in \<open>fastforce simp: unlink_spec_def\<close>)
  show "\<exists>sv'. serve_dirop k (vfs_rmdir path) sv = Some sv' \<and> handled k sv sv'"
    by (rule serve_dirop_ok [OF inv])
      (use vfs_rmdir_ok [OF I, of path] dir_result_files [of _ _ rmdir_spec] in \<open>fastforce simp: rmdir_spec_def\<close>)
qed

lemma find_upt_Some: "find P [0..<n] = Some i \<Longrightarrow> i < n \<and> P i"
  by (auto simp: find_Some_iff)

lemma server_fdtab_len: "server_inv sv \<Longrightarrow> k < VFS_MAX_CLIENTS \<Longrightarrow> length (fdtab k sv) = VFS_FD_MAX"
  using tables_client by (auto simp: server_inv_def fdtab_def)

lemma kept_set_fdtab:
  assumes inv: "server_inv sv" and k: "k < VFS_MAX_CLIENTS"
    and fs: "fs_inv fs (\<lambda>_. 0)" and t: "tables_ok ((sv_clients sv)[k := (sv_clients sv ! k)\<lparr>cl_fdtab := t\<rparr>]) (dom (fs_files fs))"
  shows "kept k sv (set_fs fs (set_fdtab k t sv))"
proof -
  have len: "length (sv_clients sv) = VFS_MAX_CLIENTS" using inv by (simp add: server_inv_def tables_ok_def)
  show ?thesis using fs t k len by (simp add: kept_def server_inv_def set_fs_def set_fdtab_def)
qed

lemma serve_open_ok:
  assumes inv: "server_inv sv" and k: "k < VFS_MAX_CLIENTS" "cl_in_use (sv_clients sv ! k)"
  shows "\<exists>sv'. serve_open k q sv = Some sv' \<and> handled k sv sv'"
proof -
  let ?flags = "as_u32 (rq_arg0 q)"
  obtain r fs where o: "vfs_open (path_of q) ?flags (as_u32 (rq_arg1 q)) (sv_fs sv) = Some (r, fs)"
    "fs_inv fs (\<lambda>_. 0)" "open_result ?flags (sv_fs sv) r fs"
    using vfs_open_ok [OF server_inv_fs [OF inv] _ server_card [OF inv], of "path_of q" ?flags "as_u32 (rq_arg1 q)"] by blast
  have tk: "fdtab k (set_fs fs sv) = fdtab k sv" by (simp add: fdtab_def set_fs_def)
  show ?thesis
  proof (cases r)
    case (Inl e)
    then have "kept k sv (set_fs fs sv)" using o by (intro kept_set_fs [OF inv]) (auto simp: open_result_def)
    then show ?thesis using Inl o(1) reply_err_handled by (auto simp: serve_open_def op_open_def)
  next
    case (Inr f)
    then obtain v where f: "f \<noteq> 0" "fs_files (sv_fs sv) f = None" "fs_files fs = (fs_files (sv_fs sv))(f \<mapsto> new_file v ?flags)"
      using o(3) by (auto simp: open_result_def)
    show ?thesis
    proof (cases "find (\<lambda>i. fdtab k sv ! i = 0) [0..<VFS_FD_MAX]")
      case None
      have "fs_files fs f = Some (new_file v ?flags)" using f by simp
      from vfs_close_ok [OF o(2) this] obtain fs' where c: "vfs_close f fs = Some (0, fs')" "fs_inv fs' (\<lambda>_. 0)" "fs_files fs' = (fs_files fs)(f := None)"
        by blast
      then have "fs_files fs' = fs_files (sv_fs sv)" using f by (auto simp: fun_eq_iff)
      then have "kept k sv (set_fs fs' sv)" by (intro kept_set_fs [OF inv c(2)]) simp
      moreover have "op_open k q sv = Some (Inl (- EMFILE), set_fs fs' sv)"
        using o(1) Inr None c(1) tk by (simp add: op_open_def vfs_fd_alloc_def Let_def set_fs_def del: upt.simps upt_rec_numeral)
      ultimately show ?thesis using reply_err_handled by (auto simp: serve_open_def)
    next
      case (Some i)
      then have i: "i < VFS_FD_MAX" "fdtab k sv ! i = 0" using find_upt_Some by blast+
      have "tables_ok ((sv_clients sv)[k := (sv_clients sv ! k)\<lparr>cl_fdtab := (cl_fdtab (sv_clients sv ! k))[i := f]\<rparr>]) (insert f (dom (fs_files (sv_fs sv))))"
        using inv k i f by (intro tables_put) (auto simp: server_inv_def fdtab_def)
      then have "kept k sv (set_fs fs (set_fdtab k ((fdtab k sv)[i := f]) sv))"
        using f(3) by (intro kept_set_fdtab [OF inv k(1) o(2)]) (simp add: fdtab_def)
      moreover have "op_open k q sv = Some (Inr i, set_fs fs (set_fdtab k ((fdtab k sv)[i := f]) sv))"
        using o(1) Inr Some tk by (simp add: op_open_def vfs_fd_alloc_def Let_def set_fs_def set_fdtab_def del: upt.simps upt_rec_numeral)
      ultimately show ?thesis using reply_ok_handled [where data = "[]"] by (auto simp: serve_open_def)
    qed
  qed
qed

lemma serve_close_ok:
  assumes inv: "server_inv sv" and k: "k < VFS_MAX_CLIENTS" "cl_in_use (sv_clients sv ! k)"
  shows "\<exists>sv'. serve_close k q sv = Some sv' \<and> handled k sv sv'"
proof -
  let ?fd = "as_i32 (rq_fd q)" and ?t = "fdtab k sv"
  have triv: "set_fs (sv_fs sv) (set_fdtab k ?t sv) = sv" by (simp add: set_fs_def set_fdtab_def fdtab_def)
  show ?thesis
  proof (cases "?fd < 0 \<or> int VFS_FD_MAX \<le> ?fd \<or> ?t ! nat ?fd = 0")
    case True
    then have "vfs_fd_close ?t ?fd (sv_fs sv) = Some (- EBADF, ?t, sv_fs sv)" by (auto simp: vfs_fd_close_def)
    then show ?thesis using triv reply_status_handled [OF kept_refl [OF inv]] by (simp add: serve_close_def)
  next
    case False
    let ?i = "nat ?fd" and ?f = "?t ! nat ?fd"
    have f: "?f = vfs_fd_get ?t ?fd" "?f \<noteq> 0" "?i < VFS_FD_MAX" using False by (auto simp: vfs_fd_get_def)
    obtain fl where fl: "fs_files (sv_fs sv) ?f = Some fl" using server_file [OF inv k(1) f(1,2)] by blast
    obtain fs where c: "vfs_close ?f (sv_fs sv) = Some (0, fs)" "fs_inv fs (\<lambda>_. 0)" "fs_files fs = (fs_files (sv_fs sv))(?f := None)"
      using vfs_close_ok [OF server_inv_fs [OF inv] fl] by blast
    have eq: "(\<lambda>i. cl_fdtab (sv_clients sv ! k) ! i) ` {i. i < VFS_FD_MAX \<and> i \<in> {?i} \<and> cl_fdtab (sv_clients sv ! k) ! i \<noteq> 0} = {?f}"
      using f by (auto simp: fdtab_def)
    have "tables_ok ((sv_clients sv)[k := (sv_clients sv ! k)\<lparr>cl_fdtab := ?t[?i := 0]\<rparr>])
        (dom (fs_files (sv_fs sv)) - (\<lambda>i. cl_fdtab (sv_clients sv ! k) ! i) ` {i. i < VFS_FD_MAX \<and> i \<in> {?i} \<and> cl_fdtab (sv_clients sv ! k) ! i \<noteq> 0})"
      using inv k server_fdtab_len [OF inv k(1)] by (intro tables_clear) (auto simp: server_inv_def fdtab_def nth_list_update)
    then have "kept k sv (set_fs fs (set_fdtab k (?t[?i := 0]) sv))"
      unfolding eq using c(3) by (intro kept_set_fdtab [OF inv k(1) c(2)]) simp
    moreover have "vfs_fd_close ?t ?fd (sv_fs sv) = Some (0, ?t[?i := 0], fs)"
      using False c(1) by (auto simp: vfs_fd_close_def)
    ultimately show ?thesis using reply_status_handled by (simp add: serve_close_def)
  qed
qed

lemma handle_ok:
  assumes inv: "server_inv sv" and k: "k < VFS_MAX_CLIENTS" "cl_in_use (sv_clients sv ! k)" and q: "length (rq_data q) = VFS_RPC_DATA_MAX"
  shows "\<exists>sv'. handle k q sv = Some sv' \<and> handled k sv sv'"
  using serve_open_ok [OF inv k] serve_close_ok [OF inv k] serve_read_ok [OF inv k(1)] serve_write_ok [OF inv k(1) q]
    serve_seek_ok [OF inv k(1)] serve_readdir_ok [OF inv k(1)] serve_dirops_ok [OF inv] reply_err_handled [OF kept_refl [OF inv]]
  by (simp add: handle_def split: vfs_op.split)

lemma close_files_ok:
  assumes "fs_inv s ex" "distinct (filter (\<lambda>f. f \<noteq> 0) fs)" "\<forall>f \<in> set fs. f \<noteq> 0 \<longrightarrow> f \<in> dom (fs_files s)"
  shows "\<exists>s'. close_files fs s = Some s' \<and> fs_inv s' ex \<and> dom (fs_files s') = dom (fs_files s) - set fs"
  using assms
proof (induction fs arbitrary: s)
  case (Cons f fs)
  show ?case
  proof (cases "f = 0")
    case True
    have "0 \<notin> dom (fs_files s)" using fs_inv_files [OF Cons.prems(1)] by (auto simp: files_ok_def)
    then show ?thesis using Cons True by fastforce
  next
    case False
    then obtain fl where fl: "fs_files s f = Some fl" using Cons.prems(3) by auto
    obtain s1 where c: "vfs_close f s = Some (0, s1)" "fs_inv s1 ex" "fs_files s1 = (fs_files s)(f := None)"
      using vfs_close_ok [OF Cons.prems(1) fl] by blast
    have "\<exists>s'. close_files fs s1 = Some s' \<and> fs_inv s' ex \<and> dom (fs_files s') = dom (fs_files s1) - set fs"
      by (rule Cons.IH [OF c(2)]) (use Cons.prems False c(3) in auto)
    then show ?thesis using False c by auto
  qed
qed simp

lemma client_detach_ok:
  assumes inv: "server_inv sv" and k: "k < VFS_MAX_CLIENTS" "cl_in_use (sv_clients sv ! k)"
  shows "\<exists>sv'. client_detach k sv = Some sv' \<and> server_inv sv' \<and>
    (\<forall>i. i \<noteq> k \<longrightarrow> sv_clients sv' ! i = sv_clients sv ! i) \<and> \<not> cl_in_use (sv_clients sv' ! k)
    \<and> sv_out sv' = sv_out sv @ [Closed (cl_resp (sv_clients sv ! k))]"
proof -
  let ?cs = "sv_clients sv" and ?t = "cl_fdtab (sv_clients sv ! k)" and ?F = "dom (fs_files (sv_fs sv))"
  have ok: "tables_ok ?cs ?F" using inv by (simp add: server_inv_def)
  have len: "length ?t = VFS_FD_MAX" "length ?cs = VFS_MAX_CLIENTS" using ok k by (auto simp: tables_ok_def)
  have dist: "distinct (filter (\<lambda>f. f \<noteq> 0) ?t)"
  proof -
    have "inj_on (ent ?cs) (slots ?cs)" using ok by (simp add: tables_ok_def)
    then have "inj_on (\<lambda>i. ?t ! i) {i. i < VFS_FD_MAX \<and> ?t ! i \<noteq> 0}"
      using k by (force simp: inj_on_def slots_def ent_def)
    then have "distinct (map (\<lambda>i. ?t ! i) (filter (\<lambda>i. ?t ! i \<noteq> 0) [0..<VFS_FD_MAX]))"
      by (simp add: distinct_map del: upt.simps upt_rec_numeral)
    moreover have "?t = map (\<lambda>i. ?t ! i) [0..<VFS_FD_MAX]" using len(1) map_nth [of ?t] by simp
    then have "filter (\<lambda>f. f \<noteq> 0) ?t = map (\<lambda>i. ?t ! i) (filter (\<lambda>i. ?t ! i \<noteq> 0) [0..<VFS_FD_MAX])"
      by (metis (mono_tags, lifting) filter_cong filter_map o_apply)
    ultimately show ?thesis by simp
  qed
  have dom: "\<forall>f \<in> set ?t. f \<noteq> 0 \<longrightarrow> f \<in> ?F"
  proof (intro ballI impI)
    fix f assume "f \<in> set ?t" "f \<noteq> 0"
    then obtain i where i: "i < VFS_FD_MAX" "?t ! i = f" using len(1) by (auto simp: in_set_conv_nth)
    then have "(k, i) \<in> slots ?cs" using k \<open>f \<noteq> 0\<close> by (simp add: slots_def ent_def)
    then have "ent ?cs (k, i) \<in> ?F" using ok by (auto simp: tables_ok_def)
    then show "f \<in> ?F" using i by (simp add: ent_def)
  qed
  obtain fs where c: "close_files ?t (sv_fs sv) = Some fs" "fs_inv fs (\<lambda>_. 0)" "dom (fs_files fs) = ?F - set ?t"
    using close_files_ok [OF server_inv_fs [OF inv] dist dom] by blast
  let ?c = "(?cs ! k)\<lparr>cl_fdtab := replicate VFS_FD_MAX 0, cl_resp := EXYDE_HANDLE_INVALID, cl_in_use := False\<rparr>"
  have "tables_ok (?cs[k := ?c]) (?F - (\<lambda>i. ?t ! i) ` {i. i < VFS_FD_MAX \<and> i \<in> UNIV \<and> ?t ! i \<noteq> 0})"
    using ok k by (intro tables_clear) auto
  moreover have "?F - (\<lambda>i. ?t ! i) ` {i. i < VFS_FD_MAX \<and> i \<in> UNIV \<and> ?t ! i \<noteq> 0} = ?F - set ?t"
  proof -
    have "0 \<notin> ?F" using fs_inv_files [OF server_inv_fs [OF inv]] by (auto simp: files_ok_def)
    moreover have "(\<lambda>i. ?t ! i) ` {i. i < VFS_FD_MAX \<and> i \<in> UNIV \<and> ?t ! i \<noteq> 0} = set ?t - {0}"
      using len(1) by (auto simp: in_set_conv_nth image_iff)
    ultimately show ?thesis by auto
  qed
  ultimately have "tables_ok (?cs[k := ?c]) (dom (fs_files fs))" using c(3) by simp
  then show ?thesis using c len k by (simp add: client_detach_def Let_def server_inv_def)
qed

section \<open>The loop\<close>

lemma client_find_Some:
  "client_find i sv = Some k \<Longrightarrow> k < VFS_MAX_CLIENTS \<and> cl_in_use (sv_clients sv ! k) \<and> cl_id (sv_clients sv ! k) = i"
  unfolding client_find_def using find_upt_Some by (auto simp del: upt.simps upt_rec_numeral split: if_splits)

lemma client_attach_ok:
  assumes inv: "server_inv sv" and a: "client_attach h sv = (r, sv')"
  shows "server_inv sv' \<and> sv_out sv' = sv_out sv \<and>
    (case r of None \<Rightarrow> sv' = sv | Some k \<Rightarrow> k < VFS_MAX_CLIENTS \<and> \<not> cl_in_use (sv_clients sv ! k) \<and>
      cl_resp (sv_clients sv' ! k) = h \<and> cl_id (sv_clients sv' ! k) = sv_next_id sv \<and>
      (\<forall>i. i \<noteq> k \<longrightarrow> sv_clients sv' ! i = sv_clients sv ! i))"
proof (cases "find (\<lambda>k. \<not> cl_in_use (sv_clients sv ! k)) [0..<VFS_MAX_CLIENTS]")
  case None
  then show ?thesis using inv a by (simp add: client_attach_def del: upt.simps upt_rec_numeral)
next
  case (Some k)
  then have k: "k < VFS_MAX_CLIENTS" "\<not> cl_in_use (sv_clients sv ! k)" using find_upt_Some by blast+
  have ok: "tables_ok (sv_clients sv) (dom (fs_files (sv_fs sv)))" using inv by (simp add: server_inv_def)
  then have len: "length (sv_clients sv) = VFS_MAX_CLIENTS" and z: "cl_fdtab (sv_clients sv ! k) = replicate VFS_FD_MAX 0"
    using k by (auto simp: tables_ok_def)
  let ?c = "\<lparr>cl_in_use = True, cl_id = sv_next_id sv, cl_resp = h, cl_fdtab = vfs_fd_init\<rparr>"
  have r: "r = Some k" "sv' = sv\<lparr>sv_clients := (sv_clients sv)[k := ?c], sv_next_id := wrap32 (sv_next_id sv + 1)\<rparr>"
    using a Some by (simp_all add: client_attach_def del: upt.simps upt_rec_numeral)
  have "tables_ok ((sv_clients sv)[k := ?c]) (dom (fs_files (sv_fs sv)))"
    by (rule tables_keep [OF ok k(1)]) (simp_all add: z vfs_fd_init_def)
  then show ?thesis unfolding r using k inv len by (simp add: server_inv_def)
qed

lemma no_client_no_file:
  assumes inv: "server_inv sv" and "\<not> clients_any_alive sv"
  shows "dom (fs_files (sv_fs sv)) = {}"
proof -
  have ok: "tables_ok (sv_clients sv) (dom (fs_files (sv_fs sv)))" using inv by (simp add: server_inv_def)
  have idle: "\<not> cl_in_use (sv_clients sv ! k)" if "k < VFS_MAX_CLIENTS" for k
    using assms(2) that by (auto simp: clients_any_alive_def find_None_iff simp del: upt.simps upt_rec_numeral)
  have "ent (sv_clients sv) p = 0" if p: "fst p < VFS_MAX_CLIENTS" "snd p < VFS_FD_MAX" for p
    using ok idle [OF p(1)] p by (auto simp: tables_ok_def ent_def)
  then have "slots (sv_clients sv) = {}" by (auto simp: slots_def)
  then show ?thesis using ok by (simp add: tables_ok_def)
qed

text \<open>One message is always processed: no null or freed object is touched, no buffer overflows.\<close>

lemma serve_ok:
  assumes inv: "server_inv sv" and q: "length (rq_data q) = VFS_RPC_DATA_MAX"
  shows "\<exists>r sv'. serve n q h sv = Some (r, sv') \<and> server_inv sv' \<and> (r = Some 0 \<longrightarrow> \<not> clients_any_alive sv')"
proof -
  let ?sv = "if h \<noteq> EXYDE_HANDLE_INVALID then sv\<lparr>sv_out := sv_out sv @ [Closed h]\<rparr> else sv"
  have i1: "server_inv ?sv" using inv by simp
  consider "n \<noteq> VFS_RPC_MSG_SIZE" | "n = VFS_RPC_MSG_SIZE" "rq_op q = VFS_OP_ATTACH" "h = EXYDE_HANDLE_INVALID"
    | "n = VFS_RPC_MSG_SIZE" "rq_op q = VFS_OP_ATTACH" "h \<noteq> EXYDE_HANDLE_INVALID"
    | "n = VFS_RPC_MSG_SIZE" "rq_op q \<noteq> VFS_OP_ATTACH" by blast
  then show ?thesis
  proof cases
    case 3
    obtain r sv1 where a: "client_attach h sv = (r, sv1)" by (cases "client_attach h sv")
    then show ?thesis using 3 client_attach_ok [OF inv a] by (cases r) (auto simp: serve_def)
  next
    case 4
    show ?thesis
    proof (cases "client_find (rq_client_id q) ?sv")
      case None
      then show ?thesis using 4 i1 by (simp add: serve_def Let_def)
    next
      case (Some k)
      then have k: "k < VFS_MAX_CLIENTS" "cl_in_use (sv_clients ?sv ! k)" using client_find_Some by blast+
      let ?bad = "rq_op q \<in> {VFS_OP_OPEN, VFS_OP_MKDIR, VFS_OP_UNLINK, VFS_OP_RMDIR} \<and> check_path q < 0"
      have S: "serve n q h sv = (if rq_op q = VFS_OP_SHUTDOWN then do {
             sv \<leftarrow> reply_ok k 0 0 [] ?sv; sv \<leftarrow> client_detach k sv; Some (if clients_any_alive sv then None else Some 0, sv) }
           else if ?bad then do { sv \<leftarrow> reply_err k EINVAL ?sv; Some (None, sv) }
           else do { sv \<leftarrow> handle k q ?sv; Some (None, sv) })"
        using 4 Some unfolding serve_def Let_def by simp
      show ?thesis
      proof (cases "rq_op q = VFS_OP_SHUTDOWN")
        case True
        obtain sv1 where r: "reply_ok k 0 0 [] ?sv = Some sv1" "server_inv sv1" "sv_clients sv1 = sv_clients ?sv"
          using i1 by (simp add: reply_ok_def)
        obtain sv2 where "client_detach k sv1 = Some sv2" "server_inv sv2"
          using client_detach_ok [OF r(2) k(1)] k(2) r(3) by auto
        then show ?thesis using S True r(1) by auto
      next
        case False
        obtain sv1 where "reply_err k EINVAL ?sv = Some sv1" "server_inv sv1"
          using reply_err_handled [OF kept_refl [OF i1], of k EINVAL] by (auto simp: handled_def)
        moreover obtain sv2 where "handle k q ?sv = Some sv2" "server_inv sv2"
          using handle_ok [OF i1 k q] by (auto simp: handled_def)
        ultimately show ?thesis using S False by auto
      qed
    qed
  qed (use inv in \<open>auto simp: serve_def\<close>)
qed

text \<open>The states the server reaches from its boot over any sequence of messages.\<close>

definition fresh_vfs :: "(nat \<Rightarrow> nat \<Rightarrow> bool) \<Rightarrow> (nat \<Rightarrow> nat \<Rightarrow> byte) \<Rightarrow> vfs" where
  "fresh_vfs oom junk = \<lparr>fs_nodes = Map.empty, fs_files = Map.empty, fs_root = 0, fs_next_ino = 1, fs_allocs = 0,
     fs_oom = oom, fs_junk = junk\<rparr>"

inductive served :: "(nat \<Rightarrow> nat \<Rightarrow> bool) \<Rightarrow> (nat \<Rightarrow> nat \<Rightarrow> byte) \<Rightarrow> server \<Rightarrow> bool" for oom junk where
  boot: "server_boot (fresh_vfs oom junk) = Some (Some sv) \<Longrightarrow> served oom junk sv"
| msg: "served oom junk sv \<Longrightarrow> length (rq_data q) = VFS_RPC_DATA_MAX \<Longrightarrow> serve n q h sv = Some (r, sv') \<Longrightarrow> served oom junk sv'"

lemma boot_inv:
  assumes "server_boot (fresh_vfs oom junk) = Some (Some sv)"
  shows "server_inv sv"
proof -
  let ?n = "\<lparr>vn_ino = 1, vn_type = VFS_TYPE_DIR, vn_mode = 0x1ED, vn_refcount = 1, vn_size = 0, vn_parent = 1,
    rn_name = [], rn_data = [], rn_capacity = 0, rn_children = []\<rparr>"
  let ?c = "\<lparr>cl_in_use = False, cl_id = 0, cl_resp = 0, cl_fdtab = replicate VFS_FD_MAX 0\<rparr>"
  have oom: "\<not> oom 0 344"
    using assms by (auto simp: server_boot_def ramfs_create_root_def ramfs_new_node_def alloc_def Let_def fresh_vfs_def vfs_init_def)
  then have sv: "sv_fs sv = \<lparr>fs_nodes = [1 \<mapsto> ?n], fs_files = Map.empty, fs_root = 1, fs_next_ino = 2, fs_allocs = 1, fs_oom = oom, fs_junk = junk\<rparr>"
    "sv_clients sv = replicate VFS_MAX_CLIENTS ?c"
    using assms by (auto simp: server_boot_def ramfs_create_root_def ramfs_new_node_def alloc_def Let_def fresh_vfs_def
      vfs_init_def put_node_def vfs_mount_root_def)
  have "fs_inv (sv_fs sv) (\<lambda>_. 0)"
    unfolding sv by (auto simp: fs_inv_def files_ok_def node_ok_def refs_def linked_def holders_def kids_def)
  moreover have "slots (replicate VFS_MAX_CLIENTS ?c) = {}" by (auto simp: slots_def ent_def)
  then have "tables_ok (sv_clients sv) (dom (fs_files (sv_fs sv)))" unfolding sv by (simp add: tables_ok_def)
  ultimately show ?thesis by (simp add: server_inv_def)
qed

lemma served_inv: "served oom junk sv \<Longrightarrow> server_inv sv"
proof (induction rule: served.induct)
  case (msg sv q n h r sv')
  then show ?case using serve_ok [OF msg.IH msg.hyps(2), of n h] by auto
qed (rule boot_inv)

section \<open>Properties\<close>

text \<open>C3: the server is memory safe.  Whatever messages it received since it started, and whichever
  allocations failed, the next message is processed to the end: no null or freed vnode or file is
  touched, no reference count is dropped twice, no buffer is overrun; and afterwards every reference
  count is again the number of owners of its node and every open file is in exactly one descriptor slot.\<close>

theorem vfs_server_safe:
  assumes "served oom junk sv" and "length (rq_data q) = VFS_RPC_DATA_MAX"
  shows "\<exists>r sv'. serve n q h sv = Some (r, sv') \<and> server_inv sv'"
  using serve_ok [OF served_inv [OF assms(1)] assms(2)] by blast

definition wit_req :: "vfs_op \<Rightarrow> vfs_req" where
  "wit_req op = \<lparr>rq_op = op, rq_fd = 0, rq_arg0 = 0x103, rq_arg1 = 0, rq_data_len = 0, rq_client_id = 1,
     rq_path = ''/f'' @ replicate 254 (CHR 0x00), rq_data = replicate 512 0\<rparr>"

lemma boot_some: "\<exists>sv. server_boot (fresh_vfs (\<lambda>_ _. False) (\<lambda>_ _. 0)) = Some (Some sv)"
  by (simp add: server_boot_def ramfs_create_root_def ramfs_new_node_def alloc_def Let_def fresh_vfs_def
      vfs_init_def put_node_def vfs_mount_root_def)

theorem vfs_server_safe_witness:
  "\<exists>sv r sv'. server_boot (fresh_vfs (\<lambda>_ _. False) (\<lambda>_ _. 0)) = Some (Some sv) \<and>
     serve 1024 (wit_req VFS_OP_ATTACH) 7 sv = Some (r, sv') \<and> server_inv sv'"
proof -
  obtain sv where b: "server_boot (fresh_vfs (\<lambda>_ _. False) (\<lambda>_ _. 0)) = Some (Some sv)" using boot_some by blast
  have "length (rq_data (wit_req VFS_OP_ATTACH)) = VFS_RPC_DATA_MAX" by (simp add: wit_req_def)
  from vfs_server_safe [OF served.boot [OF b] this] b show ?thesis by blast
qed

text \<open>C18: clients are isolated and every request is answered.  A request of an attached client other
  than \<^verbatim>\<open>ATTACH\<close> and \<^verbatim>\<open>SHUTDOWN\<close> is answered by exactly one reply, on the channel of that client and with
  at most 512 bytes of data, and leaves the descriptors of every other client as they were.\<close>

theorem vfs_client_isolation:
  assumes "served oom junk sv" "length (rq_data q) = VFS_RPC_DATA_MAX"
    and "client_find (rq_client_id q) sv = Some k" "rq_op q \<notin> {VFS_OP_ATTACH, VFS_OP_SHUTDOWN}"
  shows "\<exists>sv'. serve VFS_RPC_MSG_SIZE q EXYDE_HANDLE_INVALID sv = Some (None, sv') \<and> handled k sv sv'"
proof -
  have inv: "server_inv sv" by (rule served_inv [OF assms(1)])
  have k: "k < VFS_MAX_CLIENTS" "cl_in_use (sv_clients sv ! k)" using client_find_Some [OF assms(3)] by blast+
  show ?thesis using assms(3,4) handle_ok [OF inv k assms(2)] reply_err_handled [OF kept_refl [OF inv], of k EINVAL]
    by (auto simp: serve_def Let_def)
qed

theorem vfs_client_isolation_witness:
  "\<exists>sv sv'. serve 1024 (wit_req VFS_OP_OPEN) EXYDE_HANDLE_INVALID sv = Some (None, sv') \<and> handled 0 sv sv'"
proof -
  obtain sv0 where b: "server_boot (fresh_vfs (\<lambda>_ _. False) (\<lambda>_ _. 0)) = Some (Some sv0)" using boot_some by blast
  then have cs: "sv_clients sv0 = replicate VFS_MAX_CLIENTS \<lparr>cl_in_use = False, cl_id = 0, cl_resp = 0, cl_fdtab = replicate VFS_FD_MAX 0\<rparr>"
    "sv_next_id sv0 = 1"
    by (auto simp: server_boot_def ramfs_create_root_def ramfs_new_node_def alloc_def Let_def fresh_vfs_def vfs_init_def put_node_def vfs_mount_root_def)
  have up: "[0..<VFS_MAX_CLIENTS] = 0 # [1..<VFS_MAX_CLIENTS]" by (simp add: upt_rec)
  obtain sv where a: "serve 1024 (wit_req VFS_OP_ATTACH) 7 sv0 = Some (None, sv)"
    and cl: "cl_in_use (sv_clients sv ! 0)" "cl_id (sv_clients sv ! 0) = 1"
    using cs by (simp add: serve_def wit_req_def client_attach_def up del: upt.simps upt_rec_numeral)
  have s: "served (\<lambda>_ _. False) (\<lambda>_ _. 0) sv"
    by (rule served.msg [OF served.boot [OF b] _ a]) (simp add: wit_req_def)
  have f: "client_find (rq_client_id (wit_req VFS_OP_OPEN)) sv = Some 0"
    using cl by (simp add: client_find_def wit_req_def up del: upt.simps upt_rec_numeral)
  have "length (rq_data (wit_req VFS_OP_OPEN)) = VFS_RPC_DATA_MAX" by (simp add: wit_req_def)
  from vfs_client_isolation [OF s this f] show ?thesis by (auto simp: wit_req_def)
qed

text \<open>C27: the server exits clean.  When it ends because the last client detached, no file is open any
  more and every vnode that is still allocated is linked in the tree with that link as its only reference.\<close>

theorem vfs_exit_clean:
  assumes "served oom junk sv" "length (rq_data q) = VFS_RPC_DATA_MAX" "serve n q h sv = Some (Some 0, sv')"
  shows "dom (fs_files (sv_fs sv')) = {} \<and>
    (\<forall>v nd. fs_nodes (sv_fs sv') v = Some nd \<longrightarrow> linked (sv_fs sv') v \<and> vn_refcount nd = 1)"
proof -
  have i: "server_inv sv'" "\<not> clients_any_alive sv'"
    using serve_ok [OF served_inv [OF assms(1)] assms(2), of n h] assms(3) by auto
  have d: "dom (fs_files (sv_fs sv')) = {}" by (rule no_client_no_file [OF i])
  moreover have "linked (sv_fs sv') v \<and> vn_refcount nd = 1" if nd: "fs_nodes (sv_fs sv') v = Some nd" for v nd
  proof -
    have "holders (sv_fs sv') v = 0" using d by (simp add: holders_def)
    then show ?thesis using fs_invD(2,3) [OF server_inv_fs [OF i(1)] nd] by (simp add: refs_def split: if_splits)
  qed
  ultimately show ?thesis by blast
qed

theorem vfs_exit_clean_witness:
  "\<exists>sv sv'. serve 1024 (wit_req VFS_OP_SHUTDOWN) EXYDE_HANDLE_INVALID sv = Some (Some 0, sv') \<and> dom (fs_files (sv_fs sv')) = {}"
proof -
  obtain sv0 where b: "server_boot (fresh_vfs (\<lambda>_ _. False) (\<lambda>_ _. 0)) = Some (Some sv0)" using boot_some by blast
  then have cs: "sv_clients sv0 = replicate VFS_MAX_CLIENTS \<lparr>cl_in_use = False, cl_id = 0, cl_resp = 0, cl_fdtab = replicate VFS_FD_MAX 0\<rparr>"
    "sv_next_id sv0 = 1"
    by (auto simp: server_boot_def ramfs_create_root_def ramfs_new_node_def alloc_def Let_def fresh_vfs_def vfs_init_def put_node_def vfs_mount_root_def)
  have up: "[0..<VFS_MAX_CLIENTS] = 0 # [1..<VFS_MAX_CLIENTS]" by (simp add: upt_rec)
  define c where "c = \<lparr>cl_in_use = True, cl_id = 1, cl_resp = 7, cl_fdtab = vfs_fd_init\<rparr>"
  obtain sv where a: "serve 1024 (wit_req VFS_OP_ATTACH) 7 sv0 = Some (None, sv)"
    and cl: "sv_clients sv = (sv_clients sv0)[0 := c]"
    using cs by (simp add: serve_def wit_req_def client_attach_def up c_def del: upt.simps upt_rec_numeral)
  have s: "served (\<lambda>_ _. False) (\<lambda>_ _. 0) sv"
    by (rule served.msg [OF served.boot [OF b] _ a]) (simp add: wit_req_def)
  have f: "client_find 1 sv = Some 0"
    using cl cs by (simp add: client_find_def up c_def del: upt.simps upt_rec_numeral)
  have close: "close_files (replicate n 0) fs = Some fs" for n fs by (induction n) auto
  have "\<exists>sv'. serve 1024 (wit_req VFS_OP_SHUTDOWN) EXYDE_HANDLE_INVALID sv = Some (Some 0, sv')"
    using f cl cs close [of VFS_FD_MAX]
    by (simp add: serve_def wit_req_def reply_ok_def client_detach_def Let_def c_def vfs_fd_init_def clients_any_alive_def find_None_iff nth_list_update)
  then obtain sv' where e: "serve 1024 (wit_req VFS_OP_SHUTDOWN) EXYDE_HANDLE_INVALID sv = Some (Some 0, sv')" by blast
  have "length (rq_data (wit_req VFS_OP_SHUTDOWN)) = VFS_RPC_DATA_MAX" by (simp add: wit_req_def)
  from vfs_exit_clean [OF s this e] e show ?thesis by blast
qed

end
