(* ===== verification/Stdlib.thy ===== *)
theory Stdlib
  imports Cstring "HOL-Library.Multiset"
begin

text \<open>
  Numeric conversion, sorting and searching of \<^verbatim>\<open>userspace/libc/stdlib.c\<close>.

  The conversions read user memory.  \<^verbatim>\<open>unsigned long\<close> values are natural numbers below \<open>2 ^ 64\<close>;
  a conversion returns its value, the address it stores through \<^verbatim>\<open>endptr\<close> and the error number it
  leaves in \<^verbatim>\<open>errno\<close>, if any.  \<^verbatim>\<open>qsort\<close> is modelled on the array as the list of its elements, with
  positions in place of element pointers; \<open>swap_bytes\<close> is the byte loop that exchanges two elements.
\<close>

section \<open>Character classes\<close>

definition is_space :: "byte \<Rightarrow> bool" where
  "is_space c \<longleftrightarrow> c = 32 \<or> c = 9 \<or> c = 10 \<or> c = 11 \<or> c = 12 \<or> c = 13"

definition digit_val :: "byte \<Rightarrow> int" where
  "digit_val c =
    (if 48 \<le> c \<and> c \<le> 57 then uint c - 48
     else if 97 \<le> c \<and> c \<le> 122 then 10 + (uint c - 97)
     else if 65 \<le> c \<and> c \<le> 90 then 10 + (uint c - 65)
     else - 1)"

section \<open>Numeric conversion\<close>

partial_function (option) skip_space :: "mem \<Rightarrow> nat \<Rightarrow> nat option" where
  "skip_space m p = (if is_space (m p) then skip_space m (p + 1) else Some p)"

definition num_sign :: "mem \<Rightarrow> nat \<Rightarrow> bool \<times> nat" where
  "num_sign m p = (if m p = 43 \<or> m p = 45 then (m p = 45, p + 1) else (False, p))"

definition hex_prefix :: "mem \<Rightarrow> nat \<Rightarrow> bool" where
  "hex_prefix m p \<longleftrightarrow> m p = 48 \<and> (m (p + 1) = 120 \<or> m (p + 1) = 88)"

text \<open>The effective base and the address of the digits; \<open>None\<close> for a base that is refused.\<close>

definition num_base :: "mem \<Rightarrow> nat \<Rightarrow> int \<Rightarrow> (nat \<times> nat) option" where
  "num_base m p base =
    (if base = 0 then
       (if hex_prefix m p then Some (16, p + 2) else if m p = 48 then Some (8, p) else Some (10, p))
     else if base = 16 then (if hex_prefix m p then Some (16, p + 2) else Some (16, p))
     else if base < 2 \<or> 36 < base then None
     else Some (nat base, p))"

text \<open>The digit loop with the bound \<open>limit\<close>: position, accumulator, overflow flag and whether a
  digit was seen.\<close>

partial_function (option) num_digits ::
  "mem \<Rightarrow> nat \<Rightarrow> nat \<Rightarrow> nat \<Rightarrow> nat \<Rightarrow> bool \<Rightarrow> bool \<Rightarrow> (nat \<times> nat \<times> bool \<times> bool) option" where
  "num_digits m base limit p acc overflow any =
    (let d = digit_val (m p); cutoff = limit div base; cutlim = limit mod base in
     if d < 0 \<or> int base \<le> d then Some (p, acc, overflow, any)
     else if overflow then num_digits m base limit (p + 1) acc overflow True
     else if cutoff < acc \<or> (acc = cutoff \<and> cutlim < nat d) then num_digits m base limit (p + 1) acc True True
     else num_digits m base limit (p + 1) (acc * base + nat d) overflow True)"

abbreviation ULONG_MAX :: nat where "ULONG_MAX \<equiv> 18446744073709551615"
abbreviation LONG_MAX :: nat where "LONG_MAX \<equiv> 9223372036854775807"

definition strtoul :: "mem \<Rightarrow> nat \<Rightarrow> int \<Rightarrow> (nat \<times> nat \<times> int option) option" where
  "strtoul m s base = do {
     p \<leftarrow> skip_space m s;
     let (negative, p) = num_sign m p;
     case num_base m p base of
       None \<Rightarrow> Some (0, s, Some EINVAL)
     | Some (b, p) \<Rightarrow> do {
         (p, acc, overflow, any) \<leftarrow> num_digits m b ULONG_MAX p 0 False False;
         let endp = (if any then p else s);
         if overflow then Some (ULONG_MAX, endp, Some ERANGE)
         else Some (if negative then wrap64 (two64 - acc) else acc, endp, None) } }"

definition strtol :: "mem \<Rightarrow> nat \<Rightarrow> int \<Rightarrow> (int \<times> nat \<times> int option) option" where
  "strtol m s base = do {
     p \<leftarrow> skip_space m s;
     let (negative, p) = num_sign m p;
     case num_base m p base of
       None \<Rightarrow> Some (0, s, Some EINVAL)
     | Some (b, p) \<Rightarrow> do {
         let limit = (if negative then LONG_MAX + 1 else LONG_MAX);
         (p, acc, overflow, any) \<leftarrow> num_digits m b limit p 0 False False;
         let endp = (if any then p else s);
         if overflow then Some (if negative then - int LONG_MAX - 1 else int LONG_MAX, endp, Some ERANGE)
         else if negative then
           (if acc = LONG_MAX + 1 then Some (- int LONG_MAX - 1, endp, None) else Some (- int acc, endp, None))
         else Some (int acc, endp, None) } }"

text \<open>\<^verbatim>\<open>(int)\<close> of a \<^verbatim>\<open>long\<close> keeps the low 32 bits.\<close>

definition atoi :: "mem \<Rightarrow> nat \<Rightarrow> int option" where
  "atoi m s = do { (v, _, _) \<leftarrow> strtol m s 10; Some ((v + 2147483648) mod 4294967296 - 2147483648) }"

definition atol :: "mem \<Rightarrow> nat \<Rightarrow> int option" where
  "atol m s = do { (v, _, _) \<leftarrow> strtol m s 10; Some v }"

text \<open>\<^verbatim>\<open>abs\<close> and \<^verbatim>\<open>labs\<close>; the negation of the least value wraps around to itself.\<close>

definition abs32 :: "int \<Rightarrow> int" where
  "abs32 j = (if j < 0 then (- j + 2147483648) mod 4294967296 - 2147483648 else j)"

definition labs :: "int \<Rightarrow> int" where
  "labs j = (if j < 0 then (- j + 9223372036854775808) mod 18446744073709551616 - 9223372036854775808 else j)"

section \<open>Sorting\<close>

fun swap_bytes :: "nat \<Rightarrow> nat \<Rightarrow> nat \<Rightarrow> mem \<Rightarrow> mem" where
  "swap_bytes 0 a b m = m"
| "swap_bytes (Suc n) a b m = swap_bytes n (a + 1) (b + 1) (m(a := m b, b := m a))"

definition swap_at :: "nat \<Rightarrow> nat \<Rightarrow> 'a list \<Rightarrow> 'a list" where
  "swap_at i j xs = xs[i := xs ! j, j := xs ! i]"

text \<open>The inner loop of the insertion sort: the element at \<open>j\<close> sinks towards \<open>l\<close>.\<close>

function sink :: "('a \<Rightarrow> 'a \<Rightarrow> int) \<Rightarrow> nat \<Rightarrow> nat \<Rightarrow> 'a list \<Rightarrow> 'a list" where
  "sink cmp l j xs =
    (if l < j then (if cmp (xs ! (j - 1)) (xs ! j) \<le> 0 then xs else sink cmp l (j - 1) (swap_at (j - 1) j xs))
     else xs)"
  by auto
termination by (relation "measure (\<lambda>(cmp, l, j, xs). j)") auto

declare sink.simps [simp del]

definition insertion_sort :: "('a \<Rightarrow> 'a \<Rightarrow> int) \<Rightarrow> nat \<Rightarrow> nat \<Rightarrow> 'a list \<Rightarrow> 'a list" where
  "insertion_sort cmp l h xs = fold (\<lambda>i xs. sink cmp l i xs) [l + 1..<h + 1] xs"

definition swap_if_gt :: "('a \<Rightarrow> 'a \<Rightarrow> int) \<Rightarrow> nat \<Rightarrow> nat \<Rightarrow> 'a list \<Rightarrow> 'a list" where
  "swap_if_gt cmp i j xs = (if 0 < cmp (xs ! i) (xs ! j) then swap_at i j xs else xs)"

definition median3 :: "('a \<Rightarrow> 'a \<Rightarrow> int) \<Rightarrow> nat \<Rightarrow> nat \<Rightarrow> 'a list \<Rightarrow> 'a list" where
  "median3 cmp l h xs =
    (let mid = l + (h - l) div 2 in
     swap_at mid (h - 1) (swap_if_gt cmp mid h (swap_if_gt cmp l h (swap_if_gt cmp l mid xs))))"

function scan_up :: "('a \<Rightarrow> 'a \<Rightarrow> int) \<Rightarrow> nat \<Rightarrow> 'a list \<Rightarrow> nat \<Rightarrow> nat \<Rightarrow> nat" where
  "scan_up cmp pv xs i j = (if i < j \<and> cmp (xs ! i) (xs ! pv) \<le> 0 then scan_up cmp pv xs (i + 1) j else i)"
  by auto
termination by (relation "measure (\<lambda>(cmp, pv, xs, i, j). j - i)") auto

function scan_down :: "('a \<Rightarrow> 'a \<Rightarrow> int) \<Rightarrow> nat \<Rightarrow> 'a list \<Rightarrow> nat \<Rightarrow> nat \<Rightarrow> nat" where
  "scan_down cmp pv xs i j = (if i < j \<and> 0 \<le> cmp (xs ! j) (xs ! pv) then scan_down cmp pv xs i (j - 1) else j)"
  by auto
termination by (relation "measure (\<lambda>(cmp, pv, xs, i, j). j - i)") auto

declare scan_up.simps [simp del] scan_down.simps [simp del]

lemma scan_up_bounds: "i \<le> scan_up cmp pv xs i j" "scan_up cmp pv xs i j \<le> max i j"
  by (induction cmp pv xs i j rule: scan_up.induct) (subst scan_up.simps; auto)+

lemma scan_down_bounds: "scan_down cmp pv xs i j \<le> j" "min i j \<le> scan_down cmp pv xs i j"
  by (induction cmp pv xs i j rule: scan_down.induct) (subst scan_down.simps; auto)+

function partition_loop :: "('a \<Rightarrow> 'a \<Rightarrow> int) \<Rightarrow> nat \<Rightarrow> nat \<Rightarrow> nat \<Rightarrow> nat \<Rightarrow> 'a list \<Rightarrow> nat \<times> 'a list" where
  "partition_loop cmp l pv i j xs =
    (let i' = scan_up cmp pv xs i j; j' = scan_down cmp pv xs i' j in
     if j' \<le> i' then (i', xs)
     else partition_loop cmp l pv (i' + 1) (if l < j' then j' - 1 else j') (swap_at i' j' xs))"
  by auto
termination
proof (relation "measure (\<lambda>(cmp, l, pv, i, j, xs). j - i)", goal_cases)
  case (2 cmp l pv i j xs x xa)
  then have "i \<le> x" "xa \<le> j" "x < xa"
    using scan_up_bounds(1) [of i cmp pv xs j] scan_down_bounds(1) [of cmp pv xs x j] by auto
  then show ?case by auto
qed simp

declare partition_loop.simps [simp del]

definition qsort_partition :: "('a \<Rightarrow> 'a \<Rightarrow> int) \<Rightarrow> nat \<Rightarrow> nat \<Rightarrow> 'a list \<Rightarrow> nat \<times> 'a list" where
  "qsort_partition cmp l h xs =
    (let xs = median3 cmp l h xs; (i, xs) = partition_loop cmp l (h - 1) l (h - 1) xs in
     (i, swap_at i (h - 1) xs))"

lemma partition_loop_bounds:
  "i \<le> h \<Longrightarrow> j \<le> h \<Longrightarrow> i \<le> fst (partition_loop cmp l pv i j xs) \<and> fst (partition_loop cmp l pv i j xs) \<le> h"
proof (induction cmp l pv i j xs rule: partition_loop.induct)
  case (1 cmp l pv i j xs)
  let ?i = "scan_up cmp pv xs i j"
  let ?j = "scan_down cmp pv xs ?i j"
  have b: "i \<le> ?i" "?i \<le> h" "?j \<le> j"
    using scan_up_bounds(1) [of i cmp pv xs j] scan_up_bounds(2) [of cmp pv xs i j]
      scan_down_bounds(1) [of cmp pv xs ?i j] "1.prems" by auto
  show ?case
  proof (cases "?j \<le> ?i")
    case True
    then show ?thesis using b by (subst (1 2) partition_loop.simps) (simp add: Let_def)
  next
    case False
    have "?i + 1 \<le> fst (partition_loop cmp l pv (?i + 1) (if l < ?j then ?j - 1 else ?j) (swap_at ?i ?j xs)) \<and>
      fst (partition_loop cmp l pv (?i + 1) (if l < ?j then ?j - 1 else ?j) (swap_at ?i ?j xs)) \<le> h"
      by (rule "1.IH" [OF refl refl False]) (use False b "1.prems" in auto)
    then show ?thesis using False b by (subst (1 2) partition_loop.simps) (simp add: Let_def)
  qed
qed

lemma qsort_partition_bounds: "l < h \<Longrightarrow> l \<le> fst (qsort_partition cmp l h xs) \<and> fst (qsort_partition cmp l h xs) \<le> h"
  using partition_loop_bounds [of l h "h - 1" cmp l "h - 1" "median3 cmp l h xs"]
  by (simp add: qsort_partition_def Let_def case_prod_beta)

text \<open>The loop over the stack of ranges, its top first.\<close>

function qsort_loop :: "('a \<Rightarrow> 'a \<Rightarrow> int) \<Rightarrow> (nat \<times> nat) list \<Rightarrow> 'a list \<Rightarrow> 'a list" where
  "qsort_loop cmp [] xs = xs"
| "qsort_loop cmp ((l, h) # st) xs =
    (if h - l < 8 then qsort_loop cmp st (insertion_sort cmp l h xs)
     else let (i, xs) = qsort_partition cmp l h xs in
       if 64 < length st + 2 then qsort_loop cmp st (insertion_sort cmp l h xs)
       else qsort_loop cmp ((if i < h then [(i + 1, h)] else []) @ (if l < i then [(l, i - 1)] else []) @ st) xs)"
  by pat_completeness auto
termination
proof (relation "measure (\<lambda>(cmp, st, xs). sum_list (map (\<lambda>(l, h). h - l + 1) st))", goal_cases)
  case (4 cmp l h st xs p i ys)
  have "l \<le> i \<and> i \<le> h"
    using qsort_partition_bounds [of l h cmp xs] 4 by (auto simp: prod_eq_iff)
  then show ?case using 4(1) by auto
qed auto

definition qsort :: "'a list \<Rightarrow> ('a \<Rightarrow> 'a \<Rightarrow> int) \<Rightarrow> 'a list" where
  "qsort xs cmp = (if length xs < 2 then xs else qsort_loop cmp [(0, length xs - 1)] xs)"

section \<open>Binary search\<close>

text \<open>\<open>compar p\<close> is the result of comparing the key with the element at address \<open>p\<close>.\<close>

lemma bsearch_mid: "lo < hi \<Longrightarrow> 0 < sz \<Longrightarrow> ((hi - lo) div sz) div 2 * sz < hi - (lo :: nat)"
proof -
  assume a: "lo < hi" "0 < sz"
  show ?thesis
  proof (cases "(hi - lo) div sz = 0")
    case False
    then have "(hi - lo) div sz div 2 * sz < (hi - lo) div sz * sz" using a by simp
    also have "\<dots> \<le> hi - lo" by simp
    finally show ?thesis .
  qed (use a in simp)
qed

function bsearch_loop :: "(nat \<Rightarrow> int) \<Rightarrow> nat \<Rightarrow> nat \<Rightarrow> nat \<Rightarrow> nat" where
  "bsearch_loop compar sz lo hi =
    (if lo < hi \<and> 0 < sz then
       let n = (hi - lo) div sz; mid = lo + (n div 2) * sz; c = compar mid in
       if c = 0 then mid
       else if c < 0 then bsearch_loop compar sz lo mid
       else bsearch_loop compar sz (mid + sz) hi
     else 0)"
  by auto
termination
proof (relation "measure (\<lambda>(c, sz, lo, hi). hi - lo)", goal_cases)
  case (2 compar sz lo hi n mid c)
  then show ?case using bsearch_mid [of lo hi sz] by auto
qed auto

definition bsearch :: "(nat \<Rightarrow> int) \<Rightarrow> nat \<Rightarrow> nat \<Rightarrow> nat \<Rightarrow> nat" where
  "bsearch compar base nmemb sz =
    (if sz = 0 \<or> nmemb = 0 then 0 else bsearch_loop compar sz base (base + nmemb * sz))"

declare bsearch_loop.simps [simp del]

section \<open>Conversion lemmas\<close>

text \<open>The digits \<open>ds\<close> stand at \<open>p\<close>, followed by a character that is no digit of the base.\<close>

primrec digs :: "mem \<Rightarrow> nat \<Rightarrow> nat \<Rightarrow> nat list \<Rightarrow> bool" where
  "digs m base p [] = (digit_val (m p) < 0 \<or> int base \<le> digit_val (m p))"
| "digs m base p (d # ds) = (digit_val (m p) = int d \<and> d < base \<and> digs m base (Suc p) ds)"

definition hval :: "nat \<Rightarrow> nat list \<Rightarrow> nat" where
  "hval base ds = foldl (\<lambda>a d. a * base + d) 0 ds"

lemma cutoff_check:
  fixes acc base d limit :: nat
  assumes "0 < base" "d < base"
  shows "limit div base < acc \<or> (acc = limit div base \<and> limit mod base < d) \<longleftrightarrow> limit < acc * base + d"
proof -
  have l: "limit = limit div base * base + limit mod base" by simp
  have r: "limit mod base < base" using assms(1) by simp
  consider "acc < limit div base" | "acc = limit div base" | "limit div base < acc" by linarith
  then show ?thesis
  proof cases
    case 1
    then have "(acc + 1) * base \<le> limit div base * base" by (intro mult_le_mono1) simp
    then have "acc * base + d < limit div base * base" using assms(2) by simp
    then show ?thesis using 1 l by linarith
  next
    case 2
    then show ?thesis using l by (metis add_less_cancel_left less_irrefl)
  next
    case 3
    then have "(limit div base + 1) * base \<le> acc * base" by (intro mult_le_mono1) simp
    then have "limit div base * base + base \<le> acc * base" by (simp add: distrib_right)
    then have "limit < acc * base + d" using l r by linarith
    then show ?thesis using 3 by simp
  qed
qed

lemma foldl_horner_ge: "0 < base \<Longrightarrow> acc \<le> foldl (\<lambda>a d. a * base + d) acc (ds :: nat list)"
proof (induction ds arbitrary: acc)
  case (Cons d ds)
  have "acc \<le> acc * base + d" using Cons.prems by (simp add: trans_le_add1)
  then show ?case using Cons.IH [of "acc * base + d"] Cons.prems by simp
qed simp

lemma num_digits_overflowed:
  "digs m base p ds \<Longrightarrow> num_digits m base limit p acc True any = Some (p + length ds, acc, True, any \<or> ds \<noteq> [])"
  by (induction ds arbitrary: p any) (subst num_digits.simps; auto simp: Let_def)+

lemma num_digits_run:
  assumes "digs m base p ds" "0 < base"
  shows "\<exists>acc'. num_digits m base limit p acc False any =
      Some (p + length ds, acc', (ds \<noteq> [] \<and> limit < foldl (\<lambda>a d. a * base + d) acc ds), any \<or> ds \<noteq> [])
    \<and> (\<not> (ds \<noteq> [] \<and> limit < foldl (\<lambda>a d. a * base + d) acc ds) \<longrightarrow> acc' = foldl (\<lambda>a d. a * base + d) acc ds)"
  using assms(1)
proof (induction ds arbitrary: p acc any)
  case Nil
  then show ?case by (subst num_digits.simps) (auto simp: Let_def)
next
  case (Cons d ds)
  let ?f = "foldl (\<lambda>a d. a * base + d)"
  have d: "digit_val (m p) = int d" "d < base" "digs m base (p + 1) ds" using Cons.prems by auto
  have cut: "limit div base < acc \<or> (acc = limit div base \<and> limit mod base < nat (int d)) \<longleftrightarrow> limit < acc * base + d"
    using cutoff_check [OF assms(2) d(2)] by simp
  show ?case
  proof (cases "limit < acc * base + d")
    case True
    then have "limit < ?f acc (d # ds)" using foldl_horner_ge [OF assms(2), of "acc * base + d" ds] by simp
    moreover have "num_digits m base limit p acc False any = num_digits m base limit (p + 1) acc True True"
      using d True unfolding num_digits.simps [of m base limit p] Let_def d(1) cut by simp
    ultimately show ?thesis using num_digits_overflowed [OF d(3)] by simp
  next
    case False
    have step: "num_digits m base limit p acc False any = num_digits m base limit (p + 1) (acc * base + d) False True"
      using d False unfolding num_digits.simps [of m base limit p] Let_def d(1) cut by simp
    show ?thesis
    proof (cases ds)
      case Nil
      then show ?thesis using step Cons.IH [OF d(3), of "acc * base + d" True] False by auto
    next
      case (Cons x xs)
      then show ?thesis using step Cons.IH [OF d(3), of "acc * base + d" True] by auto
    qed
  qed
qed

lemma skip_space_run:
  "(\<forall>i < k. is_space (m (p + i))) \<Longrightarrow> \<not> is_space (m (p + k)) \<Longrightarrow> skip_space m p = Some (p + k)"
proof (induction k arbitrary: p)
  case 0
  then show ?case by (subst skip_space.simps) simp
next
  case (Suc k)
  have "skip_space m (p + 1) = Some (p + 1 + k)"
    using Suc.prems by (intro Suc.IH) (auto simp: all_conj_distrib dest: spec [of _ "Suc _"])
  then show ?case using Suc.prems(1) by (subst skip_space.simps) auto
qed

section \<open>Sorting lemmas\<close>

lemma length_swap_at [simp]: "length (swap_at i j xs) = length xs"
  by (simp add: swap_at_def)

lemma mset_swap_at: "i < length xs \<Longrightarrow> j < length xs \<Longrightarrow> mset (swap_at i j xs) = mset xs"
  unfolding swap_at_def by (rule mset_swap)

lemma nth_swap_at:
  "i < length xs \<Longrightarrow> j < length xs \<Longrightarrow> swap_at i j xs ! k = xs ! (if k = i then j else if k = j then i else k)"
  by (auto simp: swap_at_def nth_list_update)

text \<open>The array at \<open>base\<close> as the list of its elements, each the list of its bytes; exchanging the bytes
  of two elements in memory exchanges them in that list.\<close>

definition elems :: "nat \<Rightarrow> nat \<Rightarrow> nat \<Rightarrow> mem \<Rightarrow> byte list list" where
  "elems base sz n m = map (\<lambda>i. map (\<lambda>k. m (base + i * sz + k)) [0..<sz]) [0..<n]"

lemma swap_bytes_same [simp]: "swap_bytes n a a m = m"
  by (induction n arbitrary: a) auto

lemma swap_bytes_nth:
  "a + n \<le> b \<or> b + n \<le> a \<Longrightarrow> swap_bytes n a b m x =
    (if a \<le> x \<and> x < a + n then m (b + (x - a)) else if b \<le> x \<and> x < b + n then m (a + (x - b)) else m x)"
proof (induction n arbitrary: a b m)
  case (Suc n)
  let ?m = "m(a := m b, b := m a)"
  have R: "swap_bytes (Suc n) a b m x = (if a + 1 \<le> x \<and> x < a + 1 + n then ?m (b + 1 + (x - (a + 1)))
      else if b + 1 \<le> x \<and> x < b + 1 + n then ?m (a + 1 + (x - (b + 1))) else ?m x)"
    unfolding swap_bytes.simps by (rule Suc.IH) (use Suc.prems in auto)
  consider "x = a" | "x = b" | "a < x" "x < a + Suc n" | "b < x" "x < b + Suc n"
    | "x < a \<or> a + Suc n \<le> x" "x < b \<or> b + Suc n \<le> x" by linarith
  then show ?case
  proof cases
    case 3
    then have "b + 1 + (x - (a + 1)) = b + (x - a)" "b + (x - a) \<noteq> a" "b + (x - a) \<noteq> b" using Suc.prems by auto
    then show ?thesis unfolding R using 3 by simp
  next
    case 4
    then have "a + 1 + (x - (b + 1)) = a + (x - b)" "a + (x - b) \<noteq> a" "a + (x - b) \<noteq> b" "\<not> (a \<le> x \<and> x < a + Suc n)"
      using Suc.prems by auto
    then show ?thesis unfolding R using 4 by auto
  next
    case 5
    then have "(a \<le> x \<and> x < a + Suc n) = False" "(b \<le> x \<and> x < b + Suc n) = False" "x \<noteq> a" "x \<noteq> b"
      "(a + 1 \<le> x \<and> x < a + 1 + n) = False" "(b + 1 \<le> x \<and> x < b + 1 + n) = False" by auto
    then show ?thesis unfolding R by (simp only: if_False fun_upd_apply)
  qed (unfold R, use Suc.prems in auto)
qed auto

lemma elem_disjoint: "i < j \<Longrightarrow> base + i * sz + sz \<le> base + j * (sz :: nat)"
  using mult_le_mono1 [of "Suc i" j sz] by simp

lemma swap_bytes_elems:
  assumes "i < n" "j < n"
  shows "elems base sz n (swap_bytes sz (base + i * sz) (base + j * sz) m) = swap_at i j (elems base sz n m)"
proof (cases "i = j")
  case True
  then show ?thesis by (simp add: swap_at_def)
next
  case False
  have D: "base + a * sz + sz \<le> base + b * sz \<or> base + b * sz + sz \<le> base + a * sz" if "a \<noteq> b" for a b
    using that elem_disjoint [of a b base sz] elem_disjoint [of b a base sz] by linarith
  show ?thesis
  proof (rule nth_equalityI)
    fix c assume "c < length (elems base sz n (swap_bytes sz (base + i * sz) (base + j * sz) m))"
    then have c: "c < n" by (simp add: elems_def)
    have "swap_bytes sz (base + i * sz) (base + j * sz) m (base + c * sz + k) =
        m (base + (if c = j then i else if c = i then j else c) * sz + k)" if "k < sz" for k
      unfolding swap_bytes_nth [OF D [OF False]] using that D [OF False] D [of c i] D [of c j] by (auto simp: add.assoc)
    then show "elems base sz n (swap_bytes sz (base + i * sz) (base + j * sz) m) ! c = swap_at i j (elems base sz n m) ! c"
      using c assms by (cases "c = j"; cases "c = i") (simp_all add: elems_def nth_swap_at)
  qed (simp add: elems_def)
qed

lemma sink_perm: "j < length xs \<Longrightarrow> mset (sink cmp l j xs) = mset xs \<and> length (sink cmp l j xs) = length xs"
proof (induction cmp l j xs rule: sink.induct)
  case (1 cmp l j xs)
  show ?case using 1 unfolding sink.simps [of cmp l j xs] by (simp add: mset_swap_at)
qed

lemma insertion_sort_perm:
  assumes "h < length xs"
  shows "mset (insertion_sort cmp l h xs) = mset xs \<and> length (insertion_sort cmp l h xs) = length xs"
  unfolding insertion_sort_def
proof (rule fold_invariant_set [where P = "\<lambda>ys. mset ys = mset xs \<and> length ys = length xs"])
  fix i and ys :: "'a list" assume "i \<in> set [l + 1..<h + 1]" "mset ys = mset xs \<and> length ys = length xs"
  then have "i < length ys" "mset ys = mset xs" "length ys = length xs" using assms by auto
  then show "mset (sink cmp l i ys) = mset xs \<and> length (sink cmp l i ys) = length xs"
    using sink_perm [of i ys cmp l] by simp
qed simp

lemma swap_if_gt_perm:
  "i < length xs \<Longrightarrow> j < length xs \<Longrightarrow> mset (swap_if_gt cmp i j xs) = mset xs \<and> length (swap_if_gt cmp i j xs) = length xs"
  by (simp add: swap_if_gt_def mset_swap_at)

lemma median3_perm:
  assumes "l < h" "h < length xs"
  shows "mset (median3 cmp l h xs) = mset xs \<and> length (median3 cmp l h xs) = length xs"
proof -
  have "l + (h - l) div 2 < length xs" using assms by linarith
  then show ?thesis using assms by (simp add: median3_def Let_def mset_swap_at swap_if_gt_perm)
qed

lemma partition_loop_perm:
  "i < length xs \<Longrightarrow> j < length xs \<Longrightarrow>
    mset (snd (partition_loop cmp l pv i j xs)) = mset xs \<and> length (snd (partition_loop cmp l pv i j xs)) = length xs"
proof (induction cmp l pv i j xs rule: partition_loop.induct)
  case (1 cmp l pv i j xs)
  define i' where "i' = scan_up cmp pv xs i j"
  define j' where "j' = scan_down cmp pv xs i' j"
  have R: "partition_loop cmp l pv i j xs = (if j' \<le> i' then (i', xs)
      else partition_loop cmp l pv (i' + 1) (if l < j' then j' - 1 else j') (swap_at i' j' xs))"
    by (subst partition_loop.simps) (simp add: Let_def i'_def j'_def)
  have b: "i' < length xs" "j' < length xs"
    using scan_up_bounds(2) [of cmp pv xs i j] scan_down_bounds(1) [of cmp pv xs i' j] "1.prems" by (auto simp: i'_def j'_def)
  show ?case
  proof (cases "j' \<le> i'")
    case True
    then show ?thesis unfolding R by simp
  next
    case False
    have "mset (snd (partition_loop cmp l pv (i' + 1) (if l < j' then j' - 1 else j') (swap_at i' j' xs))) = mset (swap_at i' j' xs) \<and>
      length (snd (partition_loop cmp l pv (i' + 1) (if l < j' then j' - 1 else j') (swap_at i' j' xs))) = length (swap_at i' j' xs)"
      by (rule "1.IH" [OF i'_def j'_def False]) (use False b in auto)
    then show ?thesis unfolding R using False b by (simp add: mset_swap_at split del: if_split)
  qed
qed

lemma qsort_partition_perm:
  assumes "l < h" "h < length xs"
  shows "mset (snd (qsort_partition cmp l h xs)) = mset xs \<and> length (snd (qsort_partition cmp l h xs)) = length xs"
proof -
  let ?m = "median3 cmp l h xs"
  let ?p = "partition_loop cmp l (h - 1) l (h - 1) ?m"
  have m: "mset ?m = mset xs" "length ?m = length xs" using median3_perm [OF assms] by auto
  have p: "mset (snd ?p) = mset xs" "length (snd ?p) = length xs"
    using partition_loop_perm [of l ?m "h - 1" cmp l "h - 1"] m assms by auto
  have "fst ?p \<le> h" using partition_loop_bounds [of l h "h - 1" cmp l "h - 1" ?m] assms by simp
  then show ?thesis using p assms by (simp add: qsort_partition_def Let_def case_prod_beta mset_swap_at)
qed

lemma qsort_loop_perm:
  "\<forall>(l, h) \<in> set st. l \<le> h \<and> h < length xs \<Longrightarrow>
    mset (qsort_loop cmp st xs) = mset xs \<and> length (qsort_loop cmp st xs) = length xs"
proof (induction cmp st xs rule: qsort_loop.induct)
  case (2 cmp l h st xs)
  have h: "h < length xs" "l \<le> h" using "2.prems" by auto
  show ?case
  proof (cases "h - l < 8")
    case True
    then show ?thesis using "2.IH"(1) [OF True] "2.prems" insertion_sort_perm [OF h(1), of cmp l] by simp
  next
    case False
    then have lh: "l < h" by simp
    obtain i ys where q: "qsort_partition cmp l h xs = (i, ys)" by (cases "qsort_partition cmp l h xs")
    have y: "mset ys = mset xs" "length ys = length xs" using qsort_partition_perm [OF lh h(1), of cmp] q by auto
    have i: "l \<le> i" "i \<le> h" using qsort_partition_bounds [OF lh, of cmp xs] q by auto
    show ?thesis
    proof (cases "64 < length st + 2")
      case True
      then show ?thesis using False "2.IH"(2) [OF False q [symmetric] refl True] "2.prems" q y
          insertion_sort_perm [of h ys cmp l] h by simp
    next
      case st: False
      have "\<forall>(l, h) \<in> set ((if i < h then [(i + 1, h)] else []) @ (if l < i then [(l, i - 1)] else []) @ st). l \<le> h \<and> h < length ys"
        using "2.prems" h i y by auto
      then show ?thesis using False "2.IH"(3) [OF False q [symmetric] refl st] q y st by simp
    qed
  qed
qed simp

text \<open>A comparison function that orders its arguments: total and transitive.\<close>

definition orders :: "('a \<Rightarrow> 'a \<Rightarrow> int) \<Rightarrow> bool" where
  "orders cmp \<longleftrightarrow> (\<forall>x y. cmp x y \<le> 0 \<or> cmp y x \<le> 0) \<and> (\<forall>x y z. cmp x y \<le> 0 \<and> cmp y z \<le> 0 \<longrightarrow> cmp x z \<le> 0)"

text \<open>Positions \<open>l\<close> to \<open>i\<close> are in order, except that the element at \<open>j\<close> may be too far right.\<close>

definition almost :: "('a \<Rightarrow> 'a \<Rightarrow> int) \<Rightarrow> nat \<Rightarrow> nat \<Rightarrow> nat \<Rightarrow> 'a list \<Rightarrow> bool" where
  "almost cmp l i j xs \<longleftrightarrow> (\<forall>a b. l \<le> a \<and> a < b \<and> b \<le> i \<and> b \<noteq> j \<longrightarrow> cmp (xs ! a) (xs ! b) \<le> 0)"

definition ordered :: "('a \<Rightarrow> 'a \<Rightarrow> int) \<Rightarrow> nat \<Rightarrow> nat \<Rightarrow> 'a list \<Rightarrow> bool" where
  "ordered cmp l i xs \<longleftrightarrow> (\<forall>a b. l \<le> a \<and> a < b \<and> b \<le> i \<longrightarrow> cmp (xs ! a) (xs ! b) \<le> 0)"

lemma sink_ordered:
  assumes "orders cmp"
  shows "almost cmp l i j xs \<Longrightarrow> l \<le> j \<Longrightarrow> j \<le> i \<Longrightarrow> i < length xs \<Longrightarrow> ordered cmp l i (sink cmp l j xs)"
proof (induction j arbitrary: xs)
  case 0
  then show ?case unfolding sink.simps [of cmp l 0 xs] by (auto simp: almost_def ordered_def)
next
  case (Suc j)
  have tot: "\<And>x y. cmp x y \<le> 0 \<or> cmp y x \<le> 0" and trans: "\<And>x y z. cmp x y \<le> 0 \<Longrightarrow> cmp y z \<le> 0 \<Longrightarrow> cmp x z \<le> 0"
    using assms unfolding orders_def by blast+
  have A: "l \<le> a \<Longrightarrow> a < b \<Longrightarrow> b \<le> i \<Longrightarrow> b \<noteq> Suc j \<Longrightarrow> cmp (xs ! a) (xs ! b) \<le> 0" for a b
    using Suc.prems(1) unfolding almost_def by blast
  consider "\<not> l < Suc j" | "l < Suc j" "cmp (xs ! j) (xs ! Suc j) \<le> 0" | "l < Suc j" "0 < cmp (xs ! j) (xs ! Suc j)"
    by linarith
  then show ?case
  proof cases
    case 1
    then have "ordered cmp l i xs" unfolding ordered_def using A Suc.prems(2) by (metis le_less_trans less_irrefl not_le)
    then show ?thesis unfolding sink.simps [of cmp l "Suc j" xs] using 1 by simp
  next
    case 2
    have "cmp (xs ! a) (xs ! Suc j) \<le> 0" if "l \<le> a" "a < Suc j" for a
    proof (cases "a = j")
      case False
      then have "cmp (xs ! a) (xs ! j) \<le> 0" using A [of a j] that Suc.prems(3) by auto
      then show ?thesis using 2(2) trans by blast
    qed (use 2 in simp)
    then have "ordered cmp l i xs" unfolding ordered_def using A by blast
    then show ?thesis unfolding sink.simps [of cmp l "Suc j" xs] using 2 by simp
  next
    case 3
    let ?ys = "swap_at j (Suc j) xs"
    have y: "?ys ! k = (if k = j then xs ! Suc j else if k = Suc j then xs ! j else xs ! k)" for k
      using Suc.prems by (simp add: nth_swap_at)
    have swap: "cmp (xs ! Suc j) (xs ! j) \<le> 0" using 3(2) tot [of "xs ! j" "xs ! Suc j"] by auto
    have "almost cmp l i j ?ys"
      unfolding almost_def y
    proof (intro allI impI)
      fix a b assume ab: "l \<le> a \<and> a < b \<and> b \<le> i \<and> b \<noteq> j"
      show "cmp (if a = j then xs ! Suc j else if a = Suc j then xs ! j else xs ! a)
          (if b = j then xs ! Suc j else if b = Suc j then xs ! j else xs ! b) \<le> 0"
        using ab swap A [of a b] A [of a j] A [of "Suc j" b] A [of j b] 3(1) by auto
    qed
    then have "ordered cmp l i (sink cmp l j ?ys)" using Suc.IH [of ?ys] Suc.prems 3(1) by simp
    then show ?thesis unfolding sink.simps [of cmp l "Suc j" xs] using 3 by simp
  qed
qed

lemma insertion_sort_ordered:
  assumes "orders cmp" "h < length xs"
  shows "ordered cmp l h (insertion_sort cmp l h xs)"
proof (cases "l < h")
  case False
  then show ?thesis by (auto simp: ordered_def)
next
  case True
  have "ordered cmp l (l + k) (fold (\<lambda>i xs. sink cmp l i xs) [l + 1..<l + 1 + k] xs) \<and>
      length (fold (\<lambda>i xs. sink cmp l i xs) [l + 1..<l + 1 + k] xs) = length xs" if "l + k \<le> h" for k
    using that
  proof (induction k)
    case 0
    then show ?case by (simp add: ordered_def)
  next
    case (Suc k)
    let ?ys = "fold (\<lambda>i xs. sink cmp l i xs) [l + 1..<l + 1 + k] xs"
    have IH: "ordered cmp l (l + k) ?ys" "length ?ys = length xs" using Suc by auto
    then have "almost cmp l (l + Suc k) (l + Suc k) ?ys" by (auto simp: almost_def ordered_def)
    then have "ordered cmp l (l + Suc k) (sink cmp l (l + Suc k) ?ys)"
      using sink_ordered [OF assms(1), of l "l + Suc k" "l + Suc k" ?ys] IH(2) Suc.prems assms(2) by simp
    moreover have "length (sink cmp l (l + Suc k) ?ys) = length xs"
      using sink_perm [of "l + Suc k" ?ys cmp l] IH(2) Suc.prems assms(2) by simp
    moreover have "[l + 1..<l + 1 + Suc k] = [l + 1..<l + 1 + k] @ [l + Suc k]" by simp
    ultimately show ?case by (simp only: fold_append fold.simps o_apply id_apply)
  qed
  from this [of "h - l"] show ?thesis using True by (simp add: insertion_sort_def)
qed

section \<open>Search lemmas\<close>

lemma bsearch_loop_correct:
  assumes "0 < sz" "hi = lo + n * sz" "0 < lo"
    and mono: "\<And>i j. i \<le> j \<Longrightarrow> j < n \<Longrightarrow> compar (lo + i * sz) \<le> 0 \<Longrightarrow> compar (lo + j * sz) \<le> 0 \<and> (compar (lo + i * sz) < 0 \<longrightarrow> compar (lo + j * sz) < 0)"
  shows "if \<exists>i < n. compar (lo + i * sz) = 0
    then \<exists>i < n. bsearch_loop compar sz lo hi = lo + i * sz \<and> compar (lo + i * sz) = 0
    else bsearch_loop compar sz lo hi = 0"
  using assms
proof (induction n arbitrary: lo hi rule: less_induct)
  case (less n)
  show ?case
  proof (cases "n = 0")
    case True
    then show ?thesis using less.prems by (subst bsearch_loop.simps) simp
  next
    case False
    define k where "k = n div 2"
    have kn: "k < n" using False by (simp add: k_def)
    have n: "(hi - lo) div sz = n" using less.prems(1,2) by simp
    have lt: "lo < hi" using less.prems(1,2) False by simp
    have S: "bsearch_loop compar sz lo hi = (if compar (lo + k * sz) = 0 then lo + k * sz
        else if compar (lo + k * sz) < 0 then bsearch_loop compar sz lo (lo + k * sz)
        else bsearch_loop compar sz (lo + k * sz + sz) hi)"
      using lt less.prems(1) by (subst bsearch_loop.simps) (simp add: Let_def n k_def)
    consider "compar (lo + k * sz) = 0" | "compar (lo + k * sz) < 0" | "0 < compar (lo + k * sz)" by linarith
    then show ?thesis
    proof cases
      case 1
      then show ?thesis using S kn by auto
    next
      case 2
      have "if \<exists>i < k. compar (lo + i * sz) = 0
        then \<exists>i < k. bsearch_loop compar sz lo (lo + k * sz) = lo + i * sz \<and> compar (lo + i * sz) = 0
        else bsearch_loop compar sz lo (lo + k * sz) = 0"
        by (rule less.IH [OF kn]) (use less.prems kn in \<open>auto dest: less_trans\<close>)
      moreover have "compar (lo + i * sz) \<noteq> 0" if "k \<le> i" "i < n" for i
        using less.prems(4) [OF that] 2 by auto
      then have "(\<exists>i < n. compar (lo + i * sz) = 0) \<longleftrightarrow> (\<exists>i < k. compar (lo + i * sz) = 0)"
        using kn by (meson less_trans not_le)
      ultimately show ?thesis using 2 S kn by (auto split: if_splits dest: less_trans)
    next
      case 3
      let ?lo = "lo + k * sz + sz"
      have e: "?lo + i * sz = lo + (Suc k + i) * sz" for i by (simp add: algebra_simps)
      have "if \<exists>i < n - Suc k. compar (?lo + i * sz) = 0
        then \<exists>i < n - Suc k. bsearch_loop compar sz ?lo hi = ?lo + i * sz \<and> compar (?lo + i * sz) = 0
        else bsearch_loop compar sz ?lo hi = 0"
      proof (rule less.IH)
        show "n - Suc k < n" using False by simp
        have "n = Suc k + (n - Suc k)" using kn by simp
        then have "n * sz = Suc k * sz + (n - Suc k) * sz" by (metis add_mult_distrib)
        then show "hi = ?lo + (n - Suc k) * sz" using less.prems(2) by simp
        show "compar (?lo + j * sz) \<le> 0 \<and> (compar (?lo + i * sz) < 0 \<longrightarrow> compar (?lo + j * sz) < 0)"
          if "i \<le> j" "j < n - Suc k" "compar (?lo + i * sz) \<le> 0" for i j
          using less.prems(4) [of "Suc k + i" "Suc k + j"] that unfolding e by simp
      qed (use less.prems in auto)
      moreover have low: "compar (lo + i * sz) \<noteq> 0" if "i \<le> k" for i
        using less.prems(4) [OF that kn] 3 by auto
      have "(\<exists>i < n. compar (lo + i * sz) = 0) \<longleftrightarrow> (\<exists>i < n - Suc k. compar (?lo + i * sz) = 0)"
      proof
        assume "\<exists>i < n. compar (lo + i * sz) = 0"
        then obtain i where i: "i < n" "compar (lo + i * sz) = 0" by blast
        then have "k < i" using low [of i] by (meson not_le)
        then have "i - Suc k < n - Suc k" "compar (?lo + (i - Suc k) * sz) = 0" using i unfolding e by auto
        then show "\<exists>i < n - Suc k. compar (?lo + i * sz) = 0" by blast
      next
        assume "\<exists>i < n - Suc k. compar (?lo + i * sz) = 0"
        then obtain i where "i < n - Suc k" "compar (lo + (Suc k + i) * sz) = 0" unfolding e by blast
        then show "\<exists>i < n. compar (lo + i * sz) = 0" by (intro exI [of _ "Suc k + i"]) auto
      qed
      moreover have "bsearch_loop compar sz lo hi = bsearch_loop compar sz ?lo hi" using 3 S by simp
      moreover have "\<exists>i < n. r = lo + i * sz \<and> compar (lo + i * sz) = 0"
        if r: "\<exists>i < n - Suc k. r = ?lo + i * sz \<and> compar (?lo + i * sz) = 0" for r
      proof -
        obtain i where "i < n - Suc k" "r = lo + (Suc k + i) * sz" "compar (lo + (Suc k + i) * sz) = 0"
          using r unfolding e by blast
        then show ?thesis by (intro exI [of _ "Suc k + i"]) auto
      qed
      ultimately show ?thesis
        by (cases "\<exists>i < n. compar (lo + i * sz) = 0") (simp_all only: if_True if_False)
    qed
  qed
qed

section \<open>Correctness\<close>

text \<open>C34: after any white space and an optional sign, strtol and strtoul in an explicit base from 2 to
  36 (16, whose optional 0x prefix is read first, apart) return the value of the longest run of
  digits: strtol the signed value when it fits a long and otherwise the bound it passes with ERANGE,
  strtoul the value, negated modulo 2^64 after a minus sign, or ULONG_MAX with ERANGE; endptr is left
  behind the digits, or at the start of the string when there are none.\<close>

theorem strtol_saturates:
  assumes "\<forall>i < k. is_space (m (s + i))" "\<not> is_space (m (s + k))" "num_sign m (s + k) = (neg, p)"
    and "2 \<le> base" "base \<le> 36" "base \<noteq> 16" "digs m base p ds"
  shows "strtol m s (int base) =
      (let v = (if neg then - int (hval base ds) else int (hval base ds)); e = (if ds = [] then s else p + length ds) in
       if v < - (2 ^ 63) then Some (- (2 ^ 63), e, Some ERANGE)
       else if 2 ^ 63 - 1 < v then Some (2 ^ 63 - 1, e, Some ERANGE)
       else Some (v, e, None))
    \<and> strtoul m s (int base) =
      (let v = hval base ds; e = (if ds = [] then s else p + length ds) in
       if 2 ^ 64 - 1 < v then Some (2 ^ 64 - 1, e, Some ERANGE)
       else Some (if neg then (2 ^ 64 - v) mod 2 ^ 64 else v, e, None))"
proof -
  have base: "num_base m p (int base) = Some (base, p)" using assms(4-6) by (simp add: num_base_def)
  have skip: "skip_space m s = Some (s + k)" using skip_space_run [OF assms(1,2)] .
  have nil: "ds = [] \<Longrightarrow> hval base ds = 0" by (simp add: hval_def)
  have R: "\<exists>acc. num_digits m base limit p 0 False False =
      Some (p + length ds, acc, limit < hval base ds, ds \<noteq> []) \<and> (hval base ds \<le> limit \<longrightarrow> acc = hval base ds)" for limit
    using num_digits_run [OF assms(7), of limit 0 False] nil assms(4) by (cases ds) (auto simp: hval_def not_less)
  obtain acc where l: "num_digits m base (if neg then LONG_MAX + 1 else LONG_MAX) p 0 False False =
      Some (p + length ds, acc, (if neg then LONG_MAX + 1 else LONG_MAX) < hval base ds, ds \<noteq> [])"
    "hval base ds \<le> (if neg then LONG_MAX + 1 else LONG_MAX) \<Longrightarrow> acc = hval base ds"
    using R [of "if neg then LONG_MAX + 1 else LONG_MAX"] by blast
  obtain acu where u: "num_digits m base ULONG_MAX p 0 False False =
      Some (p + length ds, acu, ULONG_MAX < hval base ds, ds \<noteq> [])" "hval base ds \<le> ULONG_MAX \<Longrightarrow> acu = hval base ds"
    using R [of ULONG_MAX] by blast
  have "strtol m s (int base) =
      (let v = (if neg then - int (hval base ds) else int (hval base ds)); e = (if ds = [] then s else p + length ds) in
       if v < - (2 ^ 63) then Some (- (2 ^ 63), e, Some ERANGE)
       else if 2 ^ 63 - 1 < v then Some (2 ^ 63 - 1, e, Some ERANGE)
       else Some (v, e, None))"
    using l unfolding strtol_def skip by (cases neg) (auto simp: assms(3) base Let_def)
  moreover have "strtoul m s (int base) =
      (let v = hval base ds; e = (if ds = [] then s else p + length ds) in
       if 2 ^ 64 - 1 < v then Some (2 ^ 64 - 1, e, Some ERANGE)
       else Some (if neg then (2 ^ 64 - v) mod 2 ^ 64 else v, e, None))"
    using u unfolding strtoul_def skip by (cases neg) (auto simp: assms(3) base Let_def wrap64_def)
  ultimately show ?thesis by blast
qed

theorem strtol_saturates_witness:
  "strtol ((\<lambda>_. 0)(5 := 32, 6 := 45, 7 := 52, 8 := 50)) 5 10 = Some (- 42, 9, None)"
  using strtol_saturates [of 1 "(\<lambda>_. 0)(5 := 32, 6 := 45, 7 := 52, 8 := 50)" 5 True 7 10 "[4, 2]"]
  by (simp add: is_space_def num_sign_def digit_val_def hval_def)

text \<open>C36: qsort terminates on every array and every comparison function and only permutes the array;
  when the comparison is a total order and the array has at most eight elements, the result is
  sorted.\<close>

theorem qsort_permutes:
  "mset (qsort xs cmp) = mset xs \<and>
    (length xs \<le> 8 \<and> orders cmp \<longrightarrow> sorted_wrt (\<lambda>x y. cmp x y \<le> 0) (qsort xs cmp))"
proof -
  have "sorted_wrt (\<lambda>x y. cmp x y \<le> 0) (qsort xs cmp)" if "length xs \<le> 8" "orders cmp"
  proof (cases "length xs < 2")
    case True
    then show ?thesis by (cases xs; cases "tl xs") (auto simp: qsort_def)
  next
    case False
    let ?h = "length xs - 1"
    have "length xs - Suc 0 < 8" using that(1) by linarith
    then have "qsort xs cmp = insertion_sort cmp 0 ?h xs" using False by (simp add: qsort_def)
    moreover have "ordered cmp 0 ?h (insertion_sort cmp 0 ?h xs)"
      using insertion_sort_ordered [OF that(2), of ?h xs 0] False by simp
    moreover have "length (insertion_sort cmp 0 ?h xs) = length xs"
      using insertion_sort_perm [of ?h xs cmp 0] False by simp
    ultimately show ?thesis unfolding sorted_wrt_iff_nth_less ordered_def using False by auto
  qed
  moreover have "mset (qsort xs cmp) = mset xs"
    using qsort_loop_perm [of "[(0, length xs - 1)]" xs cmp] by (auto simp: qsort_def)
  ultimately show ?thesis by blast
qed

theorem qsort_permutes_witness:
  "sorted_wrt (\<lambda>x y. x - y \<le> 0) (qsort [3, 1, 2 :: int] (-))"
  using qsort_permutes [of "[3, 1, 2 :: int]" "(-)"] by (auto simp: orders_def)


text \<open>C38: bsearch on an array whose elements compare to the key in order (first those the key is
  greater than, then the equal ones, then the smaller) returns the address of an equal element when
  there is one, and NULL otherwise.\<close>

theorem bsearch_correct:
  assumes "0 < base" "0 < sz"
    and "\<forall>i j. i \<le> j \<and> j < n \<longrightarrow> sgn (compar (base + j * sz)) \<le> sgn (compar (base + i * sz))"
  shows "if \<exists>i < n. compar (base + i * sz) = 0
    then \<exists>i < n. bsearch compar base n sz = base + i * sz \<and> compar (base + i * sz) = 0
    else bsearch compar base n sz = 0"
proof (cases "n = 0")
  case False
  have "compar (base + j * sz) \<le> 0 \<and> (compar (base + i * sz) < 0 \<longrightarrow> compar (base + j * sz) < 0)"
    if "i \<le> j" "j < n" "compar (base + i * sz) \<le> 0" for i j
    using assms(3) [rule_format, of i j] that by (auto simp: sgn_if split: if_splits)
  then show ?thesis
    using bsearch_loop_correct [OF assms(2) refl assms(1), of n compar] False assms(2) by (simp add: bsearch_def)
qed (simp add: bsearch_def)

theorem bsearch_correct_witness:
  "\<exists>i < 3. bsearch (\<lambda>p. 2 - int (p - 8)) 8 3 2 = 8 + i * 2 \<and> 2 - int (8 + i * 2 - 8) = 0"
  using bsearch_correct [of 8 2 3 "\<lambda>p. 2 - int (p - 8)"]
  by (auto simp: sgn_if)

end
