(* ===== verification/Blocks.thy ===== *)
theory Blocks
  imports Prelude
begin

text \<open>
  Memory cut into blocks, each a header of \<open>H\<close> bytes and a payload: the abstract view shared by the
  user-space allocator (\<open>Umalloc\<close>) and the kernel heap (\<open>Heap\<close>).  A block is its payload size and a
  free flag.
\<close>

type_synonym blocks = "(nat \<times> bool) list"

definition bspan :: "nat \<Rightarrow> blocks \<Rightarrow> nat" where
  "bspan H ts = sum_list (map (\<lambda>t. H + fst t) ts)"

text \<open>The allocated payloads, each an address and a size, and the addresses of the free blocks.\<close>

primrec blive :: "nat \<Rightarrow> nat \<Rightarrow> blocks \<Rightarrow> (nat \<times> nat) set" where
  "blive H a [] = {}"
| "blive H a (t # ts) = (if snd t then {} else {(a + H, fst t)}) \<union> blive H (a + H + fst t) ts"

primrec bfree :: "nat \<Rightarrow> nat \<Rightarrow> blocks \<Rightarrow> nat list" where
  "bfree H a [] = []"
| "bfree H a (t # ts) = (if snd t then [a] else []) @ bfree H (a + H + fst t) ts"

lemma bspan_simps [simp]:
  "bspan H [] = 0" "bspan H (t # ts) = H + fst t + bspan H ts" "bspan H (xs @ ys) = bspan H xs + bspan H ys"
  by (auto simp: bspan_def)

lemma blive_append [simp]: "blive H a (xs @ ys) = blive H a xs \<union> blive H (a + bspan H xs) ys"
  by (induction xs arbitrary: a) (auto simp: add.assoc)

lemma bfree_append [simp]: "bfree H a (xs @ ys) = bfree H a xs @ bfree H (a + bspan H xs) ys"
  by (induction xs arbitrary: a) (auto simp: add.assoc)

lemma blive_mem: "(p, s) \<in> blive H a ts \<Longrightarrow> \<exists>pre post. ts = pre @ (s, False) # post \<and> p = a + bspan H pre + H"
proof (induction ts arbitrary: a)
  case (Cons t ts)
  consider "\<not> snd t" "p = a + H" "s = fst t" | "(p, s) \<in> blive H (a + H + fst t) ts"
    using Cons.prems by (auto split: if_splits)
  then show ?case
  proof cases
    case 1
    then show ?thesis by (intro exI [of _ "[]"] exI [of _ ts]) (cases t, auto)
  next
    case 2
    then obtain pre post where "ts = pre @ (s, False) # post" "p = a + H + fst t + bspan H pre + H"
      using Cons.IH by blast
    then show ?thesis by (intro exI [of _ "t # pre"] exI [of _ post]) simp
  qed
qed simp

lemma blive_range: "(p, s) \<in> blive H a ts \<Longrightarrow> a + H \<le> p \<and> p + s \<le> a + bspan H ts"
  by (induction ts arbitrary: a) (fastforce split: if_splits)+

lemma bfree_range: "x \<in> set (bfree H a ts) \<Longrightarrow> a \<le> x \<and> x + H \<le> a + bspan H ts"
  by (induction ts arbitrary: a) (fastforce split: if_splits)+

lemma blive_disjoint:
  "(p, n) \<in> blive H a ts \<Longrightarrow> (q, k) \<in> blive H a ts \<Longrightarrow> (p, n) = (q, k) \<or> p + n + H \<le> q \<or> q + k + H \<le> p"
proof (induction ts arbitrary: a)
  case (Cons t ts)
  have low: "a + H + fst t + H \<le> x" if "(x, y) \<in> blive H (a + H + fst t) ts" for x y using blive_range [OF that] by simp
  show ?case using Cons.prems Cons.IH [of "a + H + fst t"] low by (auto split: if_splits)
qed simp

end
