(* ===== verification/Umalloc.thy ===== *)
theory Umalloc
  imports Cstring Blocks
begin

text \<open>
  The boundary-tag allocator of \<^verbatim>\<open>userspace/libc/stdlib.c\<close>: \<^verbatim>\<open>malloc\<close>, \<^verbatim>\<open>free\<close>, \<^verbatim>\<open>realloc\<close> and
  \<^verbatim>\<open>calloc\<close> over the one-shot arena, and \<^verbatim>\<open>strdup\<close> of \<^verbatim>\<open>string.c\<close>.

  The two words of a block header are the cells \<open>hsize\<close> (with the free flag in its low bit) and
  \<open>hprev\<close> at the header's address; the bytes of the payloads are the user memory of \<open>Cstring\<close>.  The
  result of the \<^verbatim>\<open>exyde_map\<close> call that obtains the arena is an argument of the operations that may
  make it (\<open>0\<close> when the kernel refuses).

  The abstract view of an arena is the list of its blocks, each a payload size and a free flag:
  \<open>tiled\<close> says that the headers between two addresses spell out such a list.  The primitive header
  updates are shown to refine list updates, and the operations follow from them.
\<close>

section \<open>State\<close>

abbreviation ARENA_SIZE :: nat where "ARENA_SIZE \<equiv> 4194304"
abbreviation HDR_SIZE :: nat where "HDR_SIZE \<equiv> 16"

record arena =
  arena_hi :: nat
  arena_first :: nat
  arena_last :: nat
  arena_tried :: bool
  hsize :: "nat \<Rightarrow> nat"
  hprev :: "nat \<Rightarrow> nat"

definition arena_zero :: arena where
  "arena_zero = \<lparr>arena_hi = 0, arena_first = 0, arena_last = 0, arena_tried = False, hsize = (\<lambda>_. 0), hprev = (\<lambda>_. 0)\<rparr>"

section \<open>Header access\<close>

definition blk_size :: "arena \<Rightarrow> nat \<Rightarrow> nat" where
  "blk_size st b = 2 * (hsize st b div 2)"

definition blk_free :: "arena \<Rightarrow> nat \<Rightarrow> bool" where
  "blk_free st b \<longleftrightarrow> odd (hsize st b)"

definition blk_set_size :: "nat \<Rightarrow> nat \<Rightarrow> bool \<Rightarrow> arena \<Rightarrow> arena" where
  "blk_set_size b sz fr st = st\<lparr>hsize := (hsize st)(b := 2 * (sz div 2) + (if fr then 1 else 0))\<rparr>"

definition blk_set_free :: "nat \<Rightarrow> bool \<Rightarrow> arena \<Rightarrow> arena" where
  "blk_set_free b fr st = st\<lparr>hsize := (hsize st)(b := 2 * (hsize st b div 2) + (if fr then 1 else 0))\<rparr>"

definition blk_set_prev :: "nat \<Rightarrow> nat \<Rightarrow> arena \<Rightarrow> arena" where
  "blk_set_prev b sz st = st\<lparr>hprev := (hprev st)(b := sz)\<rparr>"

definition blk_next :: "arena \<Rightarrow> nat \<Rightarrow> nat" where
  "blk_next st b = (let p = b + HDR_SIZE + blk_size st b in if arena_hi st \<le> p then 0 else p)"

definition blk_prev :: "arena \<Rightarrow> nat \<Rightarrow> nat" where
  "blk_prev st b =
    (if hprev st b = 0 then 0
     else let p = b - HDR_SIZE - hprev st b in if p < arena_first st then 0 else p)"

section \<open>Operations\<close>

text \<open>The header behind a resized block learns the new size, or the block is the last one now.\<close>

definition link_after :: "nat \<Rightarrow> arena \<Rightarrow> arena" where
  "link_after b st =
    (let after = blk_next st b in
     if after \<noteq> 0 then blk_set_prev after (blk_size st b) st else st\<lparr>arena_last := b\<rparr>)"

definition split_block :: "nat \<Rightarrow> nat \<Rightarrow> arena \<Rightarrow> arena" where
  "split_block b need st =
    (let cur = blk_size st b in
     if cur < need + HDR_SIZE + 16 then blk_set_free b False st
     else let nb = b + HDR_SIZE + need in
       link_after nb (blk_set_size b need False (blk_set_prev nb need (blk_set_size nb (cur - need - HDR_SIZE) True st))))"

definition arena_append :: "nat \<Rightarrow> nat \<Rightarrow> arena \<Rightarrow> arena" where
  "arena_append start want st =
    (let nb = start;
       st = blk_set_size nb (want - HDR_SIZE) True st;
       st = blk_set_prev nb (if arena_last st \<noteq> 0 then blk_size st (arena_last st) else 0) st;
       st = (if arena_first st = 0 then st\<lparr>arena_first := nb\<rparr> else st);
       st = st\<lparr>arena_last := nb, arena_hi := start + want\<rparr>;
       pb = blk_prev st nb in
     if pb \<noteq> 0 \<and> blk_free st pb
     then (blk_set_size pb (blk_size st pb + HDR_SIZE + blk_size st nb) True st)\<lparr>arena_last := pb\<rparr>
     else st)"

definition arena_init_once :: "nat \<Rightarrow> arena \<Rightarrow> int \<times> arena" where
  "arena_init_once mapped st =
    (if arena_tried st then (if arena_first st \<noteq> 0 then 0 else - 1, st)
     else let st = st\<lparr>arena_tried := True\<rparr> in
       if mapped = 0 then (- 1, st) else (0, arena_append mapped ARENA_SIZE st))"

definition malloc_need :: "nat \<Rightarrow> nat" where
  "malloc_need sz = (let need = align_up 16 sz in if need < 16 then 16 else need)"

text \<open>The walk for the first free block that fits; every step moves up, below \<open>arena_hi\<close>.\<close>

function first_fit :: "arena \<Rightarrow> nat \<Rightarrow> nat \<Rightarrow> nat" where
  "first_fit st need b =
    (if b = 0 then 0
     else if \<not> blk_free st b \<or> blk_size st b < need then first_fit st need (blk_next st b)
     else b)"
  by auto
termination
  by (relation "measure (\<lambda>(st, need, b). if b = 0 then 0 else arena_hi st - b + 1)")
    (auto simp: blk_next_def Let_def)

declare first_fit.simps [simp del]

definition malloc :: "nat \<Rightarrow> nat \<Rightarrow> arena \<Rightarrow> nat \<times> int option \<times> arena" where
  "malloc mapped sz st =
    (if sz = 0 then (0, None, st)
     else let need = malloc_need sz;
         (r, st) = (if arena_first st = 0 then arena_init_once mapped st else (0, st)) in
       if r < 0 then (0, Some ENOMEM, st)
       else let b = first_fit st need (arena_first st) in
         if b \<noteq> 0 then (b + HDR_SIZE, None, split_block b need st) else (0, Some ENOMEM, st))"

text \<open>Absorb the following block \<open>nxt\<close> into \<open>b\<close>.\<close>

definition absorb :: "nat \<Rightarrow> nat \<Rightarrow> bool \<Rightarrow> arena \<Rightarrow> arena" where
  "absorb b nxt fr st = link_after b (blk_set_size b (blk_size st b + HDR_SIZE + blk_size st nxt) fr st)"

text \<open>The checks that refuse a pointer the allocator cannot have returned.\<close>

definition not_ours :: "arena \<Rightarrow> nat \<Rightarrow> bool" where
  "not_ours st p \<longleftrightarrow> p mod 16 \<noteq> 0 \<or> arena_first st = 0 \<or> p < arena_first st + HDR_SIZE \<or> arena_hi st \<le> p"

definition free :: "nat \<Rightarrow> arena \<Rightarrow> arena" where
  "free p st =
    (if p = 0 \<or> not_ours st p then st
     else let b = p - HDR_SIZE in
       if blk_free st b then st
       else let st = blk_set_free b True st;
           nxt = blk_next st b;
           st = (if nxt \<noteq> 0 \<and> blk_free st nxt then absorb b nxt True st else st);
           prv = blk_prev st b in
         if prv \<noteq> 0 \<and> blk_free st prv then absorb prv b True st else st)"

definition realloc :: "nat \<Rightarrow> nat \<Rightarrow> nat \<Rightarrow> arena \<Rightarrow> mem \<Rightarrow> nat \<times> int option \<times> arena \<times> mem" where
  "realloc mapped p sz st m =
    (if p = 0 then (let (np, e, st) = malloc mapped sz st in (np, e, st, m))
     else if sz = 0 then (0, None, free p st, m)
     else if not_ours st p then (0, None, st, m)
     else let b = p - HDR_SIZE; cur = blk_size st b; need = malloc_need sz in
       if need \<le> cur then (p, None, split_block b need st, m)
       else let nxt = blk_next st b in
         if nxt \<noteq> 0 \<and> blk_free st nxt \<and> need \<le> cur + HDR_SIZE + blk_size st nxt
         then (p, None, split_block b need (absorb b nxt False st), m)
         else let (np, e, st) = malloc mapped sz st in
           if np = 0 then (0, e, st, m)
           else (np, None, free p st, memcpy m np p (min cur sz)))"

definition calloc :: "nat \<Rightarrow> nat \<Rightarrow> nat \<Rightarrow> arena \<Rightarrow> mem \<Rightarrow> nat \<times> int option \<times> arena \<times> mem" where
  "calloc mapped nmemb sz st m =
    (if sz \<noteq> 0 \<and> (two64 - 1) div sz < nmemb then (0, Some ENOMEM, st, m)
     else let total = wrap64 (nmemb * sz); (p, e, st) = malloc mapped total st in
       if p = 0 then (0, e, st, m) else (p, None, st, memset m p 0 total))"

definition strdup :: "nat \<Rightarrow> nat \<Rightarrow> arena \<Rightarrow> mem \<Rightarrow> (nat \<times> int option \<times> arena \<times> mem) option" where
  "strdup mapped s st m =
    (case strlen m s of
       None \<Rightarrow> None
     | Some l \<Rightarrow>
         let n = l + 1; (p, e, st) = malloc mapped n st in
         Some (if p = 0 then (0, e, st, m) else (p, None, st, memcpy m p s n)))"

section \<open>The arena as a list of blocks\<close>

abbreviation span :: "blocks \<Rightarrow> nat" where "span \<equiv> bspan HDR_SIZE"
abbreviation live :: "nat \<Rightarrow> blocks \<Rightarrow> (nat \<times> nat) set" where "live \<equiv> blive HDR_SIZE"

primrec tiled :: "arena \<Rightarrow> nat \<Rightarrow> nat \<Rightarrow> nat \<Rightarrow> blocks \<Rightarrow> bool" where
  "tiled st a hi prev [] \<longleftrightarrow> a = hi"
| "tiled st a hi prev (t # ts) \<longleftrightarrow>
    hsize st a = fst t + (if snd t then 1 else 0) \<and> hprev st a = prev \<and> 16 dvd fst t \<and> 16 \<le> fst t
    \<and> tiled st (a + 16 + fst t) hi (fst t) ts"

definition lastsz :: "nat \<Rightarrow> blocks \<Rightarrow> nat" where
  "lastsz prev ts = (if ts = [] then prev else fst (last ts))"

text \<open>An arena whose headers spell out the blocks \<open>ts\<close>.\<close>

definition arena_ok :: "arena \<Rightarrow> blocks \<Rightarrow> bool" where
  "arena_ok st ts \<longleftrightarrow>
    (if arena_first st = 0 then ts = [] \<and> arena_last st = 0
     else arena_tried st \<and> 16 dvd arena_first st \<and> ts \<noteq> [] \<and> tiled st (arena_first st) (arena_hi st) 0 ts
       \<and> arena_last st = arena_first st + span (butlast ts))"

lemma tiled_hi: "tiled st a hi prev ts \<Longrightarrow> hi = a + span ts"
proof (induction ts arbitrary: a prev)
  case (Cons t ts)
  then show ?case using Cons.IH [of "a + 16 + fst t" "fst t"] by simp
qed simp

lemma tiled_append:
  "tiled st a hi prev (xs @ ys) \<longleftrightarrow> tiled st a (a + span xs) prev xs \<and> tiled st (a + span xs) hi (lastsz prev xs) ys"
  by (induction xs arbitrary: a prev) (auto simp: lastsz_def add.assoc)

lemma tiled_cong:
  "(\<And>x. a \<le> x \<Longrightarrow> x < hi \<Longrightarrow> hsize st' x = hsize st x \<and> hprev st' x = hprev st x) \<Longrightarrow>
    tiled st a hi prev ts \<Longrightarrow> tiled st' a hi prev ts"
proof (induction ts arbitrary: a prev)
  case (Cons t ts)
  have "hi = a + span (t # ts)" using tiled_hi Cons.prems(2) by blast
  then have "a < hi" by simp
  then have "hsize st' a = hsize st a" "hprev st' a = hprev st a" using Cons.prems(1) [of a] by auto
  moreover have "tiled st' (a + 16 + fst t) hi (fst t) ts"
    using Cons.IH [of "a + 16 + fst t" "fst t"] Cons.prems by simp
  ultimately show ?case using Cons.prems(2) by simp
qed simp

lemma tiled_span_dvd: "tiled st a hi prev ts \<Longrightarrow> 16 dvd span ts"
  by (induction ts arbitrary: a prev) auto

lemmas live_mem = blive_mem [where H = HDR_SIZE] and live_range = blive_range [where H = HDR_SIZE]
  and live_disjoint = blive_disjoint [where H = HDR_SIZE]

section \<open>Header updates refine list updates\<close>

lemma set_size_fields [simp]:
  "hsize (blk_set_size b sz fr st) = (hsize st)(b := 2 * (sz div 2) + (if fr then 1 else 0))" "hprev (blk_set_size b sz fr st) = hprev st"
  "arena_first (blk_set_size b sz fr st) = arena_first st" "arena_hi (blk_set_size b sz fr st) = arena_hi st"
  "arena_last (blk_set_size b sz fr st) = arena_last st" "arena_tried (blk_set_size b sz fr st) = arena_tried st"
  by (auto simp: blk_set_size_def)

lemma set_free_fields [simp]:
  "hsize (blk_set_free b fr st) = (hsize st)(b := 2 * (hsize st b div 2) + (if fr then 1 else 0))" "hprev (blk_set_free b fr st) = hprev st"
  "arena_first (blk_set_free b fr st) = arena_first st" "arena_hi (blk_set_free b fr st) = arena_hi st"
  "arena_last (blk_set_free b fr st) = arena_last st" "arena_tried (blk_set_free b fr st) = arena_tried st"
  by (auto simp: blk_set_free_def)

lemma set_prev_fields [simp]:
  "hprev (blk_set_prev b sz st) = (hprev st)(b := sz)" "hsize (blk_set_prev b sz st) = hsize st"
  "arena_first (blk_set_prev b sz st) = arena_first st" "arena_hi (blk_set_prev b sz st) = arena_hi st"
  "arena_last (blk_set_prev b sz st) = arena_last st" "arena_tried (blk_set_prev b sz st) = arena_tried st"
  by (auto simp: blk_set_prev_def)

lemma dvd16_even: "16 dvd (n :: nat) \<Longrightarrow> 2 * (n div 2) = n"
  by (auto simp: dvd_def)

lemma dvd16_odd:
  assumes "16 dvd (n :: nat)"
  shows "2 * ((n + (if f then 1 else 0)) div 2) = n" "odd (n + (if f then 1 else 0)) = f"
  using assms by (cases f; presburger)+

text \<open>Reading a header of a tiled arena.\<close>

lemma tiled_read:
  assumes "tiled st a hi prev (pre @ (s, f) # post)" "b = a + span pre"
  shows "blk_size st b = s" "blk_free st b = f" "hprev st b = lastsz prev pre" "16 dvd s" "16 \<le> s"
    "tiled st (b + 16 + s) hi s post" "b + 16 + s \<le> hi"
proof -
  have t: "hsize st b = s + (if f then 1 else 0)" "hprev st b = lastsz prev pre" "16 dvd s" "16 \<le> s"
    "tiled st (b + 16 + s) hi s post"
    using assms by (auto simp: tiled_append)
  then show "blk_size st b = s" "blk_free st b = f" using dvd16_odd by (auto simp: blk_size_def blk_free_def)
  show "hprev st b = lastsz prev pre" "16 dvd s" "16 \<le> s" "tiled st (b + 16 + s) hi s post" using t by auto
  show "b + 16 + s \<le> hi" using tiled_hi [OF t(5)] by simp
qed

text \<open>The blocks around position \<open>b\<close>, seen by the arena operations.\<close>

definition at_block :: "arena \<Rightarrow> nat \<Rightarrow> blocks \<Rightarrow> nat \<Rightarrow> bool \<Rightarrow> blocks \<Rightarrow> bool" where
  "at_block st b pre s f post \<longleftrightarrow>
    arena_ok st (pre @ (s, f) # post) \<and> arena_first st \<noteq> 0 \<and> b = arena_first st + span pre"

lemma at_block_read:
  assumes "at_block st b pre s f post"
  shows "blk_size st b = s" "blk_free st b = f" "hprev st b = lastsz 0 pre" "16 dvd s" "16 \<le> s" "b + 16 + s \<le> arena_hi st"
    "b \<noteq> 0" "blk_next st b = (if post = [] then 0 else b + 16 + s)" "arena_first st \<le> b" "16 dvd arena_first st"
proof -
  have t: "tiled st (arena_first st) (arena_hi st) 0 (pre @ (s, f) # post)" "b = arena_first st + span pre" "arena_first st \<noteq> 0"
    using assms by (auto simp: at_block_def arena_ok_def)
  note r = tiled_read [OF t(1,2)]
  show "blk_size st b = s" "blk_free st b = f" "hprev st b = lastsz 0 pre" "16 dvd s" "16 \<le> s" "b + 16 + s \<le> arena_hi st"
    using r by auto
  show "b \<noteq> 0" "arena_first st \<le> b" using t by auto
  show "16 dvd arena_first st" using assms by (auto simp: at_block_def arena_ok_def)
  have "arena_hi st = b + 16 + s + span post" using tiled_hi [OF r(6)] .
  then show "blk_next st b = (if post = [] then 0 else b + 16 + s)"
    using r(1) by (cases post) (auto simp: blk_next_def)
qed

lemma at_block_prev:
  assumes "at_block st b pre s f post"
  shows "blk_prev st b = (if pre = [] then 0 else arena_first st + span (butlast pre))"
proof (cases pre rule: rev_cases)
  case Nil
  then show ?thesis using at_block_read(3) [OF assms] by (simp add: blk_prev_def lastsz_def)
next
  case (snoc qs t)
  have t: "tiled st (arena_first st) (arena_hi st) 0 (qs @ (fst t, snd t) # (s, f) # post)"
    "b = arena_first st + span qs + (16 + fst t)"
    using assms snoc by (auto simp: at_block_def arena_ok_def)
  have "16 \<le> fst t" using tiled_read(5) [OF t(1) refl] .
  then show ?thesis using at_block_read(3) [OF assms] snoc t(2) by (simp add: blk_prev_def lastsz_def Let_def)
qed

text \<open>Replacing the blocks at \<open>b\<close> by others of the same extent, with the headers from \<open>b\<close> on rewritten.\<close>

lemma replace_blocks:
  assumes "at_block st b pre s f post"
    and "arena_first st' = arena_first st" "arena_hi st' = arena_hi st" "arena_tried st' = arena_tried st"
    and "\<And>x. x < b \<Longrightarrow> hsize st' x = hsize st x \<and> hprev st' x = hprev st x"
    and "tiled st' b (arena_hi st) (lastsz 0 pre) (ts @ post')" "ts \<noteq> []"
    and "arena_last st' = arena_first st + span pre + span (butlast (ts @ post'))"
  shows "arena_ok st' (pre @ ts @ post')"
proof -
  have t: "tiled st (arena_first st) b 0 pre" "b = arena_first st + span pre" "arena_first st \<noteq> 0" "arena_tried st" "16 dvd arena_first st"
    using assms(1) by (auto simp: at_block_def arena_ok_def tiled_append)
  have "tiled st' (arena_first st) b 0 pre" by (rule tiled_cong [OF _ t(1)]) (use assms(5) in auto)
  then have "tiled st' (arena_first st) (arena_hi st) 0 (pre @ ts @ post')"
    using assms(6) t(2) by (simp add: tiled_append)
  then show ?thesis using t assms(2-4,7,8) by (simp add: arena_ok_def butlast_append)
qed

lemma link_after_fields [simp]:
  "hsize (link_after b st) = hsize st" "arena_first (link_after b st) = arena_first st"
  "arena_hi (link_after b st) = arena_hi st" "arena_tried (link_after b st) = arena_tried st"
  by (auto simp: link_after_def Let_def)

lemma link_after_low: "x \<le> b \<Longrightarrow> hprev (link_after b st) x = hprev st x"
  by (auto simp: link_after_def Let_def blk_next_def split: if_splits)

lemma link_after_tiled:
  assumes "hsize st b = s + (if f then 1 else 0)" "16 dvd s" "16 \<le> s" "hprev st b = q"
    and "tiled st (b + 16 + s) (arena_hi st) old post"
  shows "tiled (link_after b st) b (arena_hi st) q ((s, f) # post)"
    and "arena_last (link_after b st) = (if post = [] then b else arena_last st)"
proof -
  have sz: "blk_size st b = s" using assms(1) dvd16_odd [OF assms(2)] by (simp add: blk_size_def)
  have hi: "arena_hi st = b + 16 + s + span post" using tiled_hi [OF assms(5)] .
  have "tiled (link_after b st) (b + 16 + s) (arena_hi st) s post \<and> arena_last (link_after b st) = (if post = [] then b else arena_last st)"
  proof (cases post)
    case Nil
    then show ?thesis using hi sz by (simp add: link_after_def blk_next_def)
  next
    case (Cons t ts)
    have L: "link_after b st = blk_set_prev (b + 16 + s) s st"
      using hi sz Cons by (simp add: link_after_def blk_next_def)
    have "tiled (link_after b st) (b + 16 + s + 16 + fst t) (arena_hi st) (fst t) ts"
      by (rule tiled_cong [of _ _ _ st]) (use assms(5) Cons L in auto)
    then show ?thesis using assms(5) Cons L by auto
  qed
  then show "tiled (link_after b st) b (arena_hi st) q ((s, f) # post)"
    "arena_last (link_after b st) = (if post = [] then b else arena_last st)"
    using assms(1-4) by (auto simp: link_after_low)
qed

lemma at_blockI:
  "arena_ok st' (pre @ (s, f) # post) \<Longrightarrow> at_block st b pre s0 f0 post0 \<Longrightarrow> arena_first st' = arena_first st \<Longrightarrow>
    at_block st' b pre s f post"
  by (auto simp: at_block_def)

lemma at_block_tail:
  assumes "at_block st b pre s f post"
  shows "tiled st (b + 16 + s) (arena_hi st) s post" "hsize st b = s + (if f then 1 else 0)"
    "arena_last st = b + span (butlast ((s, f) # post))" "arena_first st + span pre = b"
  using assms by (auto simp: at_block_def arena_ok_def tiled_append butlast_append)

lemma set_free_block:
  assumes "at_block st b pre s f post"
  shows "at_block (blk_set_free b g st) b pre s g post"
proof (rule at_blockI [OF _ assms])
  note r = at_block_read [OF assms] and t = at_block_tail [OF assms]
  have h: "2 * (hsize st b div 2) = s" using r(1) by (simp add: blk_size_def)
  have "tiled (blk_set_free b g st) (b + 16 + s) (arena_hi st) s post"
    by (rule tiled_cong [OF _ t(1)]) auto
  then have "tiled (blk_set_free b g st) b (arena_hi st) (lastsz 0 pre) ([(s, g)] @ post)"
    using r h by simp
  from replace_blocks [OF assms _ _ _ _ this] show "arena_ok (blk_set_free b g st) (pre @ (s, g) # post)"
    using t by (simp split: if_splits)
qed simp

lemma absorb_block:
  assumes "at_block st b pre s f ((s2, f2) # post)"
  shows "at_block (absorb b (b + 16 + s) g st) b pre (s + 16 + s2) g post"
proof (rule at_blockI [OF _ assms])
  note r = at_block_read [OF assms] and t = at_block_tail [OF assms]
  let ?m = "s + 16 + s2"
  let ?st = "blk_set_size b ?m g st"
  have s2: "hsize st (b + 16 + s) = s2 + (if f2 then 1 else 0)" "16 dvd s2" "16 \<le> s2" "tiled st (b + 16 + ?m) (arena_hi st) s2 post"
    using t(1) by (auto simp: add.assoc add.commute add.left_commute)
  have "blk_size st (b + 16 + s) = s2" using s2 dvd16_odd [OF s2(2)] by (simp add: blk_size_def)
  then have A: "absorb b (b + 16 + s) g st = link_after b ?st" using r(1) by (simp add: absorb_def)
  have d: "16 dvd ?m" using r(4) s2(2) by simp
  have p: "tiled ?st (b + 16 + ?m) (arena_hi ?st) s2 post" using tiled_cong [OF _ s2(4), of ?st] by simp
  have L: "tiled (link_after b ?st) b (arena_hi ?st) (lastsz 0 pre) ((?m, g) # post)"
    "arena_last (link_after b ?st) = (if post = [] then b else arena_last ?st)"
    using link_after_tiled [OF _ d _ _ p, of g "lastsz 0 pre"] dvd16_even [OF d] r(3) by auto
  then have "tiled (absorb b (b + 16 + s) g st) b (arena_hi st) (lastsz 0 pre) ([(?m, g)] @ post)" unfolding A by simp
  from replace_blocks [OF assms _ _ _ _ this] show "arena_ok (absorb b (b + 16 + s) g st) (pre @ (?m, g) # post)"
    using t(3,4) L(2) by (simp add: A link_after_low split: if_splits)
qed (simp add: absorb_def)

lemma split_block_block:
  assumes "at_block st b pre s f post" "16 dvd need" "16 \<le> need" "need \<le> s"
  shows "if s < need + 32 then at_block (split_block b need st) b pre s False post
    else at_block (split_block b need st) b pre need False ((s - need - 16, True) # post)"
proof (cases "s < need + 32")
  case True
  then show ?thesis using set_free_block [OF assms(1), of False] at_block_read(1) [OF assms(1)] by (simp add: split_block_def)
next
  case False
  note r = at_block_read [OF assms(1)] and t = at_block_tail [OF assms(1)]
  define nb where "nb = b + 16 + need"
  define s2 where "s2 = s - need - 16"
  define st' where "st' = blk_set_size b need False (blk_set_prev nb need (blk_set_size nb s2 True st))"
  have S: "split_block b need st = link_after nb st'"
    using False r(1) by (simp add: split_block_def st'_def nb_def s2_def Let_def)
  have s2: "16 dvd s2" "16 \<le> s2" "nb + 16 + s2 = b + 16 + s"
    using False assms(2,4) r(4) by (auto simp: s2_def nb_def)
  have p: "tiled st' (nb + 16 + s2) (arena_hi st') s post"
    unfolding s2(3) using tiled_cong [OF _ t(1), of st'] False by (simp add: st'_def nb_def)
  have L: "tiled (link_after nb st') nb (arena_hi st') need ((s2, True) # post)"
    "arena_last (link_after nb st') = (if post = [] then nb else arena_last st')"
    using link_after_tiled [OF _ s2(1,2) _ p, of True need] dvd16_even [OF s2(1)] by (auto simp: st'_def nb_def)
  have T: "tiled (link_after nb st') b (arena_hi st) (lastsz 0 pre) ([(need, False), (s2, True)] @ post)"
    using L(1) assms(2,3) r(3) dvd16_even [OF assms(2)] by (simp add: link_after_low st'_def nb_def)
  have "arena_ok (link_after nb st') (pre @ [(need, False), (s2, True)] @ post)"
  proof (rule replace_blocks [OF assms(1) _ _ _ _ T])
    show "hsize (link_after nb st') x = hsize st x \<and> hprev (link_after nb st') x = hprev st x" if "x < b" for x
      using that by (auto simp: link_after_low st'_def nb_def)
    show "arena_last (link_after nb st') = arena_first st + span pre + span (butlast ([(need, False), (s2, True)] @ post))"
      using t(3,4) L(2) s2(3) by (cases "post = []") (auto simp: st'_def nb_def)
  qed (auto simp: st'_def)
  then have "arena_ok (link_after nb st') (pre @ (need, False) # (s2, True) # post)" by simp
  then have "at_block (link_after nb st') b pre need False ((s2, True) # post)"
    by (rule at_blockI [OF _ assms(1)]) (simp add: st'_def)
  then show ?thesis using False S s2_def by simp
qed

section \<open>The operations on the list of blocks\<close>

lemma malloc_need_ok: "16 dvd malloc_need sz" "16 \<le> malloc_need sz" "sz + 15 < two64 \<Longrightarrow> sz \<le> malloc_need sz"
proof -
  have d: "16 dvd align_up 16 sz" by simp
  then show "16 dvd malloc_need sz" "16 \<le> malloc_need sz" by (auto simp: malloc_need_def Let_def simp del: align_up_dvd)
  assume "sz + 15 < two64"
  then show "sz \<le> malloc_need sz" using align_up_ge [of 16 sz] by (auto simp: malloc_need_def Let_def)
qed

lemma at_block_exists:
  "arena_ok st (pre @ t # post) \<Longrightarrow> arena_first st \<noteq> 0 \<Longrightarrow> at_block st (arena_first st + span pre) pre (fst t) (snd t) post"
  by (simp add: at_block_def)

lemma first_fit_block:
  assumes "arena_ok st (pre @ ts)" "arena_first st \<noteq> 0" "ts \<noteq> []"
  shows "(\<exists>q s post. ts = q @ (s, True) # post \<and> need \<le> s \<and> first_fit st need (arena_first st + span pre) = arena_first st + span (pre @ q))
    \<or> (first_fit st need (arena_first st + span pre) = 0 \<and> (\<forall>t \<in> set ts. snd t \<longrightarrow> fst t < need))"
  using assms
proof (induction ts arbitrary: pre)
  case (Cons t ts)
  let ?b = "arena_first st + span pre"
  have ab: "at_block st ?b pre (fst t) (snd t) ts" using at_block_exists Cons.prems by blast
  note r = at_block_read [OF ab]
  show ?case
  proof (cases "snd t \<and> need \<le> fst t")
    case True
    then have "first_fit st need ?b = ?b" using r by (subst first_fit.simps) auto
    then show ?thesis using True by (intro disjI1 exI [of _ "[]"] exI [of _ "fst t"] exI [of _ ts]) (cases t, auto)
  next
    case False
    then have F: "first_fit st need ?b = first_fit st need (blk_next st ?b)" using r(1,2,7) by (subst first_fit.simps) auto
    show ?thesis
    proof (cases "ts = []")
      case True
      then have "first_fit st need ?b = 0" using F r(8) by (subst F) (subst first_fit.simps, simp)
      then show ?thesis using True False by auto
    next
      case ne: False
      have N: "first_fit st need ?b = first_fit st need (arena_first st + span (pre @ [t]))"
        using F r(8) ne by (simp add: add.assoc)
      have "arena_ok st ((pre @ [t]) @ ts)" using Cons.prems(1) by simp
      from Cons.IH [OF this Cons.prems(2) ne] show ?thesis
      proof (elim disjE exE conjE)
        fix q s post assume "ts = q @ (s, True) # post" "need \<le> s"
          "first_fit st need (arena_first st + span (pre @ [t])) = arena_first st + span ((pre @ [t]) @ q)"
        then show ?thesis using N by (intro disjI1 exI [of _ "t # q"] exI [of _ s] exI [of _ post]) simp
      next
        assume "first_fit st need (arena_first st + span (pre @ [t])) = 0" "\<forall>t \<in> set ts. snd t \<longrightarrow> fst t < need"
        then show ?thesis using N False by auto
      qed
    qed
  qed
qed simp

lemma live_fresh: "tiled st a hi prev ts \<Longrightarrow> ts = pre @ (s, True) # post \<Longrightarrow> (a + span pre + 16, n) \<notin> live a ts"
proof
  assume t: "tiled st a hi prev ts" "ts = pre @ (s, True) # post" and "(a + span pre + 16, n) \<in> live a ts"
  then consider "(a + span pre + 16, n) \<in> live a pre" | "(a + span pre + 16, n) \<in> live (a + span pre + 16 + s) post" by auto
  then show False by cases (auto dest!: live_range)
qed

text \<open>Splitting a block allocates its address; the other blocks stay.\<close>

lemma split_block_any:
  assumes "at_block st b pre s f post" "16 dvd need" "16 \<le> need" "need \<le> s"
  shows "\<exists>ts' n. arena_ok (split_block b need st) ts' \<and> need \<le> n \<and>
    live (arena_first st) ts' = insert (b + 16, n) (live (arena_first st) pre \<union> live (b + 16 + s) post) \<and>
    arena_first (split_block b need st) = arena_first st"
proof -
  have b: "b = arena_first st + span pre" using assms(1) by (simp add: at_block_def)
  have f: "arena_first (split_block b need st) = arena_first st" by (simp add: split_block_def Let_def)
  show ?thesis
  proof (cases "s < need + 32")
    case True
    then have "arena_ok (split_block b need st) (pre @ (s, False) # post)"
      using split_block_block [OF assms] by (simp add: at_block_def)
    then show ?thesis using assms(4) b f by (intro exI [of _ "pre @ (s, False) # post"] exI [of _ s]) auto
  next
    case False
    then have "arena_ok (split_block b need st) (pre @ (need, False) # (s - need - 16, True) # post)"
      using split_block_block [OF assms] by (simp add: at_block_def)
    moreover have e: "arena_first st + span pre + 16 + need + 16 + (s - need - 16) = arena_first st + span pre + 16 + s"
      using False by simp
    have "live (arena_first st) (pre @ (need, False) # (s - need - 16, True) # post) =
        insert (b + 16, need) (live (arena_first st) pre \<union> live (b + 16 + s) post)"
      unfolding blive_append blive.simps fst_conv snd_conv e b by auto
    ultimately show ?thesis using f
      by (intro exI [of _ "pre @ (need, False) # (s - need - 16, True) # post"] exI [of _ need]) simp
  qed
qed

lemma split_block_live:
  assumes "at_block st b pre s True post" "16 dvd need" "16 \<le> need" "need \<le> s"
  shows "\<exists>ts' n. arena_ok (split_block b need st) ts' \<and> need \<le> n \<and>
    live (arena_first st) ts' = insert (b + 16, n) (live (arena_first st) (pre @ (s, True) # post)) \<and>
    arena_first (split_block b need st) = arena_first st"
proof -
  have "b = arena_first st + span pre" using assms(1) by (simp add: at_block_def)
  then show ?thesis using split_block_any [OF assms] by simp
qed

lemma arena_append_ok:
  assumes "arena_first st = 0" "arena_last st = 0" "arena_tried st" "mapped \<noteq> 0" "16 dvd mapped"
  shows "arena_ok (arena_append mapped ARENA_SIZE st) [(ARENA_SIZE - 16, True)]" "arena_first (arena_append mapped ARENA_SIZE st) = mapped"
proof -
  have "arena_append mapped ARENA_SIZE st = (blk_set_prev mapped 0 (blk_set_size mapped (ARENA_SIZE - 16) True st))
      \<lparr>arena_first := mapped, arena_last := mapped, arena_hi := mapped + ARENA_SIZE\<rparr>"
    using assms(1,2) by (simp add: arena_append_def Let_def blk_prev_def)
  then show "arena_ok (arena_append mapped ARENA_SIZE st) [(ARENA_SIZE - 16, True)]" "arena_first (arena_append mapped ARENA_SIZE st) = mapped"
    using assms by (auto simp: arena_ok_def)
qed

lemma malloc_ready:
  assumes "arena_ok st ts" "arena_first st \<noteq> 0" "0 < sz" "malloc mapped sz st = (p, e, st')"
  shows "\<exists>ts'. arena_ok st' ts' \<and> arena_first st' = arena_first st \<and>
    (if p = 0 then e = Some ENOMEM \<and> st' = st \<and> (\<forall>t \<in> set ts. snd t \<longrightarrow> fst t < malloc_need sz)
     else e = None \<and> 16 dvd p \<and> (\<forall>n. (p, n) \<notin> live (arena_first st) ts) \<and>
       (\<exists>n \<ge> malloc_need sz. live (arena_first st) ts' = insert (p, n) (live (arena_first st) ts)))"
proof -
  let ?need = "malloc_need sz" and ?f = "arena_first st"
  have M: "(p, e, st') = (let b = first_fit st ?need ?f in if b \<noteq> 0 then (b + 16, None, split_block b ?need st) else (0, Some ENOMEM, st))"
    using assms(2,3,4) by (simp add: malloc_def Let_def)
  have ne: "ts \<noteq> []" and t: "tiled st ?f (arena_hi st) 0 ts" and d: "16 dvd ?f" using assms(1,2) by (auto simp: arena_ok_def)
  have "(\<exists>q s post. ts = q @ (s, True) # post \<and> ?need \<le> s \<and> first_fit st ?need ?f = ?f + span q)
    \<or> (first_fit st ?need ?f = 0 \<and> (\<forall>t \<in> set ts. snd t \<longrightarrow> fst t < ?need))"
    using first_fit_block [of st "[]" ts ?need] assms(1,2) ne by simp
  then show ?thesis
  proof (elim disjE exE conjE)
    fix q s post assume q: "ts = q @ (s, True) # post" "?need \<le> s" "first_fit st ?need ?f = ?f + span q"
    have ab: "at_block st (?f + span q) q s True post" using at_block_exists [of st q "(s, True)" post] assms(1,2) q(1) by simp
    have R: "p = ?f + span q + 16" "e = None" "st' = split_block (?f + span q) ?need st" using M q(3) assms(2) by (auto simp: Let_def)
    have "16 dvd span q" using t q(1) tiled_append by (metis tiled_span_dvd)
    then have "16 dvd p" using R(1) d by simp
    then show ?thesis
      using split_block_live [OF ab malloc_need_ok(1,2) q(2)] live_fresh [OF t q(1)] R q(1) by auto
  next
    assume "first_fit st ?need ?f = 0" "\<forall>t \<in> set ts. snd t \<longrightarrow> fst t < ?need"
    then show ?thesis using M assms(1) by auto
  qed
qed

text \<open>The first allocation maps the arena, unless an attempt was made before.\<close>

definition ready :: "nat \<Rightarrow> arena \<Rightarrow> arena" where
  "ready mapped st = (if arena_first st = 0 then snd (arena_init_once mapped st) else st)"

lemma ready_ok:
  assumes "arena_ok st ts" "16 dvd mapped"
  shows "\<exists>ts'. arena_ok (ready mapped st) ts' \<and> live (arena_first (ready mapped st)) ts' = live (arena_first st) ts"
proof (cases "arena_first st = 0 \<and> \<not> arena_tried st \<and> mapped \<noteq> 0")
  case True
  let ?st = "st\<lparr>arena_tried := True\<rparr>"
  have "ready mapped st = arena_append mapped ARENA_SIZE ?st" using True by (simp add: ready_def arena_init_once_def)
  moreover have "ts = []" "arena_last st = 0" using assms(1) True by (auto simp: arena_ok_def)
  ultimately show ?thesis
    using arena_append_ok [of ?st mapped] True assms(2) by (intro exI [of _ "[(ARENA_SIZE - 16, True)]"]) auto
next
  case False
  then have "arena_first (ready mapped st) = arena_first st \<and> arena_ok (ready mapped st) ts"
    using assms(1) by (auto simp: ready_def arena_init_once_def arena_ok_def)
  then show ?thesis by auto
qed

lemma malloc_is_ready:
  assumes "0 < sz"
  shows "malloc mapped sz st =
    (if arena_first (ready mapped st) = 0 then (0, Some ENOMEM, ready mapped st) else malloc mapped sz (ready mapped st))"
proof (cases "arena_first st = 0")
  case True
  show ?thesis
  proof (cases "arena_tried st \<or> mapped = 0")
    case t: True
    then have "arena_init_once mapped st = (- 1, ready mapped st) \<and> arena_first (ready mapped st) = 0"
      using True by (auto simp: ready_def arena_init_once_def)
    then show ?thesis using True assms by (simp add: malloc_def Let_def)
  next
    case f: False
    let ?st = "arena_append mapped ARENA_SIZE (st\<lparr>arena_tried := True\<rparr>)"
    have R: "ready mapped st = ?st" using True f by (simp add: ready_def arena_init_once_def)
    have "arena_first ?st \<noteq> 0" using True f by (auto simp: arena_append_def Let_def)
    then show ?thesis using R True f assms by (simp add: malloc_def Let_def arena_init_once_def)
  qed
next
  case False
  then show ?thesis by (simp add: ready_def)
qed

lemma malloc_blocks:
  assumes "arena_ok st ts" "16 dvd mapped" "0 < sz" "malloc mapped sz st = (p, e, st')"
  shows "\<exists>ts'. arena_ok st' ts' \<and>
    (if p = 0 then e = Some ENOMEM \<and> live (arena_first st') ts' = live (arena_first st) ts \<and> (\<forall>t \<in> set ts'. snd t \<longrightarrow> fst t < malloc_need sz)
     else e = None \<and> 16 dvd p \<and> (\<forall>n. (p, n) \<notin> live (arena_first st) ts) \<and>
       (\<exists>n \<ge> malloc_need sz. live (arena_first st') ts' = insert (p, n) (live (arena_first st) ts)))"
proof -
  obtain us where us: "arena_ok (ready mapped st) us" "live (arena_first (ready mapped st)) us = live (arena_first st) ts"
    using ready_ok [OF assms(1,2)] by blast
  show ?thesis
  proof (cases "arena_first (ready mapped st) = 0")
    case True
    then have "us = []" using us(1) by (simp add: arena_ok_def)
    then show ?thesis using us assms(3,4) True malloc_is_ready [OF assms(3), of mapped st] by auto
  next
    case False
    then have M: "malloc mapped sz (ready mapped st) = (p, e, st')" using assms(4) malloc_is_ready [OF assms(3), of mapped st] by simp
    note R = malloc_ready [OF us(1) False assms(3) M]
    show ?thesis
    proof (cases "p = 0")
      case True
      then have "e = Some ENOMEM" "st' = ready mapped st" "\<forall>t \<in> set us. snd t \<longrightarrow> fst t < malloc_need sz" using R by auto
      then show ?thesis using us True by (intro exI [of _ us]) simp
    next
      case p: False
      then obtain ts' n where "arena_ok st' ts'" "arena_first st' = arena_first (ready mapped st)" "e = None" "16 dvd p"
        "\<forall>n. (p, n) \<notin> live (arena_first st) ts" "malloc_need sz \<le> n" "live (arena_first st') ts' = insert (p, n) (live (arena_first st) ts)"
        using R unfolding us(2) by (metis (no_types, lifting))
      then show ?thesis using p by (intro exI [of _ ts']) auto
    qed
  qed
qed

text \<open>Freeing an allocated block.\<close>

lemma free_blocks:
  assumes "arena_ok st ts" "(p, n) \<in> live (arena_first st) ts"
  shows "\<exists>ts'. arena_ok (free p st) ts' \<and> arena_first (free p st) = arena_first st \<and>
    live (arena_first st) ts' = live (arena_first st) ts - {(p, n)}"
proof -
  let ?F = "arena_first st"
  obtain pre post where ts: "ts = pre @ (n, False) # post" "p = ?F + span pre + 16" using live_mem [OF assms(2)] by blast
  define b where "b = ?F + span pre"
  have F: "?F \<noteq> 0" using assms(1) ts(1) by (auto simp: arena_ok_def split: if_splits)
  have ab: "at_block st b pre n False post" using at_block_exists [of st pre "(n, False)" post] assms(1) ts(1) F by (simp add: b_def)
  have d: "16 dvd p" using ts(2) at_block_read(10) [OF ab] tiled_span_dvd [of st ?F "?F + span pre" 0 pre] assms(1) ts(1) F
    by (auto simp: arena_ok_def tiled_append)
  have ours: "\<not> not_ours st p" "p \<noteq> 0" "p - 16 = b" "\<not> blk_free st b"
    using F d ts(2) at_block_read(2,5,6) [OF ab] by (auto simp: not_ours_def b_def dvd_eq_mod_eq_0)
  define st1 where "st1 = blk_set_free b True st"
  have a1: "at_block st1 b pre n True post" using set_free_block [OF ab] by (simp add: st1_def)
  have L0: "live ?F ts - {(p, n)} = live ?F pre \<union> live (b + 16 + n) post"
    using live_range [of p n ?F pre] live_range [of p n "b + 16 + n" post] ts by (auto simp: b_def)
  define st2 where "st2 = (if blk_next st1 b \<noteq> 0 \<and> blk_free st1 (blk_next st1 b) then absorb b (blk_next st1 b) True st1 else st1)"
  have "\<exists>k rest. at_block st2 b pre k True rest \<and> live (b + 16 + k) rest = live (b + 16 + n) post \<and> arena_first st2 = ?F"
  proof (cases "post \<noteq> [] \<and> snd (hd post)")
    case True
    then obtain s2 rest where post: "post = (s2, True) # rest" by (cases post) auto
    have nx: "blk_next st1 b = b + 16 + n" using at_block_read(8) [OF a1] post by simp
    have "at_block st1 (b + 16 + n) (pre @ [(n, True)]) s2 True rest" using a1 post by (simp add: at_block_def)
    then have "st2 = absorb b (b + 16 + n) True st1" using at_block_read(2) nx by (auto simp: st2_def)
    then have "at_block st2 b pre (n + 16 + s2) True rest" "arena_first st2 = ?F"
      using absorb_block [of st1 b pre n True s2 True rest True] a1 post by (auto simp: absorb_def st1_def)
    then show ?thesis using post by (intro exI [of _ "n + 16 + s2"] exI [of _ rest]) (simp add: add.assoc)
  next
    case False
    have "st2 = st1"
    proof (cases post)
      case (Cons t rest)
      then have "at_block st1 (b + 16 + n) (pre @ [(n, True)]) (fst t) (snd t) rest" using a1 by (simp add: at_block_def)
      then have "\<not> blk_free st1 (b + 16 + n)" using at_block_read(2) False Cons by auto
      then show ?thesis using at_block_read(8) [OF a1] Cons by (simp add: st2_def)
    qed (use at_block_read(8) [OF a1] in \<open>simp add: st2_def\<close>)
    then show ?thesis using a1 by (auto simp: st1_def)
  qed
  then obtain k rest where a2: "at_block st2 b pre k True rest" "live (b + 16 + k) rest = live (b + 16 + n) post" "arena_first st2 = ?F"
    by blast
  have R: "free p st = (if blk_prev st2 b \<noteq> 0 \<and> blk_free st2 (blk_prev st2 b) then absorb (blk_prev st2 b) b True st2 else st2)"
    unfolding free_def Let_def ours(3) st1_def [symmetric] st2_def [symmetric] using ours by (simp split del: if_split)
  show ?thesis
  proof (cases "pre \<noteq> [] \<and> snd (last pre)")
    case True
    then obtain qs s0 where pre: "pre = qs @ [(s0, True)]" by (cases pre rule: rev_cases) auto
    have pv: "blk_prev st2 b = ?F + span qs" "b = ?F + span qs + 16 + s0" using at_block_prev [OF a2(1)] pre a2(3) by (auto simp: b_def)
    have aq: "at_block st2 (?F + span qs) qs s0 True ((k, True) # rest)" using a2 pre by (simp add: at_block_def)
    have "free p st = absorb (?F + span qs) (?F + span qs + 16 + s0) True st2" using R pv F at_block_read(2) [OF aq] by simp
    then have A: "at_block (free p st) (?F + span qs) qs (s0 + 16 + k) True rest" "arena_first (free p st) = ?F"
      using absorb_block [OF aq, of True] a2(3) by (auto simp: absorb_def)
    have e: "?F + span qs + 16 + (s0 + 16 + k) = b + 16 + k" using pv(2) by simp
    have "live ?F (qs @ (s0 + 16 + k, True) # rest) = live ?F pre \<union> live (b + 16 + n) post"
      unfolding blive_append blive.simps fst_conv snd_conv e a2(2) pre by simp
    then show ?thesis using A L0 by (intro exI [of _ "qs @ (s0 + 16 + k, True) # rest"]) (simp add: at_block_def)
  next
    case False
    have "free p st = st2"
    proof (cases pre rule: rev_cases)
      case (snoc qs t)
      have "at_block st2 (?F + span qs) qs (fst t) (snd t) ((k, True) # rest)" using a2 snoc by (simp add: at_block_def)
      then show ?thesis using R at_block_prev [OF a2(1)] snoc False a2(3) at_block_read(2) by auto
    qed (use R at_block_prev [OF a2(1)] in simp)
    moreover have "live ?F (pre @ (k, True) # rest) = live ?F pre \<union> live (b + 16 + n) post" using a2(2) by (simp add: b_def)
    ultimately show ?thesis using a2 L0 by (intro exI [of _ "pre @ (k, True) # rest"]) (simp add: at_block_def)
  qed
qed

text \<open>The block of an allocated payload.\<close>

lemma live_block:
  assumes "arena_ok st ts" "(p, n) \<in> live (arena_first st) ts"
  obtains pre post where "ts = pre @ (n, False) # post" "at_block st (p - 16) pre n False post" "16 \<le> p" "\<not> not_ours st p"
    "live (arena_first st) ts - {(p, n)} = live (arena_first st) pre \<union> live (p + n) post"
proof -
  let ?F = "arena_first st"
  obtain pre post where ts: "ts = pre @ (n, False) # post" "p = ?F + span pre + 16" using live_mem [OF assms(2)] by blast
  have F: "?F \<noteq> 0" using assms(1) ts(1) by (auto simp: arena_ok_def split: if_splits)
  have ab: "at_block st (p - 16) pre n False post" using at_block_exists [of st pre "(n, False)" post] assms(1) ts F by simp
  have d: "16 dvd p" using ts(2) at_block_read(10) [OF ab] tiled_span_dvd [of st ?F "?F + span pre" 0 pre] assms(1) ts(1) F
    by (auto simp: arena_ok_def tiled_append)
  have ours: "\<not> not_ours st p" using F d ts(2) at_block_read(5,6) [OF ab] by (auto simp: not_ours_def dvd_eq_mod_eq_0)
  have "live ?F ts - {(p, n)} = live ?F pre \<union> live (p + n) post"
    using live_range [of p n ?F pre] live_range [of p n "p + n" post] ts by auto
  then show ?thesis using that ts ab ours by simp
qed

lemma realloc_blocks:
  assumes "arena_ok st ts" "(p, n) \<in> live (arena_first st) ts" "0 < sz" "16 dvd mapped"
    and "realloc mapped p sz st m = (q, e, st', m')"
  shows "\<exists>ts'. arena_ok st' ts' \<and>
    (if q = 0 then e = Some ENOMEM \<and> live (arena_first st') ts' = live (arena_first st) ts \<and> m' = m
     else \<exists>k \<ge> malloc_need sz. live (arena_first st') ts' = insert (q, k) (live (arena_first st) ts - {(p, n)})
       \<and> (q = p \<and> m' = m \<or> (\<forall>(x, l) \<in> live (arena_first st) ts. q + k + 16 \<le> x \<or> x + l + 16 \<le> q) \<and> m' = memcpy m q p (min n sz)))"
proof -
  let ?F = "arena_first st" and ?need = "malloc_need sz"
  obtain pre post where B: "ts = pre @ (n, False) # post" "at_block st (p - 16) pre n False post" "16 \<le> p" "\<not> not_ours st p"
    "live ?F ts - {(p, n)} = live ?F pre \<union> live (p + n) post"
    using live_block [OF assms(1,2)] by metis
  note r = at_block_read [OF B(2)]
  define nxt where "nxt = blk_next st (p - 16)"
  have R: "realloc mapped p sz st m =
      (if ?need \<le> n then (p, None, split_block (p - 16) ?need st, m)
       else if nxt \<noteq> 0 \<and> blk_free st nxt \<and> ?need \<le> n + 16 + blk_size st nxt
       then (p, None, split_block (p - 16) ?need (absorb (p - 16) nxt False st), m)
       else let (np, e, st) = malloc mapped sz st in
           if np = 0 then (0, e, st, m) else (np, None, free p st, memcpy m np p (min n sz)))"
    unfolding realloc_def Let_def r(1) nxt_def [symmetric] using assms(3) B(3,4) by (simp split del: if_split)
  consider "?need \<le> n" "(q, e, st', m') = (p, None, split_block (p - 16) ?need st, m)"
    | "nxt \<noteq> 0" "blk_free st nxt" "?need \<le> n + 16 + blk_size st nxt"
      "(q, e, st', m') = (p, None, split_block (p - 16) ?need (absorb (p - 16) nxt False st), m)"
    | "(q, e, st', m') = (let (np, e, st) = malloc mapped sz st in
           if np = 0 then (0, e, st, m) else (np, None, free p st, memcpy m np p (min n sz)))"
  proof -
    note R' = R [unfolded assms(5)]
    show thesis if c1: "\<lbrakk>?need \<le> n; (q, e, st', m') = (p, None, split_block (p - 16) ?need st, m)\<rbrakk> \<Longrightarrow> thesis"
      and c2: "\<lbrakk>nxt \<noteq> 0; blk_free st nxt; ?need \<le> n + 16 + blk_size st nxt;
        (q, e, st', m') = (p, None, split_block (p - 16) ?need (absorb (p - 16) nxt False st), m)\<rbrakk> \<Longrightarrow> thesis"
      and c3: "(q, e, st', m') = (let (np, e, st) = malloc mapped sz st in
           if np = 0 then (0, e, st, m) else (np, None, free p st, memcpy m np p (min n sz))) \<Longrightarrow> thesis"
    proof (cases "?need \<le> n")
      case True
      show thesis by (rule c1 [OF True]) (use R' True in simp)
    next
      case f: False
      show thesis
      proof (cases "nxt \<noteq> 0 \<and> blk_free st nxt \<and> ?need \<le> n + 16 + blk_size st nxt")
        case True
        then show thesis using c2 R' f by simp
      next
        case False
        have "(q, e, st', m') = (let (np, e, st) = malloc mapped sz st in
           if np = 0 then (0, e, st, m) else (np, None, free p st, memcpy m np p (min n sz)))"
          using R' unfolding if_not_P [OF f] if_not_P [OF False] .
        then show thesis by (rule c3)
      qed
    qed
  qed
  then show ?thesis
  proof cases
    case 1
    then show ?thesis using split_block_any [OF B(2) malloc_need_ok(1,2) 1(1)] B(3,5) by auto
  next
    case 2
    then obtain s2 rest where post: "post = (s2, True) # rest"
    proof (cases post)
      case (Cons t rest)
      then have "at_block st nxt (pre @ [(n, False)]) (fst t) (snd t) rest" using B(2) r(8) by (simp add: at_block_def nxt_def)
      then have "snd t" using at_block_read(2) 2(2) by auto
      then show ?thesis using that [of "fst t" rest] Cons by (cases t) auto
    qed (use r(8) in \<open>simp add: nxt_def\<close>)
    have nx: "nxt = p - 16 + 16 + n" using r(8) post by (simp add: nxt_def)
    have "at_block st nxt (pre @ [(n, False)]) s2 True rest" using B(2) nx post by (simp add: at_block_def)
    then have sz2: "blk_size st nxt = s2" using at_block_read(1) by blast
    have ab: "at_block (absorb (p - 16) nxt False st) (p - 16) pre (n + 16 + s2) False rest"
      using absorb_block [of st "p - 16" pre n False s2 True rest False] B(2) post nx by simp
    have F: "arena_first (absorb (p - 16) nxt False st) = ?F" by (simp add: absorb_def)
    have "live (p + n) post = live (p + n + 16 + s2) rest" using post by simp
    then show ?thesis
      using split_block_any [OF ab malloc_need_ok(1,2), of sz] 2(3,4) B(3,5) F sz2 by (auto simp: add.assoc)
  next
    case 3
    obtain np e1 st1 where M: "malloc mapped sz st = (np, e1, st1)" by (cases "malloc mapped sz st")
    obtain ts1 where T: "arena_ok st1 ts1" "if np = 0 then e1 = Some ENOMEM \<and> live (arena_first st1) ts1 = live ?F ts \<and> (\<forall>t \<in> set ts1. snd t \<longrightarrow> fst t < ?need)
      else e1 = None \<and> 16 dvd np \<and> (\<forall>n. (np, n) \<notin> live ?F ts) \<and> (\<exists>n \<ge> ?need. live (arena_first st1) ts1 = insert (np, n) (live ?F ts))"
      using malloc_blocks [OF assms(1,4,3) M] by blast
    show ?thesis
    proof (cases "np = 0")
      case True
      then show ?thesis using 3 M T by auto
    next
      case False
      then obtain k where k: "?need \<le> k" "live (arena_first st1) ts1 = insert (np, k) (live ?F ts)" "\<forall>n. (np, n) \<notin> live ?F ts" using T(2) by auto
      then have "(p, n) \<in> live (arena_first st1) ts1" using assms(2) by simp
      from free_blocks [OF T(1) this] obtain ts2 where f: "arena_ok (free p st1) ts2" "arena_first (free p st1) = arena_first st1"
        "live (arena_first st1) ts2 = live (arena_first st1) ts1 - {(p, n)}" by blast
      have "(np, k) \<noteq> (p, n)" using k(3) assms(2) by auto
      then have "live (arena_first st1) ts2 = insert (np, k) (live ?F ts - {(p, n)})" using f(3) k(2) by auto
      moreover have "np + k + 16 \<le> x \<or> x + l + 16 \<le> np" if "(x, l) \<in> live ?F ts" for x l
        using live_disjoint [of np k "arena_first st1" ts1 x l] k(2,3) that by auto
      ultimately show ?thesis using 3 M False f(1,2) k(1) by (intro exI [of _ ts2]) auto
    qed
  qed
qed

section \<open>Correctness\<close>

text \<open>C28: malloc keeps the arena well formed and leaves every allocated block allocated where it is; it
  returns either NULL with ENOMEM, and then no free block is large enough, or the 16-byte aligned
  address of a new block of at least the size asked for, which overlaps no allocated block or
  header.\<close>

theorem malloc_sound:
  assumes "arena_ok st ts" "16 dvd mapped" "0 < sz" "sz + 15 < two64" "malloc mapped sz st = (p, e, st')"
  shows "\<exists>ts'. arena_ok st' ts' \<and>
    (if p = 0 then e = Some ENOMEM \<and> live (arena_first st') ts' = live (arena_first st) ts \<and> (\<forall>t \<in> set ts'. snd t \<longrightarrow> fst t < align_up 16 sz)
     else 16 dvd p \<and> (\<exists>n \<ge> sz. live (arena_first st') ts' = insert (p, n) (live (arena_first st) ts) \<and>
       (\<forall>(q, k) \<in> live (arena_first st) ts. p + n + 16 \<le> q \<or> q + k + 16 \<le> p)))"
proof -
  have need: "malloc_need sz = align_up 16 sz" using align_up_ge [of 16 sz] assms(3,4) align_up_dvd [of 16 sz]
    by (auto simp: malloc_need_def Let_def dvd_def)
  obtain ts' where T: "arena_ok st' ts'" "if p = 0 then e = Some ENOMEM \<and> live (arena_first st') ts' = live (arena_first st) ts \<and> (\<forall>t \<in> set ts'. snd t \<longrightarrow> fst t < malloc_need sz)
     else e = None \<and> 16 dvd p \<and> (\<forall>n. (p, n) \<notin> live (arena_first st) ts) \<and> (\<exists>n \<ge> malloc_need sz. live (arena_first st') ts' = insert (p, n) (live (arena_first st) ts))"
    using malloc_blocks [OF assms(1,2,3,5)] by blast
  show ?thesis
  proof (cases "p = 0")
    case True
    then show ?thesis using T need by auto
  next
    case False
    then obtain n where n: "malloc_need sz \<le> n" "live (arena_first st') ts' = insert (p, n) (live (arena_first st) ts)" "\<forall>n. (p, n) \<notin> live (arena_first st) ts" "16 dvd p"
      using T(2) by auto
    have "sz \<le> n" using n(1) malloc_need_ok(3) [OF assms(4)] by simp
    moreover have "p + n + 16 \<le> q \<or> q + k + 16 \<le> p" if "(q, k) \<in> live (arena_first st) ts" for q k
      using live_disjoint [of p n "arena_first st'" ts' q k] n(2,3) that by auto
    ultimately show ?thesis using False T(1) n(2,4) by (intro exI [of _ ts']) auto
  qed
qed

theorem malloc_sound_witness:
  "\<exists>ts'. arena_ok (snd (snd (malloc 4096 100 arena_zero))) ts' \<and> fst (malloc 4096 100 arena_zero) = 4112"
proof -
  have m: "malloc 4096 100 arena_zero = (4112, None, snd (snd (malloc 4096 100 arena_zero)))"
    by (simp add: malloc_def arena_init_once_def arena_append_def arena_zero_def Let_def blk_prev_def malloc_need_def
        align_up_def align_down_def first_fit.simps blk_free_def blk_size_def)
  have z: "arena_ok arena_zero []" by (simp add: arena_ok_def arena_zero_def)
  from malloc_sound [OF z _ _ _ m] obtain ts' where "arena_ok (snd (snd (malloc 4096 100 arena_zero))) ts'" by auto
  then show ?thesis using m by (metis fst_conv)
qed

text \<open>C29: freeing an allocated block keeps the arena well formed and releases exactly that block; a second
  free of the same pointer changes nothing.\<close>

theorem free_sound:
  assumes "arena_ok st ts" "(p, n) \<in> live (arena_first st) ts"
  shows "(\<exists>ts'. arena_ok (free p st) ts' \<and> live (arena_first (free p st)) ts' = live (arena_first st) ts - {(p, n)})
    \<and> free p (free p st) = free p st"
proof -
  obtain pre post where B: "at_block st (p - 16) pre n False post" "\<not> not_ours st p" using live_block [OF assms] by metis
  have "blk_free (free p st) (p - 16)"
  proof -
    have "odd (hsize (absorb b nxt True st') x)" if "odd (hsize st' x)" for b nxt st' x using that by (auto simp: absorb_def)
    then show ?thesis using B(2) at_block_read(2) [OF B(1)] by (auto simp: free_def Let_def blk_free_def not_ours_def)
  qed
  moreover have "free p st' = st'" if "blk_free st' (p - 16)" for st' using that by (simp add: free_def Let_def)
  ultimately have "free p (free p st) = free p st" by blast
  then show ?thesis using free_blocks [OF assms] by metis
qed

theorem free_sound_witness:
  "free 32 (free 32 (arena_zero\<lparr>arena_first := 16, arena_last := 16, arena_hi := 64, arena_tried := True, hsize := (\<lambda>_. 0)(16 := 32)\<rparr>)) =
   free 32 (arena_zero\<lparr>arena_first := 16, arena_last := 16, arena_hi := 64, arena_tried := True, hsize := (\<lambda>_. 0)(16 := 32)\<rparr>)"
  by (rule conjunct2 [OF free_sound [of _ "[(32, False)]" 32 32]]) (simp_all add: arena_ok_def arena_zero_def)

text \<open>C30: realloc of an allocated block keeps the arena well formed; either it fails with ENOMEM and nothing
  changes, or it returns a block of at least the new size in place of the old one, whose first
  bytes, up to the smaller size, are those of the old block, and every other allocated block keeps
  its contents.\<close>

theorem realloc_preserves:
  assumes "arena_ok st ts" "(p, n) \<in> live (arena_first st) ts" "0 < sz" "sz + 15 < two64" "16 dvd mapped"
    and "realloc mapped p sz st m = (q, e, st', m')"
  shows "\<exists>ts'. arena_ok st' ts' \<and>
    (if q = 0 then e = Some ENOMEM \<and> live (arena_first st') ts' = live (arena_first st) ts \<and> m' = m
     else \<exists>k \<ge> sz. live (arena_first st') ts' = insert (q, k) (live (arena_first st) ts - {(p, n)})
       \<and> (\<forall>i < min n sz. m' (q + i) = m (p + i))
       \<and> (\<forall>(x, l) \<in> live (arena_first st) ts - {(p, n)}. \<forall>i < l. m' (x + i) = m (x + i)))"
proof -
  let ?F = "arena_first st"
  obtain ts' where T: "arena_ok st' ts'" "if q = 0 then e = Some ENOMEM \<and> live (arena_first st') ts' = live ?F ts \<and> m' = m
     else \<exists>k \<ge> malloc_need sz. live (arena_first st') ts' = insert (q, k) (live ?F ts - {(p, n)})
       \<and> (q = p \<and> m' = m \<or> (\<forall>(x, l) \<in> live ?F ts. q + k + 16 \<le> x \<or> x + l + 16 \<le> q) \<and> m' = memcpy m q p (min n sz))"
    using realloc_blocks [OF assms(1,2,3,5,6)] by blast
  show ?thesis
  proof (cases "q = 0")
    case True
    then show ?thesis using T by auto
  next
    case False
    then obtain k where k: "malloc_need sz \<le> k" "live (arena_first st') ts' = insert (q, k) (live ?F ts - {(p, n)})"
      "q = p \<and> m' = m \<or> (\<forall>(x, l) \<in> live ?F ts. q + k + 16 \<le> x \<or> x + l + 16 \<le> q) \<and> m' = memcpy m q p (min n sz)"
      using T(2) by auto
    have sz: "sz \<le> k" using k(1) malloc_need_ok(3) [OF assms(4)] by simp
    have "(\<forall>i < min n sz. m' (q + i) = m (p + i)) \<and> (\<forall>(x, l) \<in> live ?F ts - {(p, n)}. \<forall>i < l. m' (x + i) = m (x + i))"
      using k(3)
    proof
      assume d: "(\<forall>(x, l) \<in> live ?F ts. q + k + 16 \<le> x \<or> x + l + 16 \<le> q) \<and> m' = memcpy m q p (min n sz)"
      have "q + k + 16 \<le> p \<or> p + n + 16 \<le> q" using d assms(2) by auto
      then have m': "m' = (\<lambda>x. if q \<le> x \<and> x < q + min n sz then m (p + (x - q)) else m x)"
        using d memcpy_copy [of q p "min n sz" m] by auto
      have "m' (x + i) = m (x + i)" if "(x, l) \<in> live ?F ts" "i < l" for x l i
      proof -
        have "q + k + 16 \<le> x \<or> x + l + 16 \<le> q" using d that(1) by blast
        then show ?thesis using sz that(2) by (auto simp: m')
      qed
      moreover have "m' (q + i) = m (p + i)" if "i < min n sz" for i using that by (simp add: m')
      ultimately show ?thesis by blast
    qed auto
    then show ?thesis using False T(1) k(2) sz by (intro exI [of _ ts']) auto
  qed
qed

theorem realloc_preserves_witness:
  "\<exists>ts'. arena_ok (fst (snd (snd (realloc 0 32 10
    (arena_zero\<lparr>arena_first := 16, arena_last := 16, arena_hi := 64, arena_tried := True, hsize := (\<lambda>_. 0)(16 := 32)\<rparr>) (\<lambda>_. 7))))) ts'"
proof -
  let ?st = "arena_zero\<lparr>arena_first := 16, arena_last := 16, arena_hi := 64, arena_tried := True, hsize := (\<lambda>_. 0)(16 := 32)\<rparr>"
  have ok: "arena_ok ?st [(32, False)]" "(32, 32) \<in> live (arena_first ?st) [(32, False)]" by (simp_all add: arena_ok_def arena_zero_def)
  obtain q e st' m' where R: "realloc 0 32 10 ?st (\<lambda>_. 7) = (q, e, st', m')" by (metis prod.collapse)
  show ?thesis using realloc_preserves [OF ok _ _ _ R] R by auto
qed

text \<open>A request within 15 bytes of \<open>2 ^ 64\<close> wraps around in the rounding: the caller gets 16 bytes.\<close>

theorem malloc_wraps:
  assumes "two64 - 15 \<le> sz" "sz < two64"
  shows "malloc mapped sz st = malloc mapped 16 st"
proof -
  have w: "wrap64 (sz + 15) = sz + 15 - two64" using assms by (simp add: wrap64_def mod_if)
  moreover have "(sz + 15 - two64) div 16 = 0" using assms by simp
  ultimately have "malloc_need sz = malloc_need 16" by (simp add: malloc_need_def align_up_def align_down_def)
  then show ?thesis using assms by (simp add: malloc_def)
qed

text \<open>calloc refuses a product that does not fit and clears what it returns.\<close>

lemma calloc_zeroes:
  assumes "calloc mapped nmemb sz st m = (p, e, st', m')"
  shows "if two64 \<le> nmemb * sz then p = 0 \<and> e = Some ENOMEM \<and> st' = st \<and> m' = m
    else if p = 0 then m' = m
    else m' = (\<lambda>x. if p \<le> x \<and> x < p + nmemb * sz then 0 else m x) \<and> fst (malloc mapped (nmemb * sz) st) = p"
proof -
  have "sz \<noteq> 0 \<Longrightarrow> (two64 - 1) div sz < nmemb \<longleftrightarrow> two64 - 1 < nmemb * sz" by (rule div_less_iff_less_mult) simp
  then have g: "(sz \<noteq> 0 \<and> (two64 - 1) div sz < nmemb) \<longleftrightarrow> two64 \<le> nmemb * sz" by (cases "sz = 0") auto
  show ?thesis using assms unfolding calloc_def g by (auto simp: Let_def memset_fill split: prod.splits if_splits)
qed

end
