(* ===== verification/Vmm.thy ===== *)
theory Vmm
  imports Pmm
begin

text \<open>
  Page tables, \<^verbatim>\<open>kernel/arch/x86_64/mm/vmm.c\<close>: the four-level walk, mapping, unmapping and querying
  of single pages, and the release of a table tree.

  Page-table frames are a store from physical addresses to the 512 entries of a table, next to the
  page allocator of \<open>Pmm\<close>; entries are 64-bit words.  A space is its root table and the flag of the
  kernel space; a null space is \<open>None\<close>.  TLB invalidation and the load of CR3 have no counterpart.

  \<open>node\<close> is the table a path of indices leads to from a root.  The invariant \<open>vm_inv\<close> is about all
  the roots in use: their tables are allocated pages, two paths lead to the same table only inside the
  shared subtree of entry 0, and that entry is the same for every root.
\<close>

section \<open>Entries and flags\<close>

abbreviation PTE_PRESENT :: u64 where "PTE_PRESENT \<equiv> 1"
abbreviation PTE_WRITE :: u64 where "PTE_WRITE \<equiv> 2"
abbreviation PTE_USER :: u64 where "PTE_USER \<equiv> 4"
abbreviation PTE_PWT :: u64 where "PTE_PWT \<equiv> 8"
abbreviation PTE_PCD :: u64 where "PTE_PCD \<equiv> 16"
abbreviation PTE_HUGE :: u64 where "PTE_HUGE \<equiv> 128"
abbreviation PTE_ADDR_MASK :: u64 where "PTE_ADDR_MASK \<equiv> 0x000FFFFFFFFFF000"
abbreviation VM_PRESENT :: u32 where "VM_PRESENT \<equiv> 1"
abbreviation VM_WRITE :: u32 where "VM_WRITE \<equiv> 2"
abbreviation VM_USER :: u32 where "VM_USER \<equiv> 4"
abbreviation VM_NOCACHE :: u32 where "VM_NOCACHE \<equiv> 8"
abbreviation KERNEL_VA_BASE :: nat where "KERNEL_VA_BASE \<equiv> 0x40000000"
abbreviation USER_VA_BASE :: nat where "USER_VA_BASE \<equiv> 0x8000000000"

record vmm_space =
  sp_pml4 :: paddr
  sp_refcount :: nat
  sp_is_kernel :: bool

record vm =
  frames :: "paddr \<Rightarrow> nat \<Rightarrow> u64"
  vm_pmm :: pmm

definition idx_pml4 :: "vaddr \<Rightarrow> nat" where "idx_pml4 va = va div 2 ^ 39 mod 512"
definition idx_pdpt :: "vaddr \<Rightarrow> nat" where "idx_pdpt va = va div 2 ^ 30 mod 512"
definition idx_pd :: "vaddr \<Rightarrow> nat" where "idx_pd va = va div 2 ^ 21 mod 512"
definition idx_pt :: "vaddr \<Rightarrow> nat" where "idx_pt va = va div 2 ^ 12 mod 512"

definition flags_to_pte :: "u32 \<Rightarrow> u64" where
  "flags_to_pte f =
    (let r = 0;
       r = (if f AND VM_PRESENT \<noteq> 0 then r OR PTE_PRESENT else r);
       r = (if f AND VM_WRITE \<noteq> 0 then r OR PTE_WRITE else r);
       r = (if f AND VM_USER \<noteq> 0 then r OR PTE_USER else r) in
     if f AND VM_NOCACHE \<noteq> 0 then r OR (PTE_PWT OR PTE_PCD) else r)"

definition pte_to_flags :: "u64 \<Rightarrow> u32" where
  "pte_to_flags e =
    (let f = 0;
       f = (if e AND PTE_PRESENT \<noteq> 0 then f OR VM_PRESENT else f);
       f = (if e AND PTE_WRITE \<noteq> 0 then f OR VM_WRITE else f);
       f = (if e AND PTE_USER \<noteq> 0 then f OR VM_USER else f) in
     if e AND (PTE_PWT OR PTE_PCD) \<noteq> 0 then f OR VM_NOCACHE else f)"

definition pte_addr :: "u64 \<Rightarrow> paddr" where
  "pte_addr e = unat (e AND PTE_ADDR_MASK)"

section \<open>Tables\<close>

definition pt_write :: "paddr \<Rightarrow> nat \<Rightarrow> u64 \<Rightarrow> vm \<Rightarrow> vm" where
  "pt_write t i e s = s\<lparr>frames := (frames s)(t := (frames s t)(i := e))\<rparr>"

definition zero_page :: "paddr \<Rightarrow> vm \<Rightarrow> vm" where
  "zero_page p s = fold (\<lambda>i s. pt_write p i 0 s) [0..<512] s"

definition vm_alloc_page :: "vm \<Rightarrow> paddr \<times> vm" where
  "vm_alloc_page s = (let (p, m) = pmm_alloc_page (vm_pmm s) in (p, s\<lparr>vm_pmm := m\<rparr>))"

definition vm_free_page :: "paddr \<Rightarrow> vm \<Rightarrow> vm" where
  "vm_free_page p s = s\<lparr>vm_pmm := snd (pmm_free_page p (vm_pmm s))\<rparr>"

definition descend_or_alloc :: "paddr \<Rightarrow> nat \<Rightarrow> bool \<Rightarrow> vm \<Rightarrow> paddr \<times> vm" where
  "descend_or_alloc table idx child_user s =
    (let e = frames s table idx in
     if e AND PTE_PRESENT \<noteq> 0 then (if e AND PTE_HUGE \<noteq> 0 then (0, s) else (pte_addr e, s))
     else let (np, s) = vm_alloc_page s in
       if np = 0 then (0, s)
       else let s = zero_page np s;
           flags = PTE_PRESENT OR PTE_WRITE;
           flags = (if child_user then flags OR PTE_USER else flags) in
         (np, pt_write table idx (of_nat np OR flags) s))"

definition walk_leaf :: "vmm_space option \<Rightarrow> vaddr \<Rightarrow> vm \<Rightarrow> paddr" where
  "walk_leaf space va s =
    (case space of None \<Rightarrow> 0 | Some sp \<Rightarrow>
      let e = frames s (sp_pml4 sp) (idx_pml4 va) in
      if e AND PTE_PRESENT = 0 \<or> e AND PTE_HUGE \<noteq> 0 then 0
      else let e = frames s (pte_addr e) (idx_pdpt va) in
      if e AND PTE_PRESENT = 0 \<or> e AND PTE_HUGE \<noteq> 0 then 0
      else let e = frames s (pte_addr e) (idx_pd va) in
      if e AND PTE_PRESENT = 0 \<or> e AND PTE_HUGE \<noteq> 0 then 0
      else pte_addr e)"

definition lower_bound :: "vmm_space \<Rightarrow> vaddr" where
  "lower_bound sp = (if sp_is_kernel sp then KERNEL_VA_BASE else USER_VA_BASE)"

definition vmm_map :: "vmm_space option \<Rightarrow> vaddr \<Rightarrow> paddr \<Rightarrow> u32 \<Rightarrow> vm \<Rightarrow> bool \<times> vm" where
  "vmm_map space va pa flags s =
    (case space of None \<Rightarrow> (False, s) | Some sp \<Rightarrow>
      if va mod PAGE_SIZE \<noteq> 0 then (False, s)
      else if pa mod PAGE_SIZE \<noteq> 0 then (False, s)
      else if va < lower_bound sp then (False, s)
      else if flags AND VM_PRESENT = 0 then (False, s)
      else let user = (flags AND VM_USER \<noteq> 0);
          (pdpt, s) = descend_or_alloc (sp_pml4 sp) (idx_pml4 va) user s in
        if pdpt = 0 then (False, s)
        else let (pd, s) = descend_or_alloc pdpt (idx_pdpt va) user s in
        if pd = 0 then (False, s)
        else let (pt, s) = descend_or_alloc pd (idx_pd va) user s in
        if pt = 0 then (False, s)
        else let i = idx_pt va in
        if frames s pt i AND PTE_PRESENT \<noteq> 0 then (False, s)
        else (True, pt_write pt i ((of_nat pa AND PTE_ADDR_MASK) OR flags_to_pte flags) s))"

definition vmm_unmap :: "vmm_space option \<Rightarrow> vaddr \<Rightarrow> vm \<Rightarrow> bool \<times> vm" where
  "vmm_unmap space va s =
    (case space of None \<Rightarrow> (False, s) | Some sp \<Rightarrow>
      if va mod PAGE_SIZE \<noteq> 0 then (False, s)
      else if va < lower_bound sp then (False, s)
      else let pt = walk_leaf space va s in
        if pt = 0 then (False, s)
        else let i = idx_pt va in
        if frames s pt i AND PTE_PRESENT = 0 then (False, s)
        else (True, pt_write pt i 0 s))"

definition vmm_query :: "vmm_space option \<Rightarrow> vaddr \<Rightarrow> vm \<Rightarrow> (paddr \<times> u32) option" where
  "vmm_query space va s =
    (case space of None \<Rightarrow> None | Some sp \<Rightarrow>
      if va mod PAGE_SIZE \<noteq> 0 then None
      else let pt = walk_leaf space va s in
        if pt = 0 then None
        else let e = frames s pt (idx_pt va) in
        if e AND PTE_PRESENT = 0 then None
        else Some (pte_addr e, pte_to_flags e))"

section \<open>Releasing a tree\<close>

definition free_pt :: "paddr \<Rightarrow> vm \<Rightarrow> vm" where
  "free_pt pt s =
    vm_free_page pt (fold (\<lambda>i s.
      let e = frames s pt i in
      if e AND PTE_PRESENT = 0 then s
      else if e AND PTE_HUGE \<noteq> 0 then s
      else vm_free_page (pte_addr e) s) [0..<512] s)"

definition free_pd :: "paddr \<Rightarrow> vm \<Rightarrow> vm" where
  "free_pd pd s =
    vm_free_page pd (fold (\<lambda>i s.
      let e = frames s pd i in
      if e AND PTE_PRESENT = 0 then s
      else if e AND PTE_HUGE \<noteq> 0 then vm_free_page (pte_addr e) s
      else free_pt (pte_addr e) s) [0..<512] s)"

definition free_pdpt :: "paddr \<Rightarrow> vm \<Rightarrow> vm" where
  "free_pdpt pdpt s =
    vm_free_page pdpt (fold (\<lambda>i s.
      let e = frames s pdpt i in
      if e AND PTE_PRESENT = 0 then s
      else if e AND PTE_HUGE \<noteq> 0 then vm_free_page (pte_addr e) s
      else free_pd (pte_addr e) s) [0..<512] s)"

text \<open>The page-table part of \<^verbatim>\<open>destroy_space\<close>; the release of the structure is the heap's.\<close>

definition destroy_tables :: "vmm_space \<Rightarrow> vm \<Rightarrow> vm" where
  "destroy_tables sp s =
    vm_free_page (sp_pml4 sp) (fold (\<lambda>i s.
      let e = frames s (sp_pml4 sp) i in
      if e AND PTE_PRESENT = 0 then s
      else if e AND PTE_HUGE \<noteq> 0 then vm_free_page (pte_addr e) s
      else free_pdpt (pte_addr e) s) [1..<512] s)"

text \<open>The page-table part of \<^verbatim>\<open>vmm_create\<close>: the new root, or \<open>0\<close> when there is no page.\<close>

definition create_root :: "paddr \<Rightarrow> vm \<Rightarrow> paddr \<times> vm" where
  "create_root kpml4 s =
    (let (np, s) = vm_alloc_page s in
     if np = 0 then (0, s)
     else let s = zero_page np s in
       (np, fold (\<lambda>i s. pt_write np i (frames s kpml4 i) s) [0..<512] s))"

section \<open>Entries as bits\<close>

lemma pte_bits: "e AND PTE_PRESENT \<noteq> 0 \<longleftrightarrow> bit e 0" "e AND PTE_WRITE \<noteq> 0 \<longleftrightarrow> bit e 1" "e AND PTE_USER \<noteq> 0 \<longleftrightarrow> bit e 2"
    "e AND PTE_PWT \<noteq> 0 \<longleftrightarrow> bit e 3" "e AND PTE_PCD \<noteq> 0 \<longleftrightarrow> bit e 4" "e AND PTE_HUGE \<noteq> 0 \<longleftrightarrow> bit e 7"
  for e :: u64
  using bit_iff_and_push_bit_not_eq_0 [of e 0] bit_iff_and_push_bit_not_eq_0 [of e 1] bit_iff_and_push_bit_not_eq_0 [of e 2]
    bit_iff_and_push_bit_not_eq_0 [of e 3] bit_iff_and_push_bit_not_eq_0 [of e 4] bit_iff_and_push_bit_not_eq_0 [of e 7]
  by (simp_all add: push_bit_eq_mult)

lemma vm_bits: "f AND VM_PRESENT \<noteq> 0 \<longleftrightarrow> bit f 0" "f AND VM_WRITE \<noteq> 0 \<longleftrightarrow> bit f 1" "f AND VM_USER \<noteq> 0 \<longleftrightarrow> bit f 2"
    "f AND VM_NOCACHE \<noteq> 0 \<longleftrightarrow> bit f 3"
  for f :: u32
  using bit_iff_and_push_bit_not_eq_0 [of f 0] bit_iff_and_push_bit_not_eq_0 [of f 1] bit_iff_and_push_bit_not_eq_0 [of f 2]
    bit_iff_and_push_bit_not_eq_0 [of f 3]
  by (simp_all add: push_bit_eq_mult)

lemma addr_mask: "PTE_ADDR_MASK = push_bit 12 (mask 40)"
  by (simp add: push_bit_eq_mult mask_eq_exp_minus_1)

lemma page_bits: "PAGE_SIZE dvd a \<Longrightarrow> i < 12 \<Longrightarrow> \<not> bit (of_nat a :: u64) i"
proof
  assume a: "PAGE_SIZE dvd a" "i < 12" "bit (of_nat a :: u64) i"
  then obtain k where "a = 2 ^ 12 * k" by auto
  then have "a = push_bit 12 k" by (simp add: push_bit_eq_mult mult.commute)
  then show False using a(2,3) by (simp add: bit_simps)
qed

lemma high_bits: "a < 2 ^ 52 \<Longrightarrow> 52 \<le> i \<Longrightarrow> \<not> bit (of_nat a :: u64) i"
proof
  assume a: "a < 2 ^ 52" "52 \<le> i" "bit (of_nat a :: u64) i"
  have "take_bit 52 a = a" using a(1) by (simp add: take_bit_nat_eq_self)
  then have "\<not> bit a i" using a(2) by (metis bit_take_bit_iff not_le)
  then show False using a(3) by (simp add: bit_simps)
qed

lemma of_nat_mask: "PAGE_SIZE dvd a \<Longrightarrow> a < 2 ^ 52 \<Longrightarrow> (of_nat a :: u64) AND PTE_ADDR_MASK = of_nat a"
proof (rule bit_eqI)
  fix i assume a: "PAGE_SIZE dvd a" "a < 2 ^ 52"
  show "bit ((of_nat a :: u64) AND PTE_ADDR_MASK) i = bit (of_nat a :: u64) i"
    using page_bits [OF a(1), of i] high_bits [OF a(2), of i] unfolding addr_mask
    by (cases "i < 12"; cases "52 \<le> i") (auto simp: bit_simps simp del: of_nat_numeral)
qed

lemma pte_addr_entry:
  assumes "PAGE_SIZE dvd a" "a < 2 ^ 52" "\<And>i. 12 \<le> i \<Longrightarrow> \<not> bit f i"
  shows "pte_addr (of_nat a OR f) = a"
proof -
  have "f AND PTE_ADDR_MASK = 0" unfolding addr_mask using assms(3) by (intro bit_eqI) (auto simp: bit_simps)
  then have "(of_nat a OR f) AND PTE_ADDR_MASK = of_nat a"
    using of_nat_mask [OF assms(1,2)] by (simp add: bit.conj_disj_distrib2)
  then show ?thesis using assms(2) by (simp add: pte_addr_def unat_of_nat)
qed

lemma pte_addr_dvd: "PAGE_SIZE dvd pte_addr e" "pte_addr e < 2 ^ 52"
proof -
  have e: "e AND PTE_ADDR_MASK = push_bit 12 (drop_bit 12 e AND mask 40)"
    unfolding addr_mask by (rule bit_eqI) (auto simp: bit_simps)
  have s: "unat (drop_bit 12 e AND mask 40) < 2 ^ 40"
    using take_bit_nat_less_exp [of 40 "unat (drop_bit 12 e)"] by (simp add: take_bit_eq_mask [symmetric] unsigned_take_bit_eq)
  then have u: "pte_addr e = 4096 * unat (drop_bit 12 e AND mask 40)"
    unfolding pte_addr_def e unsigned_push_bit_eq by (simp add: push_bit_eq_mult take_bit_nat_eq_self mult.commute)
  show "PAGE_SIZE dvd pte_addr e" unfolding u by simp
  show "pte_addr e < 2 ^ 52" unfolding u using s by simp
qed

lemma bit_one_at: "bit (push_bit k 1 :: 'a :: len word) i \<longleftrightarrow> i = k \<and> k < LENGTH('a)"
  by (auto simp: bit_simps)

lemma pte_consts: "PTE_WRITE = push_bit 1 1" "PTE_USER = push_bit 2 1" "PTE_PWT = push_bit 3 1" "PTE_PCD = push_bit 4 1"
    "VM_WRITE = push_bit 1 1" "VM_USER = push_bit 2 1" "VM_NOCACHE = push_bit 3 1"
  by (simp_all add: push_bit_eq_mult)

lemma pte_const_bits: "bit PTE_PRESENT i = (i = 0)" "bit PTE_WRITE i = (i = 1)" "bit PTE_USER i = (i = 2)" "bit PTE_PWT i = (i = 3)" "bit PTE_PCD i = (i = 4)"
  by (rule bit_1_iff) (simp_all only: pte_consts bit_one_at, simp_all)

lemma vm_const_bits: "bit VM_PRESENT i = (i = 0)" "bit VM_WRITE i = (i = 1)" "bit VM_USER i = (i = 2)" "bit VM_NOCACHE i = (i = 3)"
  by (rule bit_1_iff) (simp_all only: pte_consts bit_one_at, simp_all)

lemma flags_bits:
  "bit (flags_to_pte f) i \<longleftrightarrow> (i = 0 \<and> bit f 0) \<or> (i = 1 \<and> bit f 1) \<or> (i = 2 \<and> bit f 2) \<or> (i = 3 \<and> bit f 3) \<or> (i = 4 \<and> bit f 3)"
proof -
  have e: "flags_to_pte f = (if bit f 0 then PTE_PRESENT else 0) OR (if bit f 1 then PTE_WRITE else 0) OR
      (if bit f 2 then PTE_USER else 0) OR (if bit f 3 then PTE_PWT OR PTE_PCD else 0)"
    unfolding flags_to_pte_def vm_bits Let_def
    by (cases "bit f 0"; cases "bit f 1"; cases "bit f 2"; cases "bit f 3") (simp_all only: if_True if_False or.assoc or.left_neutral or.right_neutral)
  have c: "bit (if b then w else (0 :: u64)) i = (b \<and> bit w i)" for b w by simp
  show ?thesis unfolding e bit_or_iff c pte_const_bits by blast
qed

lemma pte_to_flags_entry:
  assumes "PAGE_SIZE dvd a"
  shows "pte_to_flags (of_nat a OR flags_to_pte f) = f AND 15"
proof -
  let ?e = "of_nat a OR flags_to_pte f"
  have z: "i < 12 \<Longrightarrow> bit ?e i = bit (flags_to_pte f) i" for i using page_bits [OF assms, of i] by (simp add: bit_or_iff)
  have pc: "?e AND (PTE_PWT OR PTE_PCD) \<noteq> 0 \<longleftrightarrow> bit ?e 3 \<or> bit ?e 4"
    unfolding bit.conj_disj_distrib using pte_bits(4,5) [of ?e] by (metis or.right_neutral or_eq_0_iff)
  have b: "bit ?e 0 = bit f 0" "bit ?e 1 = bit f 1" "bit ?e 2 = bit f 2" "(bit ?e 3 \<or> bit ?e 4) = bit f 3"
    by (simp_all add: z flags_bits)
  have e: "pte_to_flags ?e = (if bit f 0 then VM_PRESENT else 0) OR (if bit f 1 then VM_WRITE else 0) OR
      (if bit f 2 then VM_USER else 0) OR (if bit f 3 then VM_NOCACHE else 0)"
    unfolding pte_to_flags_def pc pte_bits Let_def b
    by (cases "bit f 0"; cases "bit f 1"; cases "bit f 2"; cases "bit f 3") (simp_all only: if_True if_False or.assoc or.left_neutral or.right_neutral)
  have m: "(15 :: u32) = mask 4" by (simp add: mask_eq_exp_minus_1)
  have c: "bit (if x then w else (0 :: u32)) i = (x \<and> bit w i)" for x w i by simp
  have l: "i < 4 \<longleftrightarrow> i = 0 \<or> i = 1 \<or> i = 2 \<or> i = 3" for i :: nat by auto
  show ?thesis
    unfolding e m by (rule bit_eqI) (unfold bit_or_iff bit_and_iff bit_mask_iff c vm_const_bits l, auto)
qed

section \<open>Virtual addresses as paths\<close>

definition vpath :: "nat list \<Rightarrow> bool" where
  "vpath p \<longleftrightarrow> length p \<le> 3 \<and> (\<forall>i \<in> set p. i < 512)"

definition va_path :: "vaddr \<Rightarrow> nat list" where
  "va_path va = [idx_pml4 va, idx_pdpt va, idx_pd va]"

lemma vpath_va [simp]: "vpath (va_path va)" and idx_pt_less [simp]: "idx_pt va < 512"
  by (auto simp: vpath_def va_path_def idx_pml4_def idx_pdpt_def idx_pd_def idx_pt_def)

lemma va_split:
  "va < 2 ^ 48 \<Longrightarrow> va = (((idx_pml4 va * 512 + idx_pdpt va) * 512 + idx_pd va) * 512 + idx_pt va) * 4096 + va mod 4096"
proof -
  assume v: "va < 2 ^ 48"
  define a where "a = va div 4096"
  have d: "va div 2 ^ 12 = a" "va div 2 ^ 21 = a div 512" "va div 2 ^ 30 = a div 512 div 512" "va div 2 ^ 39 = a div 512 div 512 div 512"
    by (simp_all add: a_def flip: div_mult2_eq)
  have "a div 512 div 512 div 512 < 512" using v by (simp add: a_def div_mult2_eq [symmetric] less_mult_imp_div_less)
  then have "((a div 512 div 512 div 512 mod 512 * 512 + a div 512 div 512 mod 512) * 512 + a div 512 mod 512) * 512 + a mod 512 = a"
    by (simp add: mod_less div_mult_mod_eq)
  moreover have "va = a * 4096 + va mod 4096" by (simp add: a_def)
  ultimately show ?thesis unfolding idx_pml4_def idx_pdpt_def idx_pd_def idx_pt_def d by simp
qed

lemma va_eqI:
  "va < 2 ^ 48 \<Longrightarrow> va' < 2 ^ 48 \<Longrightarrow> va mod PAGE_SIZE = 0 \<Longrightarrow> va' mod PAGE_SIZE = 0 \<Longrightarrow>
    va_path va' = va_path va \<Longrightarrow> idx_pt va' = idx_pt va \<Longrightarrow> va' = va"
  using va_split [of va] va_split [of va'] by (simp add: va_path_def)

section \<open>Nodes\<close>

definition child :: "vm \<Rightarrow> nat \<Rightarrow> paddr \<Rightarrow> paddr option" where
  "child s i t = (let e = frames s t i in if bit e 0 \<and> \<not> bit e 7 then Some (pte_addr e) else None)"

definition node :: "vm \<Rightarrow> paddr \<Rightarrow> nat list \<Rightarrow> paddr option" where
  "node s r p = fold (\<lambda>i t. Option.bind t (child s i)) p (Some r)"

lemma node_Nil [simp]: "node s r [] = Some r"
  by (simp add: node_def)

lemma node_snoc: "node s r (p @ [i]) = Option.bind (node s r p) (child s i)"
  by (simp add: node_def)

lemma fold_bind_None: "fold (\<lambda>i t. Option.bind t (child s i)) p None = None"
  by (induction p) auto

lemma node_Cons: "node s r (i # p) = (case child s i r of None \<Rightarrow> None | Some t \<Rightarrow> node s t p)"
  by (auto simp: node_def fold_bind_None split: option.splits)

lemma walk_leaf_node:
  "walk_leaf (Some sp) va s = (case node s (sp_pml4 sp) (va_path va) of None \<Rightarrow> 0 | Some t \<Rightarrow> t)"
  unfolding walk_leaf_def va_path_def node_Cons child_def
  using pte_bits(1,6) by (auto simp: Let_def)

text \<open>The roots \<open>r\<close> and \<open>r'\<close> see the same table along \<open>p\<close>.\<close>

definition sees :: "paddr \<Rightarrow> nat list \<Rightarrow> paddr \<Rightarrow> bool" where
  "sees r p r' \<longleftrightarrow> r' = r \<or> p \<noteq> [] \<and> hd p = 0"

definition vm_inv :: "paddr set \<Rightarrow> vm \<Rightarrow> bool" where
  "vm_inv R s \<longleftrightarrow> pmm_ok (vm_pmm s) \<and>
    (\<forall>r \<in> R. \<forall>p. vpath p \<longrightarrow> (\<forall>a. node s r p = Some a \<longrightarrow> a \<noteq> 0 \<and> a \<notin> free_addrs (vm_pmm s))) \<and>
    (\<forall>r \<in> R. \<forall>r' \<in> R. \<forall>p q a. vpath p \<and> vpath q \<and> node s r p = Some a \<and> node s r' q = Some a \<longrightarrow> q = p \<and> sees r p r') \<and>
    (\<forall>r \<in> R. \<forall>r' \<in> R. frames s r 0 = frames s r' 0 \<and> child s 0 r \<noteq> None)"

lemma vm_invD:
  assumes "vm_inv R s"
  shows "pmm_ok (vm_pmm s)"
    and "r \<in> R \<Longrightarrow> vpath p \<Longrightarrow> node s r p = Some a \<Longrightarrow> a \<noteq> 0 \<and> a \<notin> free_addrs (vm_pmm s)"
    and "r \<in> R \<Longrightarrow> r' \<in> R \<Longrightarrow> vpath p \<Longrightarrow> vpath q \<Longrightarrow> node s r p = Some a \<Longrightarrow> node s r' q = Some a \<Longrightarrow> q = p \<and> sees r p r'"
    and "r \<in> R \<Longrightarrow> r' \<in> R \<Longrightarrow> frames s r 0 = frames s r' 0 \<and> child s 0 r \<noteq> None"
  using assms unfolding vm_inv_def by blast+

lemma sees_node:
  assumes "vm_inv R s" "r \<in> R" "r' \<in> R" "sees r p r'"
  shows "node s r' p = node s r p"
proof (cases "r' = r")
  case False
  then obtain q where "p = 0 # q" using assms(4) by (cases p) (auto simp: sees_def)
  then show ?thesis using vm_invD(4) [OF assms(1-3)] by (simp add: node_Cons child_def)
qed simp

text \<open>What a root shows at a page.\<close>

definition view :: "vm \<Rightarrow> paddr \<Rightarrow> vaddr \<Rightarrow> (paddr \<times> u32) option" where
  "view s r va = Option.bind (node s r (va_path va)) (\<lambda>t.
    let e = frames s t (idx_pt va) in if bit e 0 then Some (pte_addr e, pte_to_flags e) else None)"

lemma vmm_query_view:
  assumes "vm_inv R s" "sp_pml4 sp \<in> R" "va mod PAGE_SIZE = 0"
  shows "vmm_query (Some sp) va s = view s (sp_pml4 sp) va"
  unfolding vmm_query_def walk_leaf_node view_def using assms(3) vm_invD(2) [OF assms(1,2) vpath_va] pte_bits(1)
  by (cases "node s (sp_pml4 sp) (va_path va)") (auto simp: Let_def)

section \<open>Writing entries\<close>

lemma pt_write_fields [simp]:
  "frames (pt_write t i e s) = (frames s)(t := (frames s t)(i := e))" "vm_pmm (pt_write t i e s) = vm_pmm s"
  by (simp_all add: pt_write_def)

lemma zero_page_fields:
  "frames (zero_page p s) = (frames s)(p := (\<lambda>i. if i < 512 then 0 else frames s p i))" "vm_pmm (zero_page p s) = vm_pmm s"
proof -
  have "frames (fold (\<lambda>i s. pt_write p i 0 s) [0..<n] s) = (frames s)(p := (\<lambda>i. if i < n then 0 else frames s p i)) \<and>
      vm_pmm (fold (\<lambda>i s. pt_write p i 0 s) [0..<n] s) = vm_pmm s" for n
    by (induction n) (auto simp: fun_eq_iff)
  then show "frames (zero_page p s) = (frames s)(p := (\<lambda>i. if i < 512 then 0 else frames s p i))" "vm_pmm (zero_page p s) = vm_pmm s"
    unfolding zero_page_def by blast+
qed

lemma vpath_snoc: "vpath (p @ [i]) \<longleftrightarrow> vpath p \<and> length p \<le> 2 \<and> i < 512"
  by (auto simp: vpath_def)

text \<open>A write to an entry of a leaf table changes no node.\<close>

lemma node_leaf_write:
  assumes "vm_inv R s" "r \<in> R" "vpath p" "length p = 3" "node s r p = Some t" "r' \<in> R"
  shows "vpath q \<Longrightarrow> node (pt_write t i e s) r' q = node s r' q"
proof (induction q rule: rev_induct)
  case (snoc j q)
  then have q: "vpath q" "length q \<le> 2" by (auto simp: vpath_snoc)
  have "node s r' q \<noteq> Some t" using vm_invD(3) [OF assms(1,2,6,3) q(1) assms(5)] assms(4) q(2) by auto
  then have "Option.bind (node s r' q) (child (pt_write t i e s) j) = Option.bind (node s r' q) (child s j)"
    by (cases "node s r' q") (auto simp: child_def)
  then show ?case using snoc.IH [OF q(1)] by (simp add: node_snoc)
qed simp

lemma vm_invI:
  assumes "pmm_ok (vm_pmm s)"
    and "\<And>r p a. r \<in> R \<Longrightarrow> vpath p \<Longrightarrow> node s r p = Some a \<Longrightarrow> a \<noteq> 0 \<and> a \<notin> free_addrs (vm_pmm s)"
    and "\<And>r r' p q a. r \<in> R \<Longrightarrow> r' \<in> R \<Longrightarrow> vpath p \<Longrightarrow> vpath q \<Longrightarrow> node s r p = Some a \<Longrightarrow> node s r' q = Some a \<Longrightarrow> q = p \<and> sees r p r'"
    and "\<And>r r'. r \<in> R \<Longrightarrow> r' \<in> R \<Longrightarrow> frames s r 0 = frames s r' 0 \<and> child s 0 r \<noteq> None"
  shows "vm_inv R s"
  unfolding vm_inv_def using assms by blast

lemma vm_inv_leaf_write:
  assumes "vm_inv R s" "r \<in> R" "vpath p" "length p = 3" "node s r p = Some t"
  shows "vm_inv R (pt_write t i e s)"
proof -
  note N = node_leaf_write [OF assms]
  have "r' \<noteq> t" if "r' \<in> R" for r' using vm_invD(3) [OF assms(1,2) that assms(3) _ assms(5), of "[]"] assms(4) by (auto simp: vpath_def)
  then have F: "frames (pt_write t i e s) r' = frames s r'" if "r' \<in> R" for r' using that by auto
  show ?thesis
  proof (rule vm_invI)
    show "frames (pt_write t i e s) r 0 = frames (pt_write t i e s) r' 0 \<and> child (pt_write t i e s) 0 r \<noteq> None"
      if "r \<in> R" "r' \<in> R" for r r'
      using vm_invD(4) [OF assms(1) that] unfolding F [OF that(1)] F [OF that(2)] child_def Let_def .
  qed (use vm_invD(1-3) [OF assms(1)] N in auto)
qed

lemma view_leaf_write:
  assumes "vm_inv R s" "r \<in> R" "node s r (va_path va) = Some t" "r' \<in> R"
    and "va < 2 ^ 48" "va mod PAGE_SIZE = 0" "va' < 2 ^ 48" "va' mod PAGE_SIZE = 0"
  shows "view (pt_write t (idx_pt va) e s) r' va' =
    (if va' = va \<and> sees r (va_path va) r' then (if bit e 0 then Some (pte_addr e, pte_to_flags e) else None) else view s r' va')"
proof -
  have l: "length (va_path va) = 3" by (simp add: va_path_def)
  have N: "node (pt_write t (idx_pt va) e s) r' (va_path va') = node s r' (va_path va')"
    using node_leaf_write [OF assms(1,2) vpath_va l assms(3,4) vpath_va] .
  show ?thesis
  proof (cases "node s r' (va_path va') = Some t \<and> idx_pt va' = idx_pt va")
    case True
    then have "va_path va' = va_path va \<and> sees r (va_path va) r'"
      using vm_invD(3) [OF assms(1,2,4) vpath_va vpath_va assms(3)] by blast
    then show ?thesis using N True va_eqI [OF assms(5,7,6,8)] by (simp add: view_def Let_def)
  next
    case False
    then have n: "\<not> (va' = va \<and> sees r (va_path va) r')" using sees_node [OF assms(1,2,4)] assms(3) by auto
    have "frames (pt_write t (idx_pt va) e s) x (idx_pt va') = frames s x (idx_pt va')" if "node s r' (va_path va') = Some x" for x
      using False that by auto
    then have "view (pt_write t (idx_pt va) e s) r' va' = view s r' va'"
      using N unfolding view_def by (cases "node s r' (va_path va')") simp_all
    then show ?thesis unfolding if_not_P [OF n] .
  qed
qed

text \<open>Hanging an empty table into an absent entry.\<close>

definition hang :: "paddr \<Rightarrow> nat \<Rightarrow> paddr \<Rightarrow> u64 \<Rightarrow> pmm \<Rightarrow> vm \<Rightarrow> vm" where
  "hang t i np f m s = pt_write t i (of_nat np OR f) (zero_page np (s\<lparr>vm_pmm := m\<rparr>))"

lemma hang_frames:
  "frames (hang t i np f m s) x j =
    (if x = t \<and> j = i then of_nat np OR f else if x = np \<and> j < 512 then 0 else frames s x j)"
  by (simp add: hang_def zero_page_fields)

lemma vm_pmm_hang [simp]: "vm_pmm (hang t i np f m s) = m"
  by (simp add: hang_def zero_page_fields)

lemma free_addrs_bound: "pmm_ok m \<Longrightarrow> a \<in> free_addrs m \<Longrightarrow> a < 2 ^ 52"
proof -
  assume a: "pmm_ok m" "a \<in> free_addrs m"
  then have p: "max_paddr m = total_pages m * PAGE_SIZE" "max_paddr m \<le> PMM_MAX_TRACKED_BYTES"
    by (auto simp: pmm_ok_def pmm_inv_def pmm_shape_def)
  have "a div PAGE_SIZE < total_pages m" "a = a div PAGE_SIZE * PAGE_SIZE" using a(2) by (auto simp: free_addrs_iff pmm_free_set_def)
  then have "a < total_pages m * PAGE_SIZE" by (metis mult_less_cancel2 zero_less_numeral)
  then show ?thesis using p by simp
qed

lemma node_hang:
  assumes inv: "vm_inv R s" and r: "r \<in> R" "vpath (p @ [i])" "node s r p = Some t" "\<not> bit (frames s t i) 0"
    and np: "np \<in> free_addrs (vm_pmm s)" "\<forall>j \<ge> 3. \<not> bit f j" "bit f 0" and r': "r' \<in> R"
  shows "vpath q \<Longrightarrow> node (hang t i np f m s) r' q = (if q = p @ [i] \<and> sees r (p @ [i]) r' then Some np else node s r' q)"
proof (induction q rule: rev_induct)
  case Nil
  then show ?case by simp
next
  case (snoc j q)
  let ?s = "hang t i np f m s"
  have vq: "vpath q" "length q \<le> 2" "j < 512" and vp: "vpath p" "length p \<le> 2" "i < 512" using snoc.prems r(2) by (auto simp: vpath_snoc)
  have ok: "pmm_ok (vm_pmm s)" using vm_invD(1) [OF inv] .
  have al: "PAGE_SIZE dvd np" "np < 2 ^ 52" using pmm.free_aligned [OF ok np(1)] free_addrs_bound [OF ok np(1)] by auto
  have e7: "\<not> bit (of_nat np OR f) 7" using np(2) [rule_format, of 7] page_bits [OF al(1), of 7] by (simp add: bit_or_iff)
  have ad: "pte_addr (of_nat np OR f) = np" using pte_addr_entry [OF al] np(2) by auto
  have new: "child ?s i t = Some np" using e7 ad np(3) by (simp add: child_def hang_frames bit_or_iff)
  have old: "child s i t = None" using r(4) by (simp add: child_def)
  have old': "sees r (p @ [i]) r' \<Longrightarrow> node s r' (p @ [i]) = None"
    using sees_node [OF inv r(1) r', of "p @ [i]"] old r(3) by (simp add: node_snoc)
  have tnp: "t \<noteq> np" using vm_invD(2) [OF inv r(1) vp(1) r(3)] np(1) by auto
  have empty: "child ?s j np = None" using tnp vq(3) by (simp add: child_def hang_frames)
  show ?case
  proof (cases "q = p @ [i] \<and> sees r (p @ [i]) r'")
    case True
    then have "node ?s r' q = Some np" "node s r' q = None" "q @ [j] \<noteq> p @ [i]" using snoc.IH [OF vq(1)] old' by auto
    then show ?thesis using empty unfolding node_snoc by auto
  next
    case False
    then have IH: "node ?s r' q = node s r' q" using snoc.IH [OF vq(1)] by auto
    show ?thesis
    proof (cases "node s r' q")
      case None
      have "\<not> (q @ [j] = p @ [i] \<and> sees r (p @ [i]) r')"
      proof
        assume a: "q @ [j] = p @ [i] \<and> sees r (p @ [i]) r'"
        then have qp: "q = p" "j = i" by auto
        show False
        proof (cases "r' = r")
          case False
          show False
          proof (cases p)
            case Nil
            then show False using None qp by simp
          next
            case (Cons x xs)
            then have "sees r p r'" using a by (auto simp: sees_def)
            then show False using sees_node [OF inv r(1) r'] None qp r(3) by simp
          qed
        qed (use None qp r(3) in simp)
      qed
      then show ?thesis using IH None by (simp add: node_snoc)
    next
      case (Some x)
      have xnp: "x \<noteq> np" using vm_invD(2) [OF inv r' vq(1) Some] np(1) by auto
      show ?thesis
      proof (cases "x = t \<and> j = i")
        case True
        then have "q = p" "sees r p r'" using vm_invD(3) [OF inv r(1) r' vp(1) vq(1) r(3)] Some by auto
        moreover have "sees r (p @ [i]) r'" using \<open>sees r p r'\<close> by (auto simp: sees_def)
        ultimately show ?thesis using IH Some True new by (simp add: node_snoc)
      next
        case f: False
        then have c: "child ?s j x = child s j x" using xnp by (auto simp: child_def hang_frames)
        have "\<not> (q @ [j] = p @ [i] \<and> sees r (p @ [i]) r')"
        proof
          assume a: "q @ [j] = p @ [i] \<and> sees r (p @ [i]) r'"
          then have qp: "q = p" "j = i" by auto
          have "sees r p r' \<or> p = [] \<and> i = 0" using a by (cases p) (auto simp: sees_def)
          then consider "sees r p r'" | "p = []" "i = 0" by blast
          then show False
          proof cases
            case 1
            then show False using sees_node [OF inv r(1) r' 1] Some qp f r(3) by simp
          next
            case 2
            then show False using vm_invD(4) [OF inv r(1) r(1)] r(3,4) by (auto simp: child_def Let_def split: if_splits)
          qed
        qed
        then show ?thesis using IH Some c by (auto simp: node_snoc)
      qed
    qed
  qed
qed

lemma vm_inv_hang:
  assumes inv: "vm_inv R s" and r: "r \<in> R" "vpath (p @ [i])" "node s r p = Some t" "\<not> bit (frames s t i) 0"
    and np: "np \<in> free_addrs (vm_pmm s)" "\<forall>j \<ge> 3. \<not> bit f j" "bit f 0"
    and m: "pmm_ok m" "free_addrs m = free_addrs (vm_pmm s) - {np}"
  shows "vm_inv R (hang t i np f m s)"
proof -
  note N = node_hang [OF inv r np, where m = m]
  have ok: "pmm_ok (vm_pmm s)" using vm_invD(1) [OF inv] .
  have fresh: "node s r' q \<noteq> Some np" if "r' \<in> R" "vpath q" for r' q using vm_invD(2) [OF inv that] np(1) by auto
  have vp: "vpath p" using r(2) by (simp add: vpath_snoc)
  have ti: "p = [] \<Longrightarrow> i \<noteq> 0"
    using vm_invD(4) [OF inv r(1) r(1)] r(3,4) by (cases "i = 0") (auto simp: child_def Let_def split: if_splits)
  have F: "frames (hang t i np f m s) r' 0 = frames s r' 0" if "r' \<in> R" for r'
  proof -
    have "r' \<noteq> np" using fresh [OF that, of "[]"] by (auto simp: vpath_def)
    moreover have "\<not> (r' = t \<and> i = 0)"
    proof
      assume a: "r' = t \<and> i = 0"
      then have "p = []" using vm_invD(3) [OF inv r(1) that vp _ r(3), of "[]"] by (auto simp: vpath_def)
      then show False using a ti by simp
    qed
    ultimately show ?thesis by (auto simp: hang_frames)
  qed
  show ?thesis
  proof (rule vm_invI)
    show "frames (hang t i np f m s) r1 0 = frames (hang t i np f m s) r2 0 \<and> child (hang t i np f m s) 0 r1 \<noteq> None"
      if "r1 \<in> R" "r2 \<in> R" for r1 r2
      using vm_invD(4) [OF inv that] unfolding F [OF that(1)] F [OF that(2)] child_def Let_def .
    show "a \<noteq> 0 \<and> a \<notin> free_addrs (vm_pmm (hang t i np f m s))"
      if "r' \<in> R" "vpath q" "node (hang t i np f m s) r' q = Some a" for r' q a
      using that(3) vm_invD(2) [OF inv that(1,2)] pmm.free_aligned [OF ok np(1)] m(2)
      unfolding N [OF that(1,2)] by (auto split: if_splits)
    show "q2 = q1 \<and> sees r1 q1 r2"
      if a: "r1 \<in> R" "r2 \<in> R" "vpath q1" "vpath q2" "node (hang t i np f m s) r1 q1 = Some a" "node (hang t i np f m s) r2 q2 = Some a" for r1 r2 q1 q2 a
    proof (cases "a = np")
      case True
      then have "q1 = p @ [i]" "sees r (p @ [i]) r1" "q2 = p @ [i]" "sees r (p @ [i]) r2"
        using a(5,6) fresh [OF a(1,3)] fresh [OF a(2,4)] unfolding N [OF a(1,3)] N [OF a(2,4)] by (auto split: if_splits)
      then show ?thesis by (auto simp: sees_def)
    next
      case False
      then show ?thesis using a(5,6) vm_invD(3) [OF inv a(1-4), of a] unfolding N [OF a(1,3)] N [OF a(2,4)] by (auto split: if_splits)
    qed
  qed (use m in simp)
qed

lemma view_hang:
  assumes inv: "vm_inv R s" and r: "r \<in> R" "vpath (p @ [i])" "node s r p = Some t" "\<not> bit (frames s t i) 0"
    and np: "np \<in> free_addrs (vm_pmm s)" "\<forall>j \<ge> 3. \<not> bit f j" "bit f 0" and r': "r' \<in> R"
  shows "view (hang t i np f m s) r' va = view s r' va"
proof (cases "va_path va = p @ [i] \<and> sees r (p @ [i]) r'")
  case True
  have "t \<noteq> np" using vm_invD(2) [OF inv r(1) _ r(3)] r(2) np(1) by (auto simp: vpath_snoc)
  then have "view (hang t i np f m s) r' va = None"
    using node_hang [OF inv r np r' vpath_va, of m va] True by (simp add: view_def hang_frames)
  moreover have "node s r' (va_path va) = None"
    using sees_node [OF inv r(1) r', of "p @ [i]"] True r(3,4) by (simp add: node_snoc child_def)
  ultimately show ?thesis by (simp add: view_def)
next
  case False
  then have N: "node (hang t i np f m s) r' (va_path va) = node s r' (va_path va)" using node_hang [OF inv r np r' vpath_va] by auto
  have "frames (hang t i np f m s) x (idx_pt va) = frames s x (idx_pt va)" if x: "node s r' (va_path va) = Some x" for x
  proof -
    have "x \<noteq> np" using vm_invD(2) [OF inv r' vpath_va x] np(1) by auto
    moreover have "x \<noteq> t"
    proof
      assume "x = t"
      then have "va_path va = p" using vm_invD(3) [OF inv r(1) r' _ vpath_va r(3)] x r(2) by (auto simp: vpath_snoc)
      then show False using r(2) by (auto simp: vpath_snoc va_path_def)
    qed
    ultimately show ?thesis by (simp add: hang_frames)
  qed
  then show ?thesis using N unfolding view_def by (cases "node s r' (va_path va)") simp_all
qed

section \<open>The operations\<close>

text \<open>New tables come from the free pages.\<close>

definition grows :: "paddr set \<Rightarrow> vm \<Rightarrow> vm \<Rightarrow> bool" where
  "grows R s s' \<longleftrightarrow> free_addrs (vm_pmm s') \<subseteq> free_addrs (vm_pmm s) \<and>
    (\<forall>r \<in> R. \<forall>q. vpath q \<longrightarrow> (\<forall>a. node s' r q = Some a \<longrightarrow> node s r q = Some a \<or> a \<in> free_addrs (vm_pmm s)))"

lemma grows_refl [simp]: "grows R s s"
  by (simp add: grows_def)

lemma grows_trans: "grows R s s' \<Longrightarrow> grows R s' s'' \<Longrightarrow> grows R s s''"
  unfolding grows_def by blast

lemma descend_correct:
  assumes inv: "vm_inv R s" and r: "r \<in> R" "vpath (p @ [i])" "node s r p = Some t"
    and d: "descend_or_alloc t i u s = (c, s')"
  shows "vm_inv R s' \<and> (\<forall>r' \<in> R. \<forall>va. view s' r' va = view s r' va) \<and>
    grows R s s' \<and> (if c = 0 then s' = s else node s' r (p @ [i]) = Some c)"
proof (cases "bit (frames s t i) 0")
  case True
  then have D: "(c, s') = (if bit (frames s t i) 7 then (0, s) else (pte_addr (frames s t i), s))"
    using d unfolding descend_or_alloc_def Let_def pte_bits by simp
  then show ?thesis using inv r(3) True by (auto simp: node_snoc child_def Let_def split: if_splits)
next
  case False
  obtain np m where al: "pmm_alloc_page (vm_pmm s) = (np, m)" by (cases "pmm_alloc_page (vm_pmm s)")
  define f where "f = (if u then (PTE_PRESENT OR PTE_WRITE) OR PTE_USER else PTE_PRESENT OR PTE_WRITE)"
  have fb: "bit f 0" "\<forall>j \<ge> 3. \<not> bit f j" 
    unfolding f_def by (cases u; simp only: if_True if_False bit_or_iff pte_const_bits; simp)+
  have D: "(c, s') = (if np = 0 then (0, s\<lparr>vm_pmm := m\<rparr>) else (np, hang t i np f m s))"
    using d False al unfolding descend_or_alloc_def Let_def pte_bits vm_alloc_page_def hang_def f_def by simp
  note a = pmm.alloc_cases [OF vm_invD(1) [OF inv] al]
  show ?thesis
  proof (cases "np = 0")
    case True
    then show ?thesis using D a inv by auto
  next
    case np: False
    then have fr: "np \<in> free_addrs (vm_pmm s)" "pmm_ok m" "free_addrs m = free_addrs (vm_pmm s) - {np}" using a by auto
    have "node (hang t i np f m s) r (p @ [i]) = Some np"
      using node_hang [OF inv r False fr(1) fb(2,1) r(1,2)] by (simp add: sees_def)
    moreover have "grows R s (hang t i np f m s)"
      using node_hang [OF inv r False fr(1) fb(2,1), where m = m] fr(1,3) unfolding grows_def by (auto split: if_splits)
    ultimately show ?thesis using D np vm_inv_hang [OF inv r False fr(1) fb(2,1) fr(2,3)] view_hang [OF inv r False fr(1) fb(2,1)] by simp
  qed
qed

text \<open>Walking down three levels.\<close>

lemma vmm_map_cases:
  assumes inv: "vm_inv R s" and r: "sp_pml4 sp \<in> R" and va: "va mod PAGE_SIZE = 0" "pa mod PAGE_SIZE = 0" "lower_bound sp \<le> va" "bit flags 0"
    and m: "vmm_map (Some sp) va pa flags s = (ok, s')"
  shows "\<exists>s1. vm_inv R s1 \<and> grows R s s1 \<and> (\<forall>r' \<in> R. \<forall>va. view s1 r' va = view s r' va) \<and>
    (if ok then \<exists>pt. node s1 (sp_pml4 sp) (va_path va) = Some pt \<and> \<not> bit (frames s1 pt (idx_pt va)) 0 \<and>
        s' = pt_write pt (idx_pt va) ((of_nat pa AND PTE_ADDR_MASK) OR flags_to_pte flags) s1
     else s' = s1)"
proof -
  let ?r = "sp_pml4 sp" and ?u = "flags AND VM_USER \<noteq> 0"
  have vp: "vpath ([] @ [idx_pml4 va])" "vpath ([idx_pml4 va] @ [idx_pdpt va])" "vpath ([idx_pml4 va, idx_pdpt va] @ [idx_pd va])"
    using vpath_va [of va] by (auto simp: vpath_def va_path_def)
  obtain c1 s1 where d1: "descend_or_alloc ?r (idx_pml4 va) ?u s = (c1, s1)" by fastforce
  note D1 = descend_correct [OF inv r vp(1) node_Nil d1]
  obtain c2 s2 where d2: "descend_or_alloc c1 (idx_pdpt va) ?u s1 = (c2, s2)" by fastforce
  obtain c3 s3 where d3: "descend_or_alloc c2 (idx_pd va) ?u s2 = (c3, s3)" by fastforce
  have f0: "(flags AND VM_PRESENT = 0) = False" using vm_bits(1) [of flags] va(4) by blast
  have M: "(ok, s') = (if c1 = 0 then (False, s1) else if c2 = 0 then (False, s2) else if c3 = 0 then (False, s3)
      else if bit (frames s3 c3 (idx_pt va)) 0 then (False, s3)
      else (True, pt_write c3 (idx_pt va) ((of_nat pa AND PTE_ADDR_MASK) OR flags_to_pte flags) s3))"
    unfolding m [symmetric] vmm_map_def Let_def pte_bits f0 using va(1-3) by (simp add: d1 d2 d3 cong: if_cong split del: if_split)
  show ?thesis
  proof (cases "c1 = 0")
    case True
    then show ?thesis using M D1 by auto
  next
    case False
    then have n1: "vm_inv R s1" "node s1 ?r [idx_pml4 va] = Some c1" using D1 by auto
    note D2 = descend_correct [OF n1(1) r vp(2) n1(2) d2]
    have g2: "grows R s s2" using D1 D2 grows_trans by blast
    show ?thesis
    proof (cases "c2 = 0")
      case True
      then show ?thesis using M D1 D2 g2 False by (intro exI [of _ s2]) simp
    next
      case c2: False
      then have n2: "vm_inv R s2" "node s2 ?r [idx_pml4 va, idx_pdpt va] = Some c2" using D2 by auto
      note D3 = descend_correct [OF n2(1) r vp(3) n2(2) d3]
      have v: "\<forall>r' \<in> R. \<forall>va. view s3 r' va = view s r' va" using D1 D2 D3 by simp
      have g3: "grows R s s3" using g2 D3 grows_trans by blast
      show ?thesis
      proof (cases "c3 = 0 \<or> bit (frames s3 c3 (idx_pt va)) 0")
        case True
        then have "ok = False" "s' = s3" using M False c2 by (auto split: if_splits)
        then show ?thesis using D3 v g3 by (intro exI [of _ s3]) simp
      next
        case c3: False
        then have "node s3 ?r (va_path va) = Some c3" using D3 by (simp add: va_path_def)
        then show ?thesis using M D3 v g3 False c2 c3 by (intro exI [of _ s3]) simp
      qed
    qed
  qed
qed

text \<open>A new root: tables that are not on any path may change.\<close>

lemma node_frame:
  assumes "\<And>q x j. vpath q \<Longrightarrow> node s r q = Some x \<Longrightarrow> j < 512 \<Longrightarrow> frames s' x j = frames s x j"
  shows "vpath q \<Longrightarrow> node s' r q = node s r q"
proof (induction q rule: rev_induct)
  case (snoc j q)
  then have q: "vpath q" "j < 512" by (auto simp: vpath_snoc)
  show ?case
  proof (cases "node s r q")
    case (Some x)
    then show ?thesis using snoc.IH [OF q(1)] assms [OF q(1) Some q(2)] by (simp add: node_snoc child_def)
  qed (use snoc.IH [OF q(1)] in \<open>simp add: node_snoc\<close>)
qed simp

lemma view_frame:
  assumes "\<And>q x j. vpath q \<Longrightarrow> node s r q = Some x \<Longrightarrow> j < 512 \<Longrightarrow> frames s' x j = frames s x j"
  shows "view s' r va = view s r va"
proof (cases "node s r (va_path va)")
  case (Some x)
  then show ?thesis using node_frame [OF assms vpath_va] assms [OF vpath_va Some idx_pt_less] by (simp add: view_def)
qed (use node_frame [OF assms vpath_va] in \<open>simp add: view_def\<close>)

lemma copy_entries:
  assumes "k \<noteq> np"
  shows "frames (fold (\<lambda>i s. pt_write np i (frames s k i) s) [0..<n] s) =
      (frames s)(np := (\<lambda>i. if i < n then frames s k i else frames s np i)) \<and>
    vm_pmm (fold (\<lambda>i s. pt_write np i (frames s k i) s) [0..<n] s) = vm_pmm s"
  using assms by (induction n) (auto simp: fun_eq_iff)

lemma create_root_frames:
  assumes "vm_inv R s" "k \<in> R" "create_root k s = (np, s')"
  shows "if np = 0 then s' = s
    else np \<in> free_addrs (vm_pmm s) \<and> pmm_ok (vm_pmm s') \<and> free_addrs (vm_pmm s') = free_addrs (vm_pmm s) - {np} \<and>
      (\<forall>x j. j < 512 \<longrightarrow> frames s' x j = frames s (if x = np then k else x) j)"
proof -
  obtain q m where al: "pmm_alloc_page (vm_pmm s) = (q, m)" by (cases "pmm_alloc_page (vm_pmm s)")
  note a = pmm.alloc_cases [OF vm_invD(1) [OF assms(1)] al]
  show ?thesis
  proof (cases "q = 0")
    case True
    then show ?thesis using assms(3) al a by (auto simp: create_root_def vm_alloc_page_def)
  next
    case False
    then have "k \<noteq> q"
      using vm_invD(2) [OF assms(1,2), of "[]" k] a by (auto simp: vpath_def)
    define Z where "Z = zero_page q (s\<lparr>vm_pmm := m\<rparr>)"
    define t where "t = fold (\<lambda>i s. pt_write q i (frames s k i) s) [0..<512] Z"
    have "create_root k s = (q, t)"
      unfolding create_root_def vm_alloc_page_def al Let_def Z_def t_def using False by (simp del: upt_rec_numeral)
    then have e: "np = q" "s' = t" using assms(3) by auto
    have "frames t = (frames Z)(q := (\<lambda>i. if i < 512 then frames Z k i else frames Z q i))" "vm_pmm t = vm_pmm Z"
      using copy_entries [OF \<open>k \<noteq> q\<close>, of 512 Z] unfolding t_def [symmetric] by blast+
    then have "\<forall>x j. j < 512 \<longrightarrow> frames t x j = frames s (if x = q then k else x) j" "vm_pmm t = m"
      using \<open>k \<noteq> q\<close> by (auto simp: Z_def zero_page_fields)
    then show ?thesis using False a unfolding e by simp
  qed
qed

lemma create_root_correct:
  assumes inv: "vm_inv R s" and k: "k \<in> R" "\<forall>i. 0 < i \<and> i < 512 \<longrightarrow> \<not> bit (frames s k i) 0"
    and c: "create_root k s = (np, s')" "np \<noteq> 0"
  shows "vm_inv (insert np R) s' \<and> np \<notin> R \<and> (\<forall>r \<in> R. \<forall>va. view s' r va = view s r va) \<and>
    (\<forall>va. view s' np va = (if idx_pml4 va = 0 then view s k va else None))"
proof -
  have C: "np \<in> free_addrs (vm_pmm s)" "pmm_ok (vm_pmm s')" "free_addrs (vm_pmm s') = free_addrs (vm_pmm s) - {np}"
    "\<And>x j. j < 512 \<Longrightarrow> frames s' x j = frames s (if x = np then k else x) j"
    using create_root_frames [OF inv k(1) c(1)] c(2) by auto
  have fresh: "x \<noteq> np" if "r \<in> R" "vpath q" "node s r q = Some x" for r q x using vm_invD(2) [OF inv that] C(1) by auto
  have fr: "frames s' x j = frames s x j" if "r \<in> R" "vpath q" "node s r q = Some x" "j < 512" for r q x j
    using fresh [OF that(1-3)] C(4) [OF that(4)] by simp
  have N: "node s' r q = node s r q" if "r \<in> R" "vpath q" for r q
    by (rule node_frame [OF fr [OF that(1)] that(2)])
  have ch: "child s' i np = child s i k" if "i < 512" for i using C(4) [OF that, of np] by (simp add: child_def)
  have kc: "i < 512 \<Longrightarrow> child s i k = Some x \<Longrightarrow> i = 0" for i x using k(2) by (cases "i = 0") (auto simp: child_def Let_def split: if_splits)
  have Nk: "node s' np (i # q) = node s k (i # q)" if "vpath (i # q)" for i q
  proof -
    have i: "i < 512" using that by (auto simp: vpath_def)
    have "child s' i k = child s i k" using C(4) [OF i, of k] by (simp add: child_def)
    then have "node s' np (i # q) = node s' k (i # q)" using ch [OF i] by (simp add: node_Cons)
    then show ?thesis using N [OF k(1) that] by simp
  qed
  have hd0: "i = 0" if "vpath (i # q)" "node s k (i # q) = Some x" for i q x
    using that kc by (auto simp: vpath_def node_Cons split: option.splits)
  have npR: "np \<notin> R" using fresh [of np "[]" np] by (auto simp: vpath_def)
  have old: "a \<noteq> np \<and> a \<noteq> 0 \<and> a \<notin> free_addrs (vm_pmm s')" if "r \<in> R" "vpath q" "node s r q = Some a" for r q a
    using vm_invD(2) [OF inv that] fresh [OF that] C(3) by auto
  have cases: "(r = np \<and> q = [] \<and> a = np) \<or> (r = np \<and> q \<noteq> [] \<and> hd q = 0 \<and> node s k q = Some a) \<or> (r \<in> R \<and> node s r q = Some a)"
    if "r \<in> insert np R" "vpath q" "node s' r q = Some a" for r q a
  proof (cases "r = np")
    case True
    then show ?thesis
    proof (cases q)
      case (Cons i q')
      then show ?thesis using that True Nk hd0 by auto
    qed (use True that in auto)
  next
    case False
    then show ?thesis using that N by auto
  qed
  have "vm_inv (insert np R) s'"
  proof (rule vm_invI)
    show "a \<noteq> 0 \<and> a \<notin> free_addrs (vm_pmm s')" if "r \<in> insert np R" "vpath q" "node s' r q = Some a" for r q a
      using cases [OF that] old [OF k(1) that(2)] old [OF _ that(2)] C(3) c(2) by auto
    show "q2 = q1 \<and> sees r1 q1 r2"
      if a: "r1 \<in> insert np R" "r2 \<in> insert np R" "vpath q1" "vpath q2" "node s' r1 q1 = Some a" "node s' r2 q2 = Some a" for r1 r2 q1 q2 a
      using cases [OF a(1,3,5)] cases [OF a(2,4,6)]
    proof (elim disjE conjE)
      assume "q1 \<noteq> []" "hd q1 = 0" "node s k q1 = Some a" "node s k q2 = Some a"
      then show ?thesis using vm_invD(3) [OF inv k(1,1) a(3,4)] by (auto simp: sees_def)
    next
      assume q: "q1 \<noteq> []" "hd q1 = 0" "node s k q1 = Some a" "r2 \<in> R" "node s r2 q2 = Some a"
      then show ?thesis using vm_invD(3) [OF inv k(1) q(4) a(3,4)] by (auto simp: sees_def)
    next
      assume q: "q2 \<noteq> []" "hd q2 = 0" "node s k q2 = Some a" "r1 \<in> R" "node s r1 q1 = Some a"
      then show ?thesis using vm_invD(3) [OF inv k(1) q(4) a(4,3)] by (auto simp: sees_def)
    next
      assume q: "r1 \<in> R" "node s r1 q1 = Some a" "r2 \<in> R" "node s r2 q2 = Some a"
      then show ?thesis using vm_invD(3) [OF inv q(1,3) a(3,4)] by auto
    qed (use old [OF k(1) a(3)] old [OF k(1) a(4)] old [OF _ a(3), of r1] old [OF _ a(4), of r2] in \<open>auto simp: sees_def\<close>)
    have z: "frames s' r 0 = frames s (if r = np then k else r) 0" for r using C(4) by simp
    show "frames s' r 0 = frames s' r' 0 \<and> child s' 0 r \<noteq> None" if "r \<in> insert np R" "r' \<in> insert np R" for r r'
      using vm_invD(4) [OF inv, of "if r = np then k else r" "if r' = np then k else r'"] that k(1) by (auto simp: z child_def)
  qed (use C in simp)
  moreover have "view s' r va = view s r va" if "r \<in> R" for r va by (rule view_frame [OF fr [OF that]])
  moreover have "view s' np va = (if idx_pml4 va = 0 then view s k va else None)" for va
  proof -
    have n: "node s' np (va_path va) = node s k (va_path va)" using Nk [of "idx_pml4 va"] vpath_va [of va] by (simp add: va_path_def)
    show ?thesis
    proof (cases "node s k (va_path va)")
      case (Some x)
      then have "idx_pml4 va = 0" using hd0 [of "idx_pml4 va"] vpath_va [of va] by (simp add: va_path_def)
      then show ?thesis using n Some fr [OF k(1) vpath_va Some idx_pt_less] by (simp add: view_def)
    qed (use n in \<open>simp add: view_def\<close>)
  qed
  ultimately show ?thesis using npR by blast
qed

text \<open>The effect of the two updates on the views.\<close>

lemma sees_va: "sees r (va_path va) r' \<longleftrightarrow> r' = r \<or> idx_pml4 va = 0"
  by (simp add: sees_def va_path_def)

lemma vmm_map_view:
  assumes inv: "vm_inv R s" and r: "sp_pml4 sp \<in> R" and va: "va < 2 ^ 48" "va mod PAGE_SIZE = 0" "lower_bound sp \<le> va"
    and pa: "pa < 2 ^ 52" "pa mod PAGE_SIZE = 0" and fl: "bit flags 0"
    and m: "vmm_map (Some sp) va pa flags s = (ok, s')"
  shows "vm_inv R s' \<and> grows R s s' \<and> (ok \<longrightarrow> view s (sp_pml4 sp) va = None) \<and> (\<forall>r' \<in> R. \<forall>va'. va' < 2 ^ 48 \<and> va' mod PAGE_SIZE = 0 \<longrightarrow>
      view s' r' va' = (if ok \<and> va' = va \<and> (r' = sp_pml4 sp \<or> idx_pml4 va = 0) then Some (pa, flags AND 15) else view s r' va'))"
proof -
  let ?r = "sp_pml4 sp"
  obtain s1 where s1: "vm_inv R s1" "\<forall>r' \<in> R. \<forall>va. view s1 r' va = view s r' va"
    and gr: "grows R s s1" and s1c: "if ok then \<exists>pt. node s1 ?r (va_path va) = Some pt \<and> \<not> bit (frames s1 pt (idx_pt va)) 0 \<and>
        s' = pt_write pt (idx_pt va) ((of_nat pa AND PTE_ADDR_MASK) OR flags_to_pte flags) s1 else s' = s1"
    using vmm_map_cases [OF inv r va(2) pa(2) va(3) fl m] by blast
  have pd: "PAGE_SIZE dvd pa" using pa(2) by auto
  define e where "e = (of_nat pa :: u64) OR flags_to_pte flags"
  have e: "(of_nat pa AND PTE_ADDR_MASK) OR flags_to_pte flags = e" "bit e 0" "pte_addr e = pa" "pte_to_flags e = flags AND 15"
    using of_nat_mask [OF pd pa(1)] fl pte_addr_entry [OF pd pa(1), of "flags_to_pte flags"] pte_to_flags_entry [OF pd]
    by (auto simp: e_def bit_or_iff flags_bits)
  show ?thesis
  proof (cases ok)
    case False
    then show ?thesis using s1 s1c gr by simp
  next
    case True
    then obtain pt where pt: "node s1 ?r (va_path va) = Some pt" "\<not> bit (frames s1 pt (idx_pt va)) 0" "s' = pt_write pt (idx_pt va) e s1"
      using s1c e(1) by auto
    have "vm_inv R s'" using vm_inv_leaf_write [OF s1(1) r vpath_va _ pt(1)] pt(3) by (simp add: va_path_def)
    moreover have "grows R s1 s'"
      using node_leaf_write [OF s1(1) r vpath_va _ pt(1)] pt(3) unfolding grows_def by (simp add: va_path_def)
    moreover have "view s1 ?r va = None" using pt by (simp add: view_def)
    ultimately show ?thesis
      using view_leaf_write [OF s1(1) r pt(1) _ va(1,2), of _ _ e] s1(2) r True pt(3) e(2-4) sees_va
        grows_trans [OF gr] by simp
  qed
qed

lemma vmm_unmap_view:
  assumes inv: "vm_inv R s" and r: "sp_pml4 sp \<in> R" and va: "va < 2 ^ 48" "va mod PAGE_SIZE = 0" "lower_bound sp \<le> va"
    and u: "vmm_unmap (Some sp) va s = (ok, s')"
  shows "vm_inv R s' \<and> vm_pmm s' = vm_pmm s \<and> (ok \<longleftrightarrow> view s (sp_pml4 sp) va \<noteq> None) \<and> (\<forall>r' \<in> R. \<forall>va'. va' < 2 ^ 48 \<and> va' mod PAGE_SIZE = 0 \<longrightarrow>
      view s' r' va' = (if va' = va \<and> (r' = sp_pml4 sp \<or> idx_pml4 va = 0) then None else view s r' va'))"
proof (cases "view s (sp_pml4 sp) va")
  case None
  have "view s r' va = None" if "r' \<in> R" "sees (sp_pml4 sp) (va_path va) r'" for r'
    using None sees_node [OF inv r that] by (simp add: view_def)
  moreover have "ok = False" "s' = s"
    using u None va vm_invD(2) [OF inv r vpath_va] pte_bits(1) unfolding vmm_unmap_def walk_leaf_node view_def
    by (auto simp: Let_def split: option.splits if_splits)
  ultimately show ?thesis using inv sees_va None by auto
next
  case (Some x)
  then obtain pt where pt: "node s (sp_pml4 sp) (va_path va) = Some pt" "bit (frames s pt (idx_pt va)) 0"
    by (auto simp: view_def Let_def bind_eq_Some_conv split: if_splits)
  have "pt \<noteq> 0" using vm_invD(2) [OF inv r vpath_va pt(1)] by simp
  then have U: "ok" "s' = pt_write pt (idx_pt va) 0 s"
    using u pt va pte_bits(1) [of "frames s pt (idx_pt va)"] unfolding vmm_unmap_def walk_leaf_node by (auto simp: Let_def)
  have "vm_inv R s'" using vm_inv_leaf_write [OF inv r vpath_va _ pt(1)] U(2) by (simp add: va_path_def)
  then show ?thesis using view_leaf_write [OF inv r pt(1) _ va(1,2), of _ _ 0] U sees_va Some by simp
qed

text \<open>Taking a page for data, and giving back one that is no table.\<close>

lemma vm_inv_pmm:
  assumes "vm_inv R s" "pmm_ok m" "\<And>r q a. r \<in> R \<Longrightarrow> vpath q \<Longrightarrow> node s r q = Some a \<Longrightarrow> a \<notin> free_addrs m"
  shows "vm_inv R (s\<lparr>vm_pmm := m\<rparr>)" "view (s\<lparr>vm_pmm := m\<rparr>) = view s" "node (s\<lparr>vm_pmm := m\<rparr>) = node s"
proof -
  have c: "child (s\<lparr>vm_pmm := m\<rparr>) = child s" by (simp add: child_def fun_eq_iff)
  show n: "node (s\<lparr>vm_pmm := m\<rparr>) = node s" by (intro ext) (simp add: node_def c)
  show "view (s\<lparr>vm_pmm := m\<rparr>) = view s" by (intro ext) (simp add: view_def n)
  show "vm_inv R (s\<lparr>vm_pmm := m\<rparr>)"
  proof (rule vm_invI, unfold n c)
    show "pmm_ok (vm_pmm (s\<lparr>vm_pmm := m\<rparr>))" using assms(2) by simp
    show "a \<noteq> 0 \<and> a \<notin> free_addrs (vm_pmm (s\<lparr>vm_pmm := m\<rparr>))" if "r \<in> R" "vpath q" "node s r q = Some a" for r q a
      using vm_invD(2) [OF assms(1) that] assms(3) [OF that] by simp
    show "q = p \<and> sees r p r'" if "r \<in> R" "r' \<in> R" "vpath p" "vpath q" "node s r p = Some a" "node s r' q = Some a" for r r' p q a
      by (rule vm_invD(3) [OF assms(1) that])
    show "frames (s\<lparr>vm_pmm := m\<rparr>) r 0 = frames (s\<lparr>vm_pmm := m\<rparr>) r' 0 \<and> child s 0 r \<noteq> None" if "r \<in> R" "r' \<in> R" for r r'
      using vm_invD(4) [OF assms(1) that] by simp
  qed
qed

section \<open>Correctness\<close>

text \<open>C9: the page tables implement a partial map from pages to frames and flags per address space.
  vmm_map of a free page in a well-formed system adds exactly that page, in this space and, for
  the kernel's shared subtree, in every space, and fails without changing any view otherwise;
  vmm_query reads the map; vmm_unmap removes exactly the page and fails only when it is not
  mapped.  Every other page of every space keeps its mapping, and the system stays well formed.\<close>

theorem vmm_refines:
  assumes inv: "vm_inv R s" and r: "sp_pml4 sp \<in> R" and va: "va < 2 ^ 48" "va mod PAGE_SIZE = 0" "lower_bound sp \<le> va"
    and pa: "pa < 2 ^ 52" "pa mod PAGE_SIZE = 0" and fl: "bit flags 0"
    and m: "vmm_map (Some sp) va pa flags s = (ok, s')" and u: "vmm_unmap (Some sp) va s = (ok2, s2)"
  shows "vm_inv R s' \<and> vm_inv R s2 \<and>
    (ok \<longrightarrow> vmm_query (Some sp) va s = None \<and> vmm_query (Some sp) va s' = Some (pa, flags AND 15)) \<and>
    (ok2 \<longleftrightarrow> vmm_query (Some sp) va s \<noteq> None) \<and> vmm_query (Some sp) va s2 = None \<and>
    (\<forall>r' \<in> R. \<forall>va'. va' < 2 ^ 48 \<and> va' mod PAGE_SIZE = 0 \<longrightarrow>
      view s' r' va' = (if ok \<and> va' = va \<and> (r' = sp_pml4 sp \<or> idx_pml4 va = 0) then Some (pa, flags AND 15) else view s r' va') \<and>
      view s2 r' va' = (if va' = va \<and> (r' = sp_pml4 sp \<or> idx_pml4 va = 0) then None else view s r' va'))"
proof -
  note map = vmm_map_view [OF inv r va pa fl m] and unmap = vmm_unmap_view [OF inv r va u]
  have q: "vmm_query (Some sp) va t = view t (sp_pml4 sp) va" if "vm_inv R t" for t using vmm_query_view [OF that r va(2)] .
  show ?thesis using map unmap q [OF inv] q [of s'] q [of s2] r va by auto
qed

text \<open>A small system: one root at 4096 with the shared table 8192 and a path of tables for the first user page.\<close>

definition wit_vm :: vm where
  "wit_vm = \<lparr>frames = (\<lambda>_ _. 0)(4096 := (\<lambda>_. 0)(0 := 8195, 1 := 12295), 12288 := (\<lambda>_. 0)(0 := 16391), 16384 := (\<lambda>_. 0)(0 := 20487)),
    vm_pmm = \<lparr>used_bitmap = [], resv_bitmap = [1], bitmap_words = 0, total_pages = 0, free_pages = 0, max_paddr = 0\<rparr>\<rparr>"

definition wit_sp :: vmm_space where
  "wit_sp = \<lparr>sp_pml4 = 4096, sp_refcount = 1, sp_is_kernel = False\<rparr>"

lemma wit_child:
  "child wit_vm i t = (if t = 4096 \<and> i = 0 then Some 8192 else if t = 4096 \<and> i = 1 then Some 12288
    else if t = 12288 \<and> i = 0 then Some 16384 else if t = 16384 \<and> i = 0 then Some 20480 else None)"
  by (simp add: child_def wit_vm_def pte_addr_def)

lemma wit_node:
  assumes "vpath p" "node wit_vm 4096 p = Some a"
  shows "(p, a) \<in> {([], 4096), ([0], 8192), ([1], 12288), ([1, 0], 16384), ([1, 0, 0], 20480)}"
proof -
  consider "p = []" | i where "p = [i]" | i j where "p = [i, j]" | i j k where "p = [i, j, k]"
    using assms(1) by (cases p; cases "tl p"; cases "tl (tl p)"; cases "tl (tl (tl p))") (auto simp: vpath_def)
  then show ?thesis using assms(2) by cases (auto simp: node_Cons wit_child split: if_splits)
qed

lemma wit_vm_inv: "vm_inv {4096} wit_vm"
proof (rule vm_invI)
  have "pmm_free_set (vm_pmm wit_vm) = {}" by (simp add: wit_vm_def pmm_free_set_def)
  then have f: "free_addrs (vm_pmm wit_vm) = {}" by (simp add: free_addrs_def)
  show "pmm_ok (vm_pmm wit_vm)" by (simp add: wit_vm_def pmm_ok_def pmm_inv_def pmm_shape_def pmm_free_set_def resv_get_def bm_get_def)
  show "a \<noteq> 0 \<and> a \<notin> free_addrs (vm_pmm wit_vm)" if "r \<in> {4096}" "vpath p" "node wit_vm r p = Some a" for r p a
    using wit_node [of p a] that f by auto
  show "q = p \<and> sees r p r'" if "r \<in> {4096}" "r' \<in> {4096}" "vpath p" "vpath q" "node wit_vm r p = Some a" "node wit_vm r' q = Some a" for r r' p q a
    using wit_node [of p a] wit_node [of q a] that by (auto simp: sees_def)
qed (auto simp: wit_child)

theorem vmm_refines_witness:
  "fst (vmm_map (Some wit_sp) (2 ^ 39) 24576 7 wit_vm) \<and>
   vmm_query (Some wit_sp) (2 ^ 39) (snd (vmm_map (Some wit_sp) (2 ^ 39) 24576 7 wit_vm)) = Some (24576, 7)"
proof -
  have ok: "fst (vmm_map (Some wit_sp) (2 ^ 39) 24576 7 wit_vm)"
    by (simp add: vmm_map_def wit_sp_def wit_vm_def lower_bound_def descend_or_alloc_def idx_pml4_def idx_pdpt_def idx_pd_def idx_pt_def pte_addr_def)
  have "bit (7 :: u32) 0" by simp
  then show ?thesis
    using vmm_refines [OF wit_vm_inv, of wit_sp "2 ^ 39" 24576 7 "fst (vmm_map (Some wit_sp) (2 ^ 39) 24576 7 wit_vm)"
        "snd (vmm_map (Some wit_sp) (2 ^ 39) 24576 7 wit_vm)" "fst (vmm_unmap (Some wit_sp) (2 ^ 39) wit_vm)" "snd (vmm_unmap (Some wit_sp) (2 ^ 39) wit_vm)"] ok
    by (simp add: wit_sp_def lower_bound_def)
qed

end
