(* ===== verification/Heap.thy ===== *)
theory Heap
  imports Vmm Iqueue Blocks "HOL-Library.Monad_Syntax"
begin

text \<open>
  The kernel heap, \<^verbatim>\<open>kernel/core/heap.c\<close>: an address-sorted free list with coalescing over pages mapped
  at the end of the heap on demand.

  Block headers are a store from addresses to \<open>hblock\<close> records, the payload bytes a separate byte
  store; the page tables and the page allocator are those of \<open>Vmm\<close>.  A panic is \<open>None\<close>; the loops
  over the free list are partial functions, so that a corrupted list that is cyclic is \<open>None\<close> as well.
  The address of the boot page tables, a linker symbol, is an argument.

  The abstract view is the list of blocks between the two ends of the heap: \<open>htile\<close> relates it to the
  headers, and the free list is the chain of the free ones in address order.
\<close>

section \<open>State\<close>

abbreviation HEAP_HEADER :: nat where "HEAP_HEADER \<equiv> 32"
abbreviation KERNEL_HEAP_BASE :: nat where "KERNEL_HEAP_BASE \<equiv> 0x40100000"
abbreviation KERNEL_HEAP_MAX :: nat where "KERNEL_HEAP_MAX \<equiv> 0x50000000"

record hblock =
  hb_size :: nat
  hb_next :: nat
  hb_free :: bool

record heap =
  heap_start :: vaddr
  heap_end :: vaddr
  heap_free_head :: nat
  heap_live_payload :: nat
  hblk :: "nat \<Rightarrow> hblock"
  kmem :: "nat \<Rightarrow> byte"
  heap_vm :: vm

definition vmm_kernel_space :: "paddr \<Rightarrow> vmm_space" where
  "vmm_kernel_space boot_pml4 = \<lparr>sp_pml4 = boot_pml4, sp_refcount = 0xFFFFFFFF, sp_is_kernel = True\<rparr>"

definition set_next :: "nat \<Rightarrow> nat \<Rightarrow> heap \<Rightarrow> heap" where
  "set_next b n h = h\<lparr>hblk := (hblk h)(b := hblk h b\<lparr>hb_next := n\<rparr>)\<rparr>"

definition set_size :: "nat \<Rightarrow> nat \<Rightarrow> heap \<Rightarrow> heap" where
  "set_size b n h = h\<lparr>hblk := (hblk h)(b := hblk h b\<lparr>hb_size := n\<rparr>)\<rparr>"

definition set_flag :: "nat \<Rightarrow> bool \<Rightarrow> heap \<Rightarrow> heap" where
  "set_flag b f h = h\<lparr>hblk := (hblk h)(b := hblk h b\<lparr>hb_free := f\<rparr>)\<rparr>"

definition block_is_free :: "heap \<Rightarrow> nat \<Rightarrow> bool" where
  "block_is_free h b = hb_free (hblk h b)"

definition block_end :: "heap \<Rightarrow> nat \<Rightarrow> vaddr" where
  "block_end h b = b + HEAP_HEADER + hb_size (hblk h b)"

section \<open>The free list\<close>

partial_function (option) insert_pos :: "heap \<Rightarrow> nat \<Rightarrow> nat \<Rightarrow> nat \<Rightarrow> (nat \<times> nat) option" where
  "insert_pos h blk prev cur =
    (if cur \<noteq> 0 \<and> cur < blk then insert_pos h blk cur (hb_next (hblk h cur)) else Some (prev, cur))"

definition link_block :: "nat \<Rightarrow> nat \<Rightarrow> heap \<Rightarrow> heap" where
  "link_block prev blk h = (if prev \<noteq> 0 then set_next prev blk h else h\<lparr>heap_free_head := blk\<rparr>)"

definition free_list_insert :: "nat \<Rightarrow> heap \<Rightarrow> heap option" where
  "free_list_insert blk h = do {
     let h = set_next blk 0 (set_flag blk True h);
     (prev, cur) \<leftarrow> insert_pos h blk 0 (heap_free_head h);
     let h = link_block prev blk (set_next blk cur h);
     let h = (if cur \<noteq> 0 \<and> block_end h blk = cur
        then set_next blk (hb_next (hblk h cur)) (set_size blk (hb_size (hblk h blk) + (HEAP_HEADER + hb_size (hblk h cur))) h)
        else h);
     Some (if prev \<noteq> 0 \<and> block_end h prev = blk
        then set_next prev (hb_next (hblk h blk)) (set_size prev (hb_size (hblk h prev) + (HEAP_HEADER + hb_size (hblk h blk))) h)
        else h) }"

text \<open>Taking the block \<open>cur\<close>, which \<open>prev\<close> links to.\<close>

definition take_block :: "nat \<Rightarrow> nat \<Rightarrow> nat \<Rightarrow> heap \<Rightarrow> nat \<times> heap" where
  "take_block need prev cur h =
    (let remain = hb_size (hblk h cur) - need;
       h = (if HEAP_HEADER + 16 \<le> remain
         then let rem = cur + HEAP_HEADER + need;
             h = set_next rem (hb_next (hblk h cur)) (set_flag rem True (set_size rem (remain - HEAP_HEADER) h)) in
           link_block prev rem (set_size cur need h)
         else link_block prev (hb_next (hblk h cur)) h);
       h = set_next cur 0 (set_flag cur False h);
       h = h\<lparr>heap_live_payload := wrap64 (heap_live_payload h + hb_size (hblk h cur))\<rparr> in
     (cur + HEAP_HEADER, h))"

partial_function (option) alloc_from :: "nat \<Rightarrow> heap \<Rightarrow> nat \<Rightarrow> nat \<Rightarrow> (nat \<times> heap) option" where
  "alloc_from need h prev cur =
    (if cur = 0 then Some (0, h)
     else if need \<le> hb_size (hblk h cur) then Some (take_block need prev cur h)
     else alloc_from need h cur (hb_next (hblk h cur)))"

definition alloc_from_list :: "nat \<Rightarrow> heap \<Rightarrow> (nat \<times> heap) option" where
  "alloc_from_list need h = alloc_from need h 0 (heap_free_head h)"

section \<open>Growing\<close>

text \<open>The mapping loop: \<open>n\<close> iterations left, \<open>i\<close> pages mapped.\<close>

primrec grow_pages :: "paddr \<Rightarrow> vaddr \<Rightarrow> nat \<Rightarrow> nat \<Rightarrow> vm \<Rightarrow> nat \<times> vm" where
  "grow_pages boot base 0 i s = (i, s)"
| "grow_pages boot base (Suc n) i s =
    (let va = base + i * PAGE_SIZE in
     if KERNEL_HEAP_MAX < va + PAGE_SIZE then (i, s)
     else let (pa, s) = vm_alloc_page s in
       if pa = 0 then (i, s)
       else let (ok, s) = vmm_map (Some (vmm_kernel_space boot)) va pa (VM_PRESENT OR VM_WRITE) s in
         if \<not> ok then (i, vm_free_page pa s)
         else grow_pages boot base n (i + 1) s)"

definition heap_grow :: "paddr \<Rightarrow> nat \<Rightarrow> heap \<Rightarrow> (bool \<times> heap) option" where
  "heap_grow boot need_payload h =
    (let need_bytes = wrap64 (need_payload + HEAP_HEADER);
       pages = wrap64 (need_bytes + PAGE_SIZE - 1) div PAGE_SIZE;
       pages = (if pages = 0 then 1 else pages);
       base = heap_end h;
       (mapped, s) = grow_pages boot base pages 0 (heap_vm h);
       h = h\<lparr>heap_vm := s\<rparr> in
     if mapped = 0 then Some (False, h)
     else let new_bytes = mapped * PAGE_SIZE;
         h = h\<lparr>heap_end := base + new_bytes\<rparr>;
         blk = base;
         h = set_next blk 0 (set_flag blk False (set_size blk (new_bytes - HEAP_HEADER) h)) in
       do { h \<leftarrow> free_list_insert blk h; Some (True, h) })"

section \<open>Operations\<close>

definition heap_init :: "heap \<Rightarrow> heap" where
  "heap_init h = h\<lparr>heap_start := KERNEL_HEAP_BASE, heap_end := KERNEL_HEAP_BASE, heap_free_head := 0, heap_live_payload := 0\<rparr>"

definition heap_need :: "nat \<Rightarrow> nat" where
  "heap_need sz = (let need = align_up 16 sz in if need < 16 then 16 else need)"

definition exy_malloc :: "paddr \<Rightarrow> nat \<Rightarrow> heap \<Rightarrow> (nat \<times> heap) option" where
  "exy_malloc boot sz h =
    (if sz = 0 then Some (0, h)
     else let need = heap_need sz in do {
       (p, h) \<leftarrow> alloc_from_list need h;
       if p \<noteq> 0 then Some (p, h)
       else do {
         (grown, h) \<leftarrow> heap_grow boot need h;
         if \<not> grown then Some (0, h) else alloc_from_list need h } })"

definition exy_zalloc :: "paddr \<Rightarrow> nat \<Rightarrow> heap \<Rightarrow> (nat \<times> heap) option" where
  "exy_zalloc boot sz h = do {
     (p, h) \<leftarrow> exy_malloc boot sz h;
     if p = 0 then Some (0, h)
     else Some (p, fold (\<lambda>i h. h\<lparr>kmem := (kmem h)(p + i := 0)\<rparr>) [0..<sz] h) }"

definition exy_free :: "nat \<Rightarrow> heap \<Rightarrow> heap option" where
  "exy_free ptr h =
    (if ptr = 0 then Some h
     else if ptr < heap_start h \<or> heap_end h \<le> ptr then None
     else let blk = ptr - HEAP_HEADER in
       if block_is_free h blk then None
       else free_list_insert blk
         (h\<lparr>heap_live_payload := wrap64 (heap_live_payload h + two64 - hb_size (hblk h blk))\<rparr>))"

definition exy_realloc :: "paddr \<Rightarrow> nat \<Rightarrow> nat \<Rightarrow> heap \<Rightarrow> (nat \<times> heap) option" where
  "exy_realloc boot ptr new_size h =
    (if ptr = 0 then exy_malloc boot new_size h
     else if new_size = 0 then do { h \<leftarrow> exy_free ptr h; Some (0, h) }
     else if ptr < heap_start h \<or> heap_end h \<le> ptr then None
     else let blk = ptr - HEAP_HEADER in
       if block_is_free h blk then None
       else let old_size = hb_size (hblk h blk) in
         if heap_need new_size \<le> old_size then Some (ptr, h)
         else do {
           (np, h) \<leftarrow> exy_malloc boot new_size h;
           if np = 0 then Some (0, h)
           else do {
             let h = fold (\<lambda>i h. h\<lparr>kmem := (kmem h)(np + i := kmem h (ptr + i))\<rparr>) [0..<old_size] h;
             h \<leftarrow> exy_free ptr h;
             Some (np, h) } })"

partial_function (option) free_bytes_from :: "heap \<Rightarrow> nat \<Rightarrow> nat \<Rightarrow> nat option" where
  "free_bytes_from h b acc =
    (if b = 0 then Some acc else free_bytes_from h (hb_next (hblk h b)) (wrap64 (acc + hb_size (hblk h b))))"

definition heap_free_bytes :: "heap \<Rightarrow> nat option" where
  "heap_free_bytes h = free_bytes_from h (heap_free_head h) 0"

definition heap_reserve :: "paddr \<Rightarrow> nat \<Rightarrow> heap \<Rightarrow> (bool \<times> heap) option" where
  "heap_reserve boot bytes h =
    (if bytes = 0 then Some (True, h)
     else do {
       have_bytes \<leftarrow> heap_free_bytes h;
       if bytes \<le> have_bytes then Some (True, h) else heap_grow boot (bytes - have_bytes) h })"

definition heap_used_bytes :: "heap \<Rightarrow> nat" where
  "heap_used_bytes h = heap_live_payload h"

definition heap_total_bytes :: "heap \<Rightarrow> nat" where
  "heap_total_bytes h = heap_end h - heap_start h"

section \<open>Linked segments\<close>

primrec seg :: "(nat \<Rightarrow> nat) \<Rightarrow> nat \<Rightarrow> nat list \<Rightarrow> nat \<Rightarrow> bool" where
  "seg nx p [] q \<longleftrightarrow> p = q"
| "seg nx p (x # xs) q \<longleftrightarrow> p = x \<and> x \<noteq> 0 \<and> seg nx (nx x) xs q"

lemma chain_seg: "chain nx p (xs @ ys) \<longleftrightarrow> (\<exists>q. seg nx p xs q \<and> chain nx q ys)"
  by (induction xs arbitrary: p) auto

lemma seg_upd [simp]: "x \<notin> set xs \<Longrightarrow> seg (nx(x := v)) p xs q = seg nx p xs q"
  by (induction xs arbitrary: p) auto

lemma seg_cong: "(\<And>x. x \<in> set xs \<Longrightarrow> nx x = ny x) \<Longrightarrow> seg nx p xs q = seg ny p xs q"
  by (induction xs arbitrary: p) auto

lemma seg_last: "distinct xs \<Longrightarrow> xs \<noteq> [] \<Longrightarrow> seg nx p xs q \<Longrightarrow> seg (nx(last xs := q')) p xs q'"
  by (induction xs arbitrary: p) (auto simp: fun_upd_def split: if_splits)

lemma seg_snoc: "seg nx p (xs @ [x]) q \<Longrightarrow> nx x = q"
  by (induction xs arbitrary: p) auto

lemma seg_nonzero: "seg nx p xs q \<Longrightarrow> 0 \<notin> set xs"
  by (induction xs arbitrary: p) auto

definition nxt :: "heap \<Rightarrow> nat \<Rightarrow> nat" where
  "nxt h b = hb_next (hblk h b)"

lemma hblk_set [simp]:
  "hblk (set_next b n h) = (hblk h)(b := hblk h b\<lparr>hb_next := n\<rparr>)" "hblk (set_size b n h) = (hblk h)(b := hblk h b\<lparr>hb_size := n\<rparr>)"
  "hblk (set_flag b f h) = (hblk h)(b := hblk h b\<lparr>hb_free := f\<rparr>)"
  by (simp_all add: set_next_def set_size_def set_flag_def)

lemma nxt_set [simp]: "nxt (set_next b n h) = (nxt h)(b := n)" "nxt (set_size b n h) = nxt h" "nxt (set_flag b f h) = nxt h"
    "nxt (h\<lparr>heap_free_head := b\<rparr>) = nxt h" "nxt (h\<lparr>heap_live_payload := n\<rparr>) = nxt h"
  by (auto simp: nxt_def fun_eq_iff)

lemma head_set [simp]: "heap_free_head (set_next b n h) = heap_free_head h" "heap_free_head (set_size b n h) = heap_free_head h"
    "heap_free_head (set_flag b f h) = heap_free_head h"
  by (simp_all add: set_next_def set_size_def set_flag_def)

text \<open>The fields an operation on the list leaves alone.\<close>

definition same_rest :: "heap \<Rightarrow> heap \<Rightarrow> bool" where
  "same_rest h h' \<longleftrightarrow> heap_start h' = heap_start h \<and> heap_end h' = heap_end h \<and> kmem h' = kmem h \<and> heap_vm h' = heap_vm h"

lemma same_rest_set [simp]: "same_rest h (set_next b n h') = same_rest h h'" "same_rest h (set_size b n h') = same_rest h h'"
    "same_rest h (set_flag b f h') = same_rest h h'" "same_rest h (link_block p b h') = same_rest h h'" "same_rest h h"
    "same_rest h (h'\<lparr>heap_live_payload := n\<rparr>) = same_rest h h'"
  by (auto simp: same_rest_def set_next_def set_size_def set_flag_def link_block_def)

lemma live_set [simp]: "heap_live_payload (set_next b n h) = heap_live_payload h" "heap_live_payload (set_size b n h) = heap_live_payload h"
    "heap_live_payload (set_flag b f h) = heap_live_payload h" "heap_live_payload (link_block p b h) = heap_live_payload h"
  by (auto simp: set_next_def set_size_def set_flag_def link_block_def)

lemma link_block_seg:
  assumes "seg (nxt h) (heap_free_head h) xs q" "distinct xs"
  shows "seg (nxt (link_block (last (0 # xs)) q' h)) (heap_free_head (link_block (last (0 # xs)) q' h)) xs q'"
proof (cases "xs = []")
  case True
  then show ?thesis by (simp add: link_block_def)
next
  case False
  then have "last xs \<noteq> 0" using seg_nonzero [OF assms(1)] last_in_set by metis
  then show ?thesis using False seg_last [OF assms(2) False assms(1), of q'] by (simp add: link_block_def)
qed

lemma link_block_nxt: "x \<notin> set xs \<Longrightarrow> nxt (link_block (last (0 # xs)) q h) x = nxt h x"
  by (cases "xs = []") (auto simp: link_block_def)

lemma link_block_hblk: "hb_size (hblk (link_block p q h) x) = hb_size (hblk h x)" "hb_free (hblk (link_block p q h) x) = hb_free (hblk h x)"
  by (auto simp: link_block_def)

lemma insert_pos_seg:
  "seg (nxt h) cur xs c \<Longrightarrow> (\<forall>x \<in> set xs. x < blk) \<Longrightarrow> (c \<noteq> 0 \<longrightarrow> blk \<le> c) \<Longrightarrow>
    insert_pos h blk prev cur = Some (last (prev # xs), c)"
proof (induction xs arbitrary: prev cur)
  case Nil
  then show ?case by (subst insert_pos.simps) auto
next
  case (Cons x xs)
  then show ?case by (subst insert_pos.simps) (auto simp: nxt_def)
qed

section \<open>The heap as a list of blocks\<close>

primrec htile :: "(nat \<Rightarrow> hblock) \<Rightarrow> nat \<Rightarrow> nat \<Rightarrow> blocks \<Rightarrow> bool" where
  "htile f a e [] \<longleftrightarrow> a = e"
| "htile f a e (t # ts) \<longleftrightarrow>
    hb_size (f a) = fst t \<and> hb_free (f a) = snd t \<and> 16 dvd fst t \<and> 16 \<le> fst t \<and> htile f (a + HEAP_HEADER + fst t) e ts"

abbreviation hspan :: "blocks \<Rightarrow> nat" where "hspan \<equiv> bspan HEAP_HEADER"
abbreviation hlive :: "nat \<Rightarrow> blocks \<Rightarrow> (nat \<times> nat) set" where "hlive \<equiv> blive HEAP_HEADER"
abbreviation hfree :: "nat \<Rightarrow> blocks \<Rightarrow> nat list" where "hfree \<equiv> bfree HEAP_HEADER"

lemma htile_end: "htile f a e ts \<Longrightarrow> e = a + hspan ts"
proof (induction ts arbitrary: a)
  case (Cons t ts)
  have "e = a + HEAP_HEADER + fst t + hspan ts" by (rule Cons.IH) (use Cons.prems in simp)
  then show ?case by simp
qed simp

lemma htile_append: "htile f a e (xs @ ys) \<longleftrightarrow> htile f a (a + hspan xs) xs \<and> htile f (a + hspan xs) e ys"
  by (induction xs arbitrary: a) (auto simp: add.assoc)

lemma htile_cong:
  "(\<And>x. a \<le> x \<Longrightarrow> x < e \<Longrightarrow> hb_size (g x) = hb_size (f x) \<and> hb_free (g x) = hb_free (f x)) \<Longrightarrow> htile f a e ts \<Longrightarrow> htile g a e ts"
proof (induction ts arbitrary: a)
  case (Cons t ts)
  have "e = a + hspan (t # ts)" using htile_end Cons.prems(2) by blast
  then have "hb_size (g a) = hb_size (f a)" "hb_free (g a) = hb_free (f a)" using Cons.prems(1) [of a] by auto
  moreover have "htile g (a + HEAP_HEADER + fst t) e ts" using Cons.IH [of "a + HEAP_HEADER + fst t"] Cons.prems by simp
  ultimately show ?case using Cons.prems(2) by simp
qed simp

lemma htile_span_dvd: "htile f a e ts \<Longrightarrow> 16 dvd hspan ts"
  by (induction ts arbitrary: a) auto

lemma hfree_sorted: "sorted_wrt (<) (hfree a ts)"
proof (induction ts arbitrary: a)
  case (Cons t ts)
  then show ?case using bfree_range [of _ HEAP_HEADER "a + HEAP_HEADER + fst t" ts] by (fastforce split: if_splits)
qed simp

lemma hfree_distinct: "distinct (hfree a ts)"
  using hfree_sorted [of a ts] by (induction "hfree a ts") (auto simp: strict_sorted_iff)

text \<open>Headers and free list agree with the blocks.\<close>

definition good :: "heap \<Rightarrow> blocks \<Rightarrow> bool" where
  "good h ts \<longleftrightarrow> heap_start h \<noteq> 0 \<and> htile (hblk h) (heap_start h) (heap_end h) ts
    \<and> chain (nxt h) (heap_free_head h) (hfree (heap_start h) ts)"

lemma good_read:
  assumes "good h (pre @ (s, f) # post)" "b = heap_start h + hspan pre"
  shows "hb_size (hblk h b) = s" "hb_free (hblk h b) = f" "16 dvd s" "16 \<le> s" "heap_end h = b + HEAP_HEADER + s + hspan post" "b \<noteq> 0"
    "htile (hblk h) (heap_start h) b pre" "htile (hblk h) (b + HEAP_HEADER + s) (heap_end h) post" "heap_start h \<le> b"
  using assms htile_end [of "hblk h" "b + HEAP_HEADER + s" "heap_end h" post] by (auto simp: good_def htile_append)

text \<open>Rewriting the headers from one block on.\<close>

lemma htile_replace:
  assumes "htile (hblk h) (heap_start h) b pre" "b = heap_start h + hspan pre"
    and "\<And>x. x < b \<Longrightarrow> hb_size (hblk h' x) = hb_size (hblk h x) \<and> hb_free (hblk h' x) = hb_free (hblk h x)"
    and "htile (hblk h') b e ts"
  shows "htile (hblk h') (heap_start h) e (pre @ ts)"
proof -
  have "htile (hblk h') (heap_start h) b pre" by (rule htile_cong [OF _ assms(1)]) (use assms(3) in auto)
  then show ?thesis using assms(2,4) by (simp add: htile_append)
qed

lemma hfree_low: "x \<in> set (hfree a ts) \<Longrightarrow> x < a + hspan ts"
  using bfree_range [of x HEAP_HEADER a ts] by simp

lemma hfree_high: "x \<in> set (hfree a ts) \<Longrightarrow> a \<le> x"
  using bfree_range [of x HEAP_HEADER a ts] by simp

lemma absorb_next:
  assumes g: "good h (pre @ (s, True) # (s2, True) # post)" and b: "b = heap_start h + hspan pre"
    and c: "c = b + HEAP_HEADER + s"
  shows "good (set_next b (hb_next (hblk h c)) (set_size b (s + (HEAP_HEADER + s2)) h)) (pre @ (s + HEAP_HEADER + s2, True) # post)"
    (is "good ?h _")
proof -
  note r = good_read [OF g b]
  have t: "hb_size (hblk h c) = s2" "16 dvd s2" "htile (hblk h) (c + HEAP_HEADER + s2) (heap_end h) post" using r(8) c by auto
  have "htile (hblk ?h) (b + HEAP_HEADER + (s + HEAP_HEADER + s2)) (heap_end h) post"
    by (rule htile_cong [of _ _ _ "hblk h"]) (use t(3) c in \<open>auto simp: add_ac\<close>)
  then have "htile (hblk ?h) b (heap_end h) ((s + HEAP_HEADER + s2, True) # post)" using r(2-4) t(2) by simp
  then have T: "htile (hblk ?h) (heap_start h) (heap_end h) (pre @ (s + HEAP_HEADER + s2, True) # post)"
    by (rule htile_replace [OF r(7) b, rotated]) simp
  let ?xs = "hfree (heap_start h) pre" and ?ys = "hfree (c + HEAP_HEADER + s2) post"
  have fl: "hfree (heap_start h) (pre @ (s, True) # (s2, True) # post) = ?xs @ b # c # ?ys"
    using b c by (simp add: add_ac)
  have "chain (nxt h) (heap_free_head h) (?xs @ b # c # ?ys)" using g unfolding good_def fl by blast
  then have "seg (nxt h) (heap_free_head h) ?xs b" "nxt h b = c" "chain (nxt h) (nxt h c) ?ys" unfolding chain_seg by auto
  moreover have "b \<notin> set ?xs" "b \<notin> set ?ys" using hfree_low [of b "heap_start h" pre] hfree_high [of b "c + HEAP_HEADER + s2" post] b c by auto
  ultimately have C: "chain (nxt ?h) (heap_free_head ?h) (?xs @ b # ?ys)" using r(6) by (simp add: chain_seg) (simp add: nxt_def)
  have f: "hfree (heap_start h) (pre @ (s + HEAP_HEADER + s2, True) # post) = ?xs @ b # ?ys" using b c by (simp add: add_ac)
  have e: "heap_start ?h = heap_start h" "heap_end ?h = heap_end h" by (simp_all add: set_next_def set_size_def)
  show ?thesis unfolding good_def e f using T C g by (simp add: good_def)
qed

text \<open>Linking a used block into the free list, before any merging.\<close>

lemma link_used:
  assumes g: "good h (pre @ (s, False) # post)" and b: "b = heap_start h + hspan pre"
  defines "h1 \<equiv> set_next b 0 (set_flag b True h)"
  shows "\<exists>prev cur. insert_pos h1 b 0 (heap_free_head h1) = Some (prev, cur) \<and>
    good (link_block prev b (set_next b cur h1)) (pre @ (s, True) # post) \<and>
    prev = last (0 # hfree (heap_start h) pre) \<and> cur = hd (hfree (b + HEAP_HEADER + s) post @ [0])"
proof -
  note r = good_read [OF g b]
  let ?xs = "hfree (heap_start h) pre" and ?ys = "hfree (b + HEAP_HEADER + s) post"
  have fl: "hfree (heap_start h) (pre @ (s, False) # post) = ?xs @ ?ys" using b by (simp add: add_ac)
  have "chain (nxt h) (heap_free_head h) (?xs @ ?ys)" using g unfolding good_def fl by blast
  then obtain c where c: "seg (nxt h) (heap_free_head h) ?xs c" "chain (nxt h) c ?ys" unfolding chain_seg by blast
  have cc: "c = hd (?ys @ [0])" using c(2) by (cases ?ys) auto
  have low: "x < b" if "x \<in> set ?xs" for x using hfree_low [OF that] b by simp
  have high: "b < x" if "x \<in> set ?ys" for x using hfree_high [OF that] by simp
  have nb: "b \<notin> set ?xs" "b \<notin> set ?ys" using low high by blast+
  have s1: "seg (nxt h1) (heap_free_head h1) ?xs c" using c(1) nb(1) by (simp add: h1_def)
  have "c \<noteq> 0 \<longrightarrow> b \<le> c" using cc high [of c] by (cases ?ys) auto
  then have ip: "insert_pos h1 b 0 (heap_free_head h1) = Some (last (0 # ?xs), c)"
    using insert_pos_seg [OF s1] low by blast
  let ?h2 = "set_next b c h1" and ?h3 = "link_block (last (0 # ?xs)) b (set_next b c h1)"
  have s2: "seg (nxt ?h3) (heap_free_head ?h3) ?xs b" by (rule link_block_seg) (use s1 nb(1) hfree_distinct in \<open>auto simp: h1_def\<close>)
  have n: "nxt ?h3 b = c" using link_block_nxt [OF nb(1)] by simp
  have "nxt ?h3 x = nxt h x" if "x \<in> set ?ys" for x
    using link_block_nxt [of x ?xs b ?h2] low high [OF that] by (fastforce simp: h1_def)
  then have "chain (nxt ?h3) c ?ys" using c(2) chain_cong [of ?ys "nxt ?h3" "nxt h" c] by simp
  then have ch: "chain (nxt ?h3) (heap_free_head ?h3) (?xs @ b # ?ys)" using s2 n r(6) by (auto simp: chain_seg)
  have "htile (hblk ?h3) (b + HEAP_HEADER + s) (heap_end h) post"
    by (rule htile_cong [OF _ r(8)]) (auto simp: link_block_hblk h1_def)
  then have "htile (hblk ?h3) b (heap_end h) ((s, True) # post)" using r by (simp add: link_block_hblk h1_def)
  then have "htile (hblk ?h3) (heap_start h) (heap_end h) (pre @ (s, True) # post)"
    by (rule htile_replace [OF r(7) b, rotated]) (simp add: link_block_hblk h1_def)
  moreover have e: "heap_start ?h3 = heap_start h" "heap_end ?h3 = heap_end h"
    by (auto simp: h1_def set_next_def set_flag_def link_block_def)
  have f: "hfree (heap_start h) (pre @ (s, True) # post) = ?xs @ b # ?ys" using b by (simp add: add_ac)
  ultimately have "good ?h3 (pre @ (s, True) # post)" unfolding good_def e f using ch g by (simp add: good_def)
  then show ?thesis using ip cc by blast
qed

lemma hfree_mem: "x \<in> set (hfree a ts) \<Longrightarrow> \<exists>pre s post. ts = pre @ (s, True) # post \<and> x = a + hspan pre"
proof (induction ts arbitrary: a)
  case (Cons t ts)
  consider "snd t" "x = a" | "x \<in> set (hfree (a + HEAP_HEADER + fst t) ts)" using Cons.prems by (auto split: if_splits)
  then show ?case
  proof cases
    case 1
    then show ?thesis by (intro exI [of _ "[]"] exI [of _ "fst t"] exI [of _ ts]) (cases t, auto)
  next
    case 2
    then obtain pre s post where "ts = pre @ (s, True) # post" "x = a + HEAP_HEADER + fst t + hspan pre" using Cons.IH by blast
    then show ?thesis by (intro exI [of _ "t # pre"] exI [of _ s] exI [of _ post]) simp
  qed
qed simp

text \<open>Blocks after merging the free block at position \<open>pre\<close> with its neighbours.\<close>

definition merge_right :: "nat \<Rightarrow> blocks \<Rightarrow> nat \<times> blocks" where
  "merge_right s post = (if post \<noteq> [] \<and> snd (hd post) then (s + HEAP_HEADER + fst (hd post), tl post) else (s, post))"

definition merged :: "blocks \<Rightarrow> nat \<Rightarrow> blocks \<Rightarrow> blocks" where
  "merged pre s post =
    (if pre \<noteq> [] \<and> snd (last pre)
     then butlast pre @ (fst (last pre) + HEAP_HEADER + fst (merge_right s post), True) # snd (merge_right s post)
     else pre @ (fst (merge_right s post), True) # snd (merge_right s post))"

lemma free_list_insert_blocks:
  assumes g: "good h (pre @ (s, False) # post)" and b: "b = heap_start h + hspan pre"
  shows "\<exists>h'. free_list_insert b h = Some h' \<and> good h' (merged pre s post) \<and> same_rest h h' \<and> heap_live_payload h' = heap_live_payload h"
proof -
  let ?h1 = "set_next b 0 (set_flag b True h)"
  obtain prev cur where L: "insert_pos ?h1 b 0 (heap_free_head ?h1) = Some (prev, cur)"
    "good (link_block prev b (set_next b cur ?h1)) (pre @ (s, True) # post)"
    "prev = last (0 # hfree (heap_start h) pre)" "cur = hd (hfree (b + HEAP_HEADER + s) post @ [0])"
    using link_used [OF g b] by blast
  define h2 where "h2 = link_block prev b (set_next b cur ?h1)"
  have st: "heap_start h2 = heap_start h" by (auto simp: h2_def set_next_def set_flag_def link_block_def)
  have b2: "b = heap_start h2 + hspan pre" using b st by simp
  note r2 = good_read [OF L(2) [folded h2_def] b2]
  define h3 where "h3 = (if cur \<noteq> 0 \<and> block_end h2 b = cur
        then set_next b (hb_next (hblk h2 cur)) (set_size b (hb_size (hblk h2 b) + (HEAP_HEADER + hb_size (hblk h2 cur))) h2) else h2)"
  have be: "block_end h2 b = b + HEAP_HEADER + s" using r2(1) by (simp add: block_end_def)
  have g3: "good h3 (pre @ (fst (merge_right s post), True) # snd (merge_right s post))"
  proof (cases "post \<noteq> [] \<and> snd (hd post)")
    case True
    then obtain s2 rest where post: "post = (s2, True) # rest" by (cases post) auto
    then have cur: "cur = b + HEAP_HEADER + s" using L(4) by simp
    have "hb_size (hblk h2 cur) = s2" using r2(8) post cur by simp
    then have "h3 = set_next b (hb_next (hblk h2 cur)) (set_size b (s + (HEAP_HEADER + s2)) h2)"
      using cur be r2(1) by (simp add: h3_def)
    then show ?thesis using absorb_next [OF _ b2 cur, of s2 rest] L(2) post by (simp add: h2_def merge_right_def)
  next
    case False
    have "cur \<noteq> 0 \<Longrightarrow> cur \<noteq> b + HEAP_HEADER + s"
    proof (cases post)
      case (Cons t rest)
      then have "cur \<noteq> 0 \<Longrightarrow> cur \<in> set (hfree (b + HEAP_HEADER + s + HEAP_HEADER + fst t) rest)"
        using L(4) False by (cases "hfree (b + HEAP_HEADER + s + HEAP_HEADER + fst t) rest") auto
      then show "cur \<noteq> 0 \<Longrightarrow> cur \<noteq> b + HEAP_HEADER + s" using hfree_high by fastforce
    qed (use L(4) in simp)
    then have "h3 = h2" using be by (auto simp: h3_def)
    then show ?thesis using L(2) False by (auto simp: h2_def merge_right_def)
  qed
  have st3: "heap_start h3 = heap_start h" using st by (simp add: h3_def set_next_def set_size_def)
  have b3: "b = heap_start h3 + hspan pre" using b st3 by simp
  define h4 where "h4 = (if prev \<noteq> 0 \<and> block_end h3 prev = b
        then set_next prev (hb_next (hblk h3 b)) (set_size prev (hb_size (hblk h3 prev) + (HEAP_HEADER + hb_size (hblk h3 b))) h3) else h3)"
  let ?s = "fst (merge_right s post)" and ?post = "snd (merge_right s post)"
  have g4: "good h4 (merged pre s post)"
  proof (cases "pre \<noteq> [] \<and> snd (last pre)")
    case True
    then obtain q s0 where pre: "pre = q @ [(s0, True)]" by (cases pre rule: rev_cases) auto
    then have prev: "prev = heap_start h3 + hspan q" using L(3) st3 by simp
    have g3': "good h3 (q @ (s0, True) # (?s, True) # ?post)" using g3 pre by simp
    note r3 = good_read [OF g3' prev]
    have bb: "b = prev + HEAP_HEADER + s0" using b3 prev pre by simp
    have "hb_size (hblk h3 b) = ?s" using good_read(1) [OF g3 b3] .
    then have "h4 = set_next prev (hb_next (hblk h3 b)) (set_size prev (s0 + (HEAP_HEADER + ?s)) h3)"
      using r3(1,6) bb by (simp add: h4_def block_end_def)
    then show ?thesis using absorb_next [OF g3' prev bb] pre by (simp add: merged_def)
  next
    case False
    have "prev \<noteq> 0 \<Longrightarrow> block_end h3 prev \<noteq> b"
    proof (cases pre rule: rev_cases)
      case (snoc q t)
      assume "prev \<noteq> 0"
      have f: "\<not> snd t" using False snoc by simp
      then have "prev \<in> set (hfree (heap_start h) q)"
        using L(3) snoc \<open>prev \<noteq> 0\<close> by (auto split: if_splits)
      then obtain q1 u q2 where q: "q = q1 @ (u, True) # q2" "prev = heap_start h3 + hspan q1" using hfree_mem st3 by metis
      have "good h3 (q1 @ (u, True) # q2 @ t # (?s, True) # ?post)" using g3 snoc q(1) by simp
      then have "hb_size (hblk h3 prev) = u" using good_read(1) q(2) by blast
      then show ?thesis using b3 snoc q by (simp add: block_end_def)
    qed (use L(3) in simp)
    then have "h4 = h3" by (auto simp: h4_def)
    then show ?thesis using g3 False by (auto simp: merged_def)
  qed
  have "free_list_insert b h = Some h4"
    unfolding free_list_insert_def Let_def L(1) h4_def h3_def h2_def by (simp only: bind.bind_lunit prod.case)
  moreover have "same_rest h h4" "heap_live_payload h4 = heap_live_payload h" by (auto simp: h4_def h3_def h2_def)
  ultimately show ?thesis using g4 by blast
qed

text \<open>Blocks after taking a free block of \<open>s\<close> bytes for \<open>need\<close>.\<close>

definition taken_blocks :: "nat \<Rightarrow> nat \<Rightarrow> blocks" where
  "taken_blocks need s = (if need + HEAP_HEADER + 16 \<le> s then [(need, False), (s - need - HEAP_HEADER, True)] else [(s, False)])"

lemma take_block_blocks:
  assumes g: "good h (pre @ (s, True) # post)" and b: "b = heap_start h + hspan pre"
    and need: "16 dvd need" "16 \<le> need" "need \<le> s" and prev: "prev = last (0 # hfree (heap_start h) pre)"
  shows "\<exists>h'. take_block need prev b h = (b + HEAP_HEADER, h') \<and> good h' (pre @ taken_blocks need s @ post) \<and> same_rest h h' \<and>
    heap_live_payload h' = wrap64 (heap_live_payload h + fst (hd (taken_blocks need s)))"
proof -
  note r = good_read [OF g b]
  let ?xs = "hfree (heap_start h) pre" and ?ys = "hfree (b + HEAP_HEADER + s) post"
  have fl: "hfree (heap_start h) (pre @ (s, True) # post) = ?xs @ b # ?ys" using b by (simp add: add_ac)
  have "chain (nxt h) (heap_free_head h) (?xs @ b # ?ys)" using g unfolding good_def fl by blast
  then have c: "seg (nxt h) (heap_free_head h) ?xs b" "chain (nxt h) (nxt h b) ?ys" unfolding chain_seg by auto
  have low: "x < b" if "x \<in> set ?xs" for x using hfree_low [OF that] b by simp
  have high: "b + HEAP_HEADER + s \<le> x" if "x \<in> set ?ys" for x using hfree_high [OF that] .
  have nb: "b \<notin> set ?xs" using low by blast
  show ?thesis
  proof (cases "need + HEAP_HEADER + 16 \<le> s")
    case True
    define m where "m = b + HEAP_HEADER + need"
    define h1 where "h1 = set_size b need (set_next m (nxt h b) (set_flag m True (set_size m (s - need - HEAP_HEADER) h)))"
    define h2 where "h2 = set_next b 0 (set_flag b False (link_block prev m h1))"
    have mb: "m \<noteq> b" "m \<notin> set ?xs" using low [of m] by (auto simp: m_def)
    have T: "take_block need prev b h = (b + HEAP_HEADER, h2\<lparr>heap_live_payload := wrap64 (heap_live_payload h + need)\<rparr>)"
      using True r(1) mb(1) by (simp add: take_block_def Let_def h2_def h1_def m_def nxt_def link_block_hblk)
    have s1: "seg (nxt h1) (heap_free_head h1) ?xs b" using c(1) mb(2) by (simp add: h1_def)
    have "seg (nxt (link_block prev m h1)) (heap_free_head (link_block prev m h1)) ?xs m"
      unfolding prev by (rule link_block_seg [OF s1 hfree_distinct])
    then have s2: "seg (nxt h2) (heap_free_head h2) ?xs m" using nb by (simp add: h2_def)
    have n2: "nxt h2 m = nxt h b" using link_block_nxt [OF mb(2), of m h1] mb(1) by (simp add: h2_def h1_def prev)
    have "nxt h2 x = nxt h x" if "x \<in> set ?ys" for x
    proof -
      have "x \<notin> set ?xs" "x \<noteq> b" "x \<noteq> m" using low [of x] high [OF that] True by (auto simp: m_def)
      then show ?thesis using link_block_nxt [of x ?xs m h1] by (simp add: h2_def h1_def prev)
    qed
    then have "chain (nxt h2) (nxt h b) ?ys" using c(2) chain_cong [of ?ys "nxt h2" "nxt h"] by simp
    then have ch: "chain (nxt h2) (heap_free_head h2) (?xs @ m # ?ys)" using s2 n2 by (auto simp: chain_seg m_def)
    have e: "heap_start h2 = heap_start h" "heap_end h2 = heap_end h"
      by (auto simp: h2_def h1_def set_next_def set_flag_def set_size_def link_block_def)
    have f: "m + HEAP_HEADER + (s - need - HEAP_HEADER) = b + HEAP_HEADER + s" using True by (simp add: m_def)
    have "htile (hblk h2) (m + HEAP_HEADER + (s - need - HEAP_HEADER)) (heap_end h) post"
      unfolding f by (rule htile_cong [OF _ r(8)]) (use True in \<open>auto simp: link_block_hblk h2_def h1_def m_def\<close>)
    moreover have "16 dvd s - need - HEAP_HEADER" using need(1) r(3) by (intro dvd_diff_nat) auto
    ultimately have "htile (hblk h2) b (heap_end h) ([(need, False), (s - need - HEAP_HEADER, True)] @ post)"
      using mb(1) need(1,2) True by (simp add: link_block_hblk h2_def h1_def m_def)
    then have "htile (hblk h2) (heap_start h) (heap_end h) (pre @ taken_blocks need s @ post)"
      unfolding taken_blocks_def if_P [OF True]
      by (rule htile_replace [OF r(7) b, rotated]) (simp add: link_block_hblk h2_def h1_def m_def)
    moreover have "hfree (heap_start h) (pre @ taken_blocks need s @ post) = ?xs @ m # ?ys"
      unfolding taken_blocks_def if_P [OF True] bfree_append b [symmetric] using f by (simp add: m_def add.assoc)
    ultimately have "good (h2\<lparr>heap_live_payload := wrap64 (heap_live_payload h + need)\<rparr>) (pre @ taken_blocks need s @ post)"
      using ch e g by (simp add: good_def)
    then show ?thesis using T True by (simp add: taken_blocks_def) (simp add: h2_def h1_def)
  next
    case False
    define h2 where "h2 = set_next b 0 (set_flag b False (link_block prev (nxt h b) h))"
    have T: "take_block need prev b h = (b + HEAP_HEADER, h2\<lparr>heap_live_payload := wrap64 (heap_live_payload h + s)\<rparr>)"
      using False r(1) by (simp add: take_block_def Let_def h2_def nxt_def link_block_hblk)
    have "seg (nxt (link_block prev (nxt h b) h)) (heap_free_head (link_block prev (nxt h b) h)) ?xs (nxt h b)"
      unfolding prev by (rule link_block_seg [OF c(1) hfree_distinct])
    then have s2: "seg (nxt h2) (heap_free_head h2) ?xs (nxt h b)" using nb by (simp add: h2_def)
    have "nxt h2 x = nxt h x" if "x \<in> set ?ys" for x
    proof -
      have "x \<notin> set ?xs" "x \<noteq> b" using low [of x] high [OF that] by auto
      then show ?thesis using link_block_nxt [of x ?xs "nxt h b" h] by (simp add: h2_def prev)
    qed
    then have "chain (nxt h2) (nxt h b) ?ys" using c(2) chain_cong [of ?ys "nxt h2" "nxt h"] by simp
    then have ch: "chain (nxt h2) (heap_free_head h2) (?xs @ ?ys)" using s2 by (auto simp: chain_seg)
    have e: "heap_start h2 = heap_start h" "heap_end h2 = heap_end h" by (auto simp: h2_def set_next_def set_flag_def link_block_def)
    have "htile (hblk h2) (b + HEAP_HEADER + s) (heap_end h) post"
      by (rule htile_cong [OF _ r(8)]) (auto simp: link_block_hblk h2_def)
    then have "htile (hblk h2) b (heap_end h) ([(s, False)] @ post)" using r by (simp add: link_block_hblk h2_def)
    then have "htile (hblk h2) (heap_start h) (heap_end h) (pre @ taken_blocks need s @ post)"
      unfolding taken_blocks_def if_not_P [OF False] by (rule htile_replace [OF r(7) b, rotated]) (simp add: link_block_hblk h2_def)
    moreover have "hfree (heap_start h) (pre @ taken_blocks need s @ post) = ?xs @ ?ys" using False b by (simp add: taken_blocks_def)
    ultimately have "good (h2\<lparr>heap_live_payload := wrap64 (heap_live_payload h + s)\<rparr>) (pre @ taken_blocks need s @ post)"
      using ch e g by (simp add: good_def)
    then show ?thesis using T False by (simp add: taken_blocks_def) (simp add: h2_def)
  qed
qed

lemma alloc_from_blocks:
  assumes "good h (pre @ rest)"
  shows "(\<exists>q s post. rest = q @ (s, True) # post \<and> need \<le> s \<and>
      alloc_from need h (last (0 # hfree (heap_start h) pre)) (hd (hfree (heap_start h + hspan pre) rest @ [0])) =
        Some (take_block need (last (0 # hfree (heap_start h) (pre @ q))) (heap_start h + hspan (pre @ q)) h))
    \<or> (\<forall>t \<in> set rest. snd t \<longrightarrow> fst t < need) \<and>
      alloc_from need h (last (0 # hfree (heap_start h) pre)) (hd (hfree (heap_start h + hspan pre) rest @ [0])) = Some (0, h)"
  using assms
proof (induction rest arbitrary: pre)
  case Nil
  then show ?case by (simp add: alloc_from.simps)
next
  case (Cons t rest)
  let ?b = "heap_start h + hspan pre"
  let ?prev = "last (0 # hfree (heap_start h) pre)"
  have g': "good h ((pre @ [t]) @ rest)" and g: "good h (pre @ (fst t, snd t) # rest)" using Cons.prems by simp_all
  note r = good_read [OF g refl] and IH = Cons.IH [OF g']
  have sp: "heap_start h + hspan (pre @ [t]) = ?b + HEAP_HEADER + fst t" by simp
  have lift: "\<exists>q s post. t # rest = q @ (s, True) # post \<and> need \<le> s \<and> X = Some (take_block need (last (0 # hfree (heap_start h) (pre @ q))) (heap_start h + hspan (pre @ q)) h)"
    if a: "\<exists>q s post. rest = q @ (s, True) # post \<and> need \<le> s \<and> X = Some (take_block need (last (0 # hfree (heap_start h) ((pre @ [t]) @ q))) (heap_start h + hspan ((pre @ [t]) @ q)) h)" for X
  proof -
    obtain q s post where "rest = q @ (s, True) # post" "need \<le> s"
      "X = Some (take_block need (last (0 # hfree (heap_start h) ((pre @ [t]) @ q))) (heap_start h + hspan ((pre @ [t]) @ q)) h)" using a by blast
    then show ?thesis by (intro exI [of _ "t # q"] exI [of _ s] exI [of _ post]) simp
  qed
  show ?case
  proof (cases "snd t")
    case False
    then have e: "hfree (heap_start h) (pre @ [t]) = hfree (heap_start h) pre" "hfree ?b (t # rest) = hfree (?b + HEAP_HEADER + fst t) rest" by simp_all
    show ?thesis
      by (rule disjE [OF IH [unfolded e(1) sp]]; unfold e(2); (rule disjI1, erule lift | rule disjI2, use False in simp))
  next
    case True
    then have e: "hfree (heap_start h) (pre @ [t]) = hfree (heap_start h) pre @ [?b]" "hfree ?b (t # rest) = ?b # hfree (?b + HEAP_HEADER + fst t) rest" by simp_all
    show ?thesis
    proof (cases "need \<le> fst t")
      case fits: True
      have "alloc_from need h ?prev ?b = Some (take_block need ?prev ?b h)"
        unfolding alloc_from.simps [of need h ?prev ?b] by (simp only: r(1,6) fits if_False if_True)
      then show ?thesis using True fits e(2)
        by (intro disjI1 exI [of _ "[]"] exI [of _ "fst t"] exI [of _ rest]) (cases t, simp)
    next
      case small: False
      have "chain (nxt h) (heap_free_head h) (hfree (heap_start h) (pre @ [t]) @ hfree (?b + HEAP_HEADER + fst t) rest)"
        using g' unfolding good_def bfree_append sp by blast
      then obtain q where "seg (nxt h) (heap_free_head h) (hfree (heap_start h) pre @ [?b]) q" "chain (nxt h) q (hfree (?b + HEAP_HEADER + fst t) rest)"
        unfolding e chain_seg by blast
      then have nx: "nxt h ?b = hd (hfree (?b + HEAP_HEADER + fst t) rest @ [0])"
        using seg_snoc by (cases "hfree (?b + HEAP_HEADER + fst t) rest") auto
      have "alloc_from need h ?prev ?b = alloc_from need h ?b (nxt h ?b)"
        unfolding alloc_from.simps [of need h ?prev ?b] nxt_def by (simp only: r(1,6) small if_False)
      then have a: "alloc_from need h ?prev (hd (hfree ?b (t # rest) @ [0])) =
          alloc_from need h (last (0 # hfree (heap_start h) pre @ [?b])) (hd (hfree (?b + HEAP_HEADER + fst t) rest @ [0]))"
        unfolding e(2) nx by simp
      show ?thesis
        by (rule disjE [OF IH [unfolded e(1) sp]]; unfold a; (rule disjI1, erule lift | rule disjI2, use small in simp))
    qed
  qed
qed

section \<open>The invariant of the heap\<close>

definition used :: "blocks \<Rightarrow> nat" where
  "used ts = sum_list (map fst (filter (\<lambda>t. \<not> snd t) ts))"

abbreviation apart :: "nat \<times> bool \<Rightarrow> nat \<times> bool \<Rightarrow> bool" where
  "apart a b \<equiv> \<not> (snd a \<and> snd b)"

definition heap_ok :: "paddr \<Rightarrow> paddr set \<Rightarrow> heap \<Rightarrow> blocks \<Rightarrow> bool" where
  "heap_ok boot R h ts \<longleftrightarrow> good h ts \<and> successively apart ts \<and> heap_live_payload h = used ts
    \<and> heap_start h = KERNEL_HEAP_BASE \<and> PAGE_SIZE dvd heap_end h \<and> heap_end h \<le> KERNEL_HEAP_MAX
    \<and> vm_inv R (heap_vm h) \<and> boot \<in> R
    \<and> (\<forall>va. heap_start h \<le> va \<and> va < heap_end h \<and> va mod PAGE_SIZE = 0 \<longrightarrow> view (heap_vm h) boot va \<noteq> None)"

lemma used_simps [simp]: "used [] = 0" "used (t # ts) = (if snd t then 0 else fst t) + used ts" "used (xs @ ys) = used xs + used ys"
  by (simp_all add: used_def)

lemma used_le: "used ts \<le> hspan ts"
  by (induction ts) auto

lemma heap_ok_bound: "heap_ok boot R h ts \<Longrightarrow> hspan ts \<le> 0x10000000"
  using htile_end [of "hblk h" "heap_start h" "heap_end h" ts] by (auto simp: heap_ok_def good_def)

lemma same_rest_ok:
  assumes "heap_ok boot R h ts" "same_rest h h'" "good h' ts'" "successively apart ts'" "heap_live_payload h' = used ts'"
  shows "heap_ok boot R h' ts'"
  using assms by (simp add: heap_ok_def same_rest_def)

text \<open>Merging and taking on the list of blocks.\<close>

lemma merge_right_props:
  assumes "successively apart post"
  shows "hlive (a + HEAP_HEADER + fst (merge_right s post)) (snd (merge_right s post)) = hlive (a + HEAP_HEADER + s) post"
    "used (snd (merge_right s post)) = used post" "successively apart (snd (merge_right s post))"
    "snd (merge_right s post) \<noteq> [] \<Longrightarrow> \<not> snd (hd (snd (merge_right s post)))"
  using assms by (cases post; cases "tl post"; auto simp: merge_right_def add.assoc split: if_splits)+

lemma merged_props:
  assumes "successively apart pre" "successively apart post"
  shows "hlive a (merged pre s post) = hlive a pre \<union> hlive (a + hspan pre + HEAP_HEADER + s) post"
    "used (merged pre s post) = used pre + used post" "successively apart (merged pre s post)"
proof -
  note r = merge_right_props [OF assms(2)]
  let ?s = "fst (merge_right s post)" and ?post = "snd (merge_right s post)"
  have right: "successively apart ((x, True) # ?post)" for x using r(3,4) [of s] by (cases ?post) auto
  consider "pre \<noteq> []" "snd (last pre)" | "\<not> (pre \<noteq> [] \<and> snd (last pre))" by blast
  then have "hlive a (merged pre s post) = hlive a pre \<union> hlive (a + hspan pre + HEAP_HEADER + s) post \<and>
    used (merged pre s post) = used pre + used post \<and> successively apart (merged pre s post)"
  proof cases
    case 1
    then obtain q s0 where pre: "pre = q @ [(s0, True)]" by (cases pre rule: rev_cases) auto
    have m: "merged pre s post = q @ (s0 + HEAP_HEADER + ?s, True) # ?post" using pre by (simp add: merged_def)
    have q: "successively apart q" "q \<noteq> [] \<Longrightarrow> \<not> snd (last q)" using assms(1) pre by (auto simp: successively_append_iff)
    have e: "a + hspan q + HEAP_HEADER + (s0 + HEAP_HEADER + ?s) = a + hspan pre + HEAP_HEADER + ?s" using pre by simp
    have "hlive a (merged pre s post) = hlive a q \<union> hlive (a + hspan pre + HEAP_HEADER + s) post"
      unfolding m blive_append blive.simps fst_conv snd_conv e r(1) by simp
    then show ?thesis using m pre q right r(2) by (auto simp: successively_append_iff)
  next
    case 2
    then have m: "merged pre s post = pre @ (?s, True) # ?post" by (simp only: merged_def if_False)
    have "hlive a (merged pre s post) = hlive a pre \<union> hlive (a + hspan pre + HEAP_HEADER + s) post"
      unfolding m blive_append blive.simps fst_conv snd_conv r(1) by simp
    then show ?thesis using m 2 assms(1) right r(2) by (auto simp: successively_append_iff)
  qed
  then show "hlive a (merged pre s post) = hlive a pre \<union> hlive (a + hspan pre + HEAP_HEADER + s) post"
    "used (merged pre s post) = used pre + used post" "successively apart (merged pre s post)" by blast+
qed

lemma taken_props:
  assumes "successively apart (pre @ (s, True) # post)" "need \<le> s"
  shows "successively apart (pre @ taken_blocks need s @ post)"
    "hlive a (pre @ taken_blocks need s @ post) = insert (a + hspan pre + HEAP_HEADER, fst (hd (taken_blocks need s))) (hlive a (pre @ (s, True) # post))"
    "used (pre @ taken_blocks need s @ post) = used (pre @ (s, True) # post) + fst (hd (taken_blocks need s))"
    "need \<le> fst (hd (taken_blocks need s))"
proof -
  have p: "successively apart pre" "successively apart post" "post \<noteq> [] \<Longrightarrow> \<not> snd (hd post)"
    using assms(1) by (cases post; auto simp: successively_append_iff)+
  show "successively apart (pre @ taken_blocks need s @ post)"
    using p by (cases post) (auto simp: taken_blocks_def successively_append_iff)
  have "a + hspan pre + HEAP_HEADER + need + HEAP_HEADER + (s - need - HEAP_HEADER) = a + hspan pre + HEAP_HEADER + s"
    if "need + HEAP_HEADER + 16 \<le> s" using that by simp
  then show "hlive a (pre @ taken_blocks need s @ post) = insert (a + hspan pre + HEAP_HEADER, fst (hd (taken_blocks need s))) (hlive a (pre @ (s, True) # post))"
    by (cases "need + HEAP_HEADER + 16 \<le> s") (simp_all add: taken_blocks_def add_ac)
qed (use assms(2) in \<open>auto simp: taken_blocks_def\<close>)

lemma heap_need_ok: "16 dvd heap_need sz" "16 \<le> heap_need sz" "sz + 15 < two64 \<Longrightarrow> sz \<le> heap_need sz"
proof -
  have d: "16 dvd align_up 16 sz" by simp
  then show "16 dvd heap_need sz" "16 \<le> heap_need sz" by (auto simp: heap_need_def Let_def simp del: align_up_dvd)
  assume "sz + 15 < two64"
  then show "sz \<le> heap_need sz" using align_up_ge [of 16 sz] by (auto simp: heap_need_def Let_def)
qed

lemma alloc_from_list_ok:
  assumes ok: "heap_ok boot R h ts" and need: "16 dvd need" "16 \<le> need"
  shows "\<exists>p h' ts'. alloc_from_list need h = Some (p, h') \<and> heap_ok boot R h' ts' \<and> same_rest h h' \<and>
    (if p = 0 then h' = h \<and> ts' = ts \<and> (\<forall>t \<in> set ts. snd t \<longrightarrow> fst t < need)
     else 16 dvd p \<and> (\<forall>k. (p, k) \<notin> hlive (heap_start h) ts) \<and> (\<exists>n \<ge> need. hlive (heap_start h) ts' = insert (p, n) (hlive (heap_start h) ts)))"
proof -
  have g: "good h ts" and st: "heap_start h = KERNEL_HEAP_BASE" using ok by (auto simp: heap_ok_def)
  have hd: "heap_free_head h = hd (hfree (heap_start h) ts @ [0])" using g unfolding good_def by (cases "hfree (heap_start h) ts") auto
  have A: "(\<exists>q s post. ts = q @ (s, True) # post \<and> need \<le> s \<and>
      alloc_from_list need h = Some (take_block need (last (0 # hfree (heap_start h) q)) (heap_start h + hspan q) h))
    \<or> (\<forall>t \<in> set ts. snd t \<longrightarrow> fst t < need) \<and> alloc_from_list need h = Some (0, h)"
    using alloc_from_blocks [of h "[]" ts need] g hd unfolding alloc_from_list_def by simp
  then show ?thesis
  proof (elim disjE exE conjE)
    fix q s post assume q: "ts = q @ (s, True) # post" "need \<le> s"
      "alloc_from_list need h = Some (take_block need (last (0 # hfree (heap_start h) q)) (heap_start h + hspan q) h)"
    obtain h' where t: "take_block need (last (0 # hfree (heap_start h) q)) (heap_start h + hspan q) h = (heap_start h + hspan q + HEAP_HEADER, h')"
      "good h' (q @ taken_blocks need s @ post)" "same_rest h h'"
      "heap_live_payload h' = wrap64 (heap_live_payload h + fst (hd (taken_blocks need s)))"
      using take_block_blocks [OF _ refl need q(2) refl, of h q post] g q(1) by blast
    have sa: "successively apart (q @ (s, True) # post)" using ok q(1) by (simp add: heap_ok_def)
    note tp = taken_props [OF sa q(2)]
    have le: "fst (hd (taken_blocks need s)) \<le> s" using q(2) by (simp add: taken_blocks_def)
    have "used (q @ taken_blocks need s @ post) \<le> used ts + s" using tp(3) le q(1) by simp
    also have "\<dots> \<le> hspan ts + hspan ts" using used_le [of ts] q(1) by simp
    finally have "used (q @ taken_blocks need s @ post) < two64" using heap_ok_bound [OF ok] by simp
    then have live: "heap_live_payload h' = used (q @ taken_blocks need s @ post)"
      using t(4) ok tp(3) q(1) by (simp add: heap_ok_def)
    have ok': "heap_ok boot R h' (q @ taken_blocks need s @ post)" using same_rest_ok [OF ok t(3,2) tp(1) live] .
    have "16 dvd hspan q" using htile_span_dvd g unfolding good_def q(1) htile_append by blast
    then have "16 dvd heap_start h + hspan q + HEAP_HEADER" using st by simp
    moreover have "(heap_start h + hspan q + HEAP_HEADER, k) \<notin> hlive (heap_start h) ts" for k
      using q(1) blive_range [of "heap_start h + hspan q + HEAP_HEADER" k HEAP_HEADER "heap_start h" q]
        blive_range [of "heap_start h + hspan q + HEAP_HEADER" k HEAP_HEADER "heap_start h + hspan q + HEAP_HEADER + s" post] by auto
    ultimately show ?thesis using q(1,3) t(1,3) ok' tp(2) [of "heap_start h"] tp(4)
      by (intro exI [of _ "heap_start h + hspan q + HEAP_HEADER"] exI [of _ h'] exI [of _ "q @ taken_blocks need s @ post"]) auto
  next
    assume "\<forall>t \<in> set ts. snd t \<longrightarrow> fst t < need" "alloc_from_list need h = Some (0, h)"
    then show ?thesis using ok by (intro exI [of _ 0] exI [of _ h] exI [of _ ts]) simp
  qed
qed

text \<open>Mapping new pages at the end of the heap.\<close>

lemma grow_pages_ok:
  assumes "vm_inv R s" "boot \<in> R" "base mod PAGE_SIZE = 0" "KERNEL_VA_BASE \<le> base" "grow_pages boot base n i s = (m, s')"
    and "i = 0 \<or> base + i * PAGE_SIZE \<le> KERNEL_HEAP_MAX"
  shows "vm_inv R s' \<and> i \<le> m \<and> m \<le> i + n \<and> (m = 0 \<or> base + m * PAGE_SIZE \<le> KERNEL_HEAP_MAX) \<and>
    (\<forall>r \<in> R. \<forall>va < 2 ^ 48. va mod PAGE_SIZE = 0 \<and> view s r va \<noteq> None \<longrightarrow> view s' r va = view s r va) \<and>
    (\<forall>j. i \<le> j \<and> j < m \<longrightarrow> view s' boot (base + j * PAGE_SIZE) \<noteq> None)"
  using assms
proof (induction n arbitrary: i s)
  case 0
  then show ?case by auto
next
  case (Suc n)
  define va where "va = base + i * PAGE_SIZE"
  obtain pa m1 where al: "pmm_alloc_page (vm_pmm s) = (pa, m1)" by (cases "pmm_alloc_page (vm_pmm s)")
  note ac = pmm.alloc_cases [OF vm_invD(1) [OF Suc.prems(1)] al]
  let ?s1 = "s\<lparr>vm_pmm := m1\<rparr>"
  have nodes: "a \<notin> free_addrs m1 \<and> a \<noteq> pa" if "pa \<noteq> 0" "r \<in> R" "vpath q" "node s r q = Some a" for r q a
    using vm_invD(2) [OF Suc.prems(1) that(2-4)] ac that(1) by auto
  have al': "vm_alloc_page s = (pa, ?s1)" by (simp add: vm_alloc_page_def al)
  show ?case
  proof (cases "KERNEL_HEAP_MAX < va + PAGE_SIZE \<or> pa = 0")
    case True
    then have "(m, s') = (i, s) \<or> (m, s') = (i, ?s1) \<and> pa = 0" using Suc.prems(5) al' by (auto simp: va_def Let_def split: if_splits)
    moreover have "?s1 = s" if "pa = 0" using ac that by simp
    ultimately have "m = i" "s' = s" by auto
    then show ?thesis using Suc.prems(1,6) by auto
  next
    case False
    then have pa: "pa \<noteq> 0" "pa \<in> free_addrs (vm_pmm s)" "pmm_ok m1" "free_addrs m1 = free_addrs (vm_pmm s) - {pa}" "PAGE_SIZE dvd pa"
      and vab: "va + PAGE_SIZE \<le> KERNEL_HEAP_MAX" using ac by auto
    have v1: "vm_inv R ?s1" "view ?s1 = view s" "node ?s1 = node s" using vm_inv_pmm [OF Suc.prems(1) pa(3)] nodes [OF pa(1)] by blast+
    obtain ok s2 where mp: "vmm_map (Some (vmm_kernel_space boot)) va pa (VM_PRESENT OR VM_WRITE) ?s1 = (ok, s2)" by fastforce
    have va: "va < 2 ^ 48" "va mod PAGE_SIZE = 0" "lower_bound (vmm_kernel_space boot) \<le> va"
      using vab Suc.prems(3,4) by (auto simp: va_def vmm_kernel_space_def lower_bound_def)
    have pab: "pa < 2 ^ 52" "pa mod PAGE_SIZE = 0" using free_addrs_bound [OF vm_invD(1) [OF Suc.prems(1)] pa(2)] pa(5) by auto
    have sp: "sp_pml4 (vmm_kernel_space boot) = boot" by (simp add: vmm_kernel_space_def)
    have M: "vm_inv R s2 \<and> grows R ?s1 s2 \<and> (ok \<longrightarrow> view ?s1 boot va = None) \<and> (\<forall>r' \<in> R. \<forall>va'. va' < 2 ^ 48 \<and> va' mod PAGE_SIZE = 0 \<longrightarrow>
        view s2 r' va' = (if ok \<and> va' = va \<and> (r' = boot \<or> idx_pml4 va = 0) then Some (pa, (VM_PRESENT OR VM_WRITE) AND 15) else view ?s1 r' va'))"
      using vmm_map_view [OF v1(1) _ va pab _ mp] Suc.prems(2) unfolding sp by simp
    have keep: "view s2 r x = view s r x" if "r \<in> R" "x < 2 ^ 48" "x mod PAGE_SIZE = 0" "view s r x \<noteq> None" for r x
    proof -
      have "view s2 r x = (if ok \<and> x = va \<and> (r = boot \<or> idx_pml4 va = 0) then Some (pa, (VM_PRESENT OR VM_WRITE) AND 15) else view s r x)"
        using conjunct2 [OF conjunct2 [OF conjunct2 [OF M]], rule_format, OF that(1) conjI [OF that(2,3)]] unfolding v1(2) .
      moreover have "\<not> (ok \<and> x = va \<and> (r = boot \<or> idx_pml4 va = 0))"
      proof
        assume a: "ok \<and> x = va \<and> (r = boot \<or> idx_pml4 va = 0)"
        then have "view s boot va = None" using M v1(2) by simp
        moreover have "view s r va = view s boot va"
          using a sees_node [OF Suc.prems(1,2) that(1), of "va_path va"] by (auto simp: sees_va view_def)
        ultimately show False using a that(4) by simp
      qed
      ultimately show ?thesis by simp
    qed
    show ?thesis
    proof (cases ok)
      case False
      let ?m2 = "snd (pmm_free_page pa (vm_pmm s2))"
      have R: "(m, s') = (i, s2\<lparr>vm_pmm := ?m2\<rparr>)"
        using Suc.prems(5) al' mp False \<open>\<not> (KERNEL_HEAP_MAX < va + PAGE_SIZE \<or> pa = 0)\<close> by (simp add: va_def Let_def vm_free_page_def)
      have rc: "pmm_ok ?m2" "free_addrs ?m2 \<subseteq> insert pa (free_addrs (vm_pmm s2))"
        using pmm.release_cases [OF vm_invD(1) [of R s2], of pa "fst (pmm_free_page pa (vm_pmm s2))" ?m2] M by (auto split: if_splits)
      have "a \<notin> free_addrs ?m2" if "r \<in> R" "vpath q" "node s2 r q = Some a" for r q a
      proof -
        have "a \<notin> free_addrs (vm_pmm s2)" using vm_invD(2) [of R s2 r q a] M that by blast
        moreover have "node ?s1 r q = Some a \<or> a \<in> free_addrs (vm_pmm ?s1)" using M that unfolding grows_def by blast
        then have "a \<noteq> pa" using nodes [OF pa(1) that(1,2), of a] v1(3) pa(4) by auto
        ultimately show ?thesis using rc(2) by blast
      qed
      then have "vm_inv R (s2\<lparr>vm_pmm := ?m2\<rparr>)" "view (s2\<lparr>vm_pmm := ?m2\<rparr>) = view s2" using vm_inv_pmm [of R s2 ?m2] M rc(1) by blast+
      then show ?thesis using R keep Suc.prems(6) by auto
    next
      case True
      have R: "grow_pages boot base n (i + 1) s2 = (m, s')"
        using Suc.prems(5) al' mp True \<open>\<not> (KERNEL_HEAP_MAX < va + PAGE_SIZE \<or> pa = 0)\<close> by (simp add: va_def Let_def)
      have b: "base + (i + 1) * PAGE_SIZE \<le> KERNEL_HEAP_MAX" using vab by (simp add: va_def)
      have IH: "vm_inv R s'" "i + 1 \<le> m" "m \<le> i + 1 + n" "m = 0 \<or> base + m * PAGE_SIZE \<le> KERNEL_HEAP_MAX"
        "\<forall>r \<in> R. \<forall>va < 2 ^ 48. va mod PAGE_SIZE = 0 \<and> view s2 r va \<noteq> None \<longrightarrow> view s' r va = view s2 r va"
        "\<forall>j. i + 1 \<le> j \<and> j < m \<longrightarrow> view s' boot (base + j * PAGE_SIZE) \<noteq> None"
        by (insert Suc.IH [OF conjunct1 [OF M] Suc.prems(2,3,4) R disjI2 [OF b]], (elim conjE, assumption)+)
      have "view s2 boot va \<noteq> None" using M True va Suc.prems(2) by simp
      then have here: "view s' boot va \<noteq> None" using IH(5) Suc.prems(2) va by auto
      have "view s' boot (base + j * PAGE_SIZE) \<noteq> None" if "i \<le> j" "j < m" for j
        using that here IH(6) by (cases "j = i") (auto simp: va_def)
      moreover have "view s' r x = view s r x" if "r \<in> R" "x < 2 ^ 48" "x mod PAGE_SIZE = 0" "view s r x \<noteq> None" for r x
        using keep [OF that] IH(5) that by auto
      ultimately show ?thesis using IH(1-4) by auto
    qed
  qed
qed

lemma heap_okD:
  assumes "heap_ok boot R h ts"
  shows "good h ts" "successively apart ts" "heap_live_payload h = used ts" "heap_start h = KERNEL_HEAP_BASE" "PAGE_SIZE dvd heap_end h"
    "heap_end h \<le> KERNEL_HEAP_MAX" "vm_inv R (heap_vm h)" "boot \<in> R"
    "heap_start h \<le> va \<Longrightarrow> va < heap_end h \<Longrightarrow> va mod PAGE_SIZE = 0 \<Longrightarrow> view (heap_vm h) boot va \<noteq> None"
    "heap_start h \<le> heap_end h"
  using assms htile_end [of "hblk h" "heap_start h" "heap_end h" ts] by (auto simp: heap_ok_def good_def)

lemma page_between:
  assumes "PAGE_SIZE dvd base" "base \<le> va" "va < base + n * PAGE_SIZE" "va mod PAGE_SIZE = 0"
  shows "\<exists>j < n. va = base + j * PAGE_SIZE"
proof -
  obtain k l where "base = PAGE_SIZE * k" "va = PAGE_SIZE * l" using assms(1,4) by (auto elim!: dvdE)
  then show ?thesis using assms(2,3) by (intro exI [of _ "l - k"]) (auto simp: algebra_simps)
qed

lemma heap_grow_ok:
  assumes ok: "heap_ok boot R h ts"
  shows "\<exists>g h' ts'. heap_grow boot need h = Some (g, h') \<and> heap_ok boot R h' ts' \<and>
    hlive (heap_start h) ts' = hlive (heap_start h) ts \<and> kmem h' = kmem h \<and> (\<not> g \<longrightarrow> ts' = ts)"
proof -
  note D = heap_okD [OF ok]
  define pages where "pages = (let p = wrap64 (wrap64 (need + HEAP_HEADER) + PAGE_SIZE - 1) div PAGE_SIZE in if p = 0 then 1 else p)"
  obtain n s' where gp: "grow_pages boot (heap_end h) pages 0 (heap_vm h) = (n, s')" by fastforce
  have base: "heap_end h mod PAGE_SIZE = 0" "KERNEL_VA_BASE \<le> heap_end h" using D(4,5,10) by auto
  have G: "vm_inv R s'" "n = 0 \<or> heap_end h + n * PAGE_SIZE \<le> KERNEL_HEAP_MAX"
    "\<forall>r \<in> R. \<forall>va < 2 ^ 48. va mod PAGE_SIZE = 0 \<and> view (heap_vm h) r va \<noteq> None \<longrightarrow> view s' r va = view (heap_vm h) r va"
    "\<forall>j. 0 \<le> j \<and> j < n \<longrightarrow> view s' boot (heap_end h + j * PAGE_SIZE) \<noteq> None"
    by (insert grow_pages_ok [OF D(7,8) base gp disjI1 [OF refl]], (elim conjE, assumption)+)
  have old: "view s' boot va \<noteq> None" if "heap_start h \<le> va" "va < heap_end h" "va mod PAGE_SIZE = 0" for va
  proof -
    have "va < 2 ^ 48" using that(2) D(6) by simp
    then show ?thesis using G(3) D(8) D(9) [OF that] that(3) by metis
  qed
  show ?thesis
  proof (cases "n = 0")
    case True
    have "good (h\<lparr>heap_vm := s'\<rparr>) ts" using D(1) by (simp add: good_def nxt_def fun_eq_iff) (simp add: nxt_def cong: chain_cong)
    then have "heap_ok boot R (h\<lparr>heap_vm := s'\<rparr>) ts" using ok G(1) old by (simp add: heap_ok_def)
    moreover have "heap_grow boot need h = Some (False, h\<lparr>heap_vm := s'\<rparr>)"
      using gp True by (simp add: heap_grow_def Let_def pages_def)
    ultimately show ?thesis by (intro exI [of _ False] exI [of _ "h\<lparr>heap_vm := s'\<rparr>"] exI [of _ ts]) simp
  next
    case False
    define base where "base = heap_end h"
    define sz where "sz = n * PAGE_SIZE - HEAP_HEADER"
    define h1 where "h1 = set_next base 0 (set_flag base False (set_size base sz (h\<lparr>heap_vm := s', heap_end := base + n * PAGE_SIZE\<rparr>)))"
    have gr: "heap_grow boot need h = do { h \<leftarrow> free_list_insert base h1; Some (True, h) }"
      using gp False by (simp add: heap_grow_def Let_def pages_def h1_def base_def sz_def)
    have e: "heap_start h1 = heap_start h" "heap_end h1 = base + n * PAGE_SIZE" "heap_free_head h1 = heap_free_head h"
      "heap_live_payload h1 = heap_live_payload h" "kmem h1 = kmem h" "heap_vm h1 = s'"
      by (simp_all add: h1_def set_next_def set_flag_def set_size_def)
    have bs: "base = heap_start h + hspan ts" using D(1) htile_end unfolding good_def base_def by blast
    have sz: "16 dvd sz" "16 \<le> sz" "base + HEAP_HEADER + sz = base + n * PAGE_SIZE"
      using False by (auto simp: sz_def intro!: dvd_diff_nat)
    have "htile (hblk h1) (heap_start h) base ts"
      by (rule htile_cong [of _ _ _ "hblk h"]) (use D(1) in \<open>auto simp: h1_def good_def base_def\<close>)
    then have t: "htile (hblk h1) (heap_start h) (base + n * PAGE_SIZE) (ts @ [(sz, False)])"
      using sz bs by (simp add: htile_append h1_def)
    have "nxt h1 x = nxt h x" if "x \<in> set (hfree (heap_start h) ts)" for x
      using hfree_low [OF that] bs by (simp add: h1_def nxt_def)
    then have c: "chain (nxt h1) (heap_free_head h) (hfree (heap_start h) (ts @ [(sz, False)]))"
      using D(1) chain_cong [of "hfree (heap_start h) ts" "nxt h1" "nxt h"] by (simp add: good_def)
    have "good h1 (ts @ (sz, False) # [])" unfolding good_def e using D(1) t c by (simp add: good_def)
    then obtain h2 where h2: "free_list_insert base h1 = Some h2" "good h2 (merged ts sz [])" "same_rest h1 h2" "heap_live_payload h2 = heap_live_payload h1"
      using free_list_insert_blocks [of h1 ts sz "[]" base] e(1) bs by auto
    note m = merged_props [OF D(2), of "[]"]
    have s: "heap_start h2 = heap_start h" "heap_end h2 = base + n * PAGE_SIZE" "kmem h2 = kmem h" "heap_vm h2 = s'"
      using h2(3) e by (simp_all add: same_rest_def)
    have "view s' boot va \<noteq> None" if v: "heap_start h \<le> va" "va < base + n * PAGE_SIZE" "va mod PAGE_SIZE = 0" for va
    proof (cases "va < base")
      case True
      then show ?thesis using old v by (simp add: base_def)
    next
      case False
      then obtain j where "j < n" "va = base + j * PAGE_SIZE" using page_between [of base va n] D(5) v by (auto simp: base_def)
      then show ?thesis using G(4) by (simp add: base_def)
    qed
    moreover have "heap_live_payload h2 = used (merged ts sz [])" using h2(4) e(4) D(3) m(2) by simp
    moreover have "PAGE_SIZE dvd base + n * PAGE_SIZE" "base + n * PAGE_SIZE \<le> KERNEL_HEAP_MAX" using D(5) G(2) False by (auto simp: base_def)
    ultimately have "heap_ok boot R h2 (merged ts sz [])" unfolding heap_ok_def s using h2(2) m(3) D(4,8) G(1) by simp
    then show ?thesis using gr h2(1) m(1) s(3) by (intro exI [of _ True] exI [of _ h2] exI [of _ "merged ts sz []"]) simp
  qed
qed

text \<open>Allocation and release.\<close>

lemma exy_malloc_ok:
  assumes ok: "heap_ok boot R h ts" and sz: "0 < sz"
  shows "\<exists>p h' ts'. exy_malloc boot sz h = Some (p, h') \<and> heap_ok boot R h' ts' \<and> kmem h' = kmem h \<and>
    (if p = 0 then hlive KERNEL_HEAP_BASE ts' = hlive KERNEL_HEAP_BASE ts \<and> (\<forall>t \<in> set ts. snd t \<longrightarrow> fst t < heap_need sz)
     else 16 dvd p \<and> (\<forall>k. (p, k) \<notin> hlive KERNEL_HEAP_BASE ts) \<and>
       (\<exists>n \<ge> heap_need sz. hlive KERNEL_HEAP_BASE ts' = insert (p, n) (hlive KERNEL_HEAP_BASE ts)))"
proof -
  have st: "heap_start x = KERNEL_HEAP_BASE" if "heap_ok boot R x t" for x t using heap_okD(4) [OF that] .
  obtain p h1 ts1 where A: "alloc_from_list (heap_need sz) h = Some (p, h1)" "heap_ok boot R h1 ts1" "same_rest h h1"
    "if p = 0 then h1 = h \<and> ts1 = ts \<and> (\<forall>t \<in> set ts. snd t \<longrightarrow> fst t < heap_need sz)
     else 16 dvd p \<and> (\<forall>k. (p, k) \<notin> hlive (heap_start h) ts) \<and> (\<exists>n \<ge> heap_need sz. hlive (heap_start h) ts1 = insert (p, n) (hlive (heap_start h) ts))"
    using alloc_from_list_ok [OF ok heap_need_ok(1,2)] by blast
  show ?thesis
  proof (cases "p = 0")
    case False
    then have "exy_malloc boot sz h = Some (p, h1)" using A(1) sz by (simp add: exy_malloc_def)
    then show ?thesis using A(2-4) False st [OF ok] by (intro exI [of _ p] exI [of _ h1] exI [of _ ts1]) (simp add: same_rest_def)
  next
    case True
    have none: "\<forall>t \<in> set ts. snd t \<longrightarrow> fst t < heap_need sz" using A(4) True by simp
    obtain g h2 ts2 where B: "heap_grow boot (heap_need sz) h = Some (g, h2)" "heap_ok boot R h2 ts2"
      "hlive (heap_start h) ts2 = hlive (heap_start h) ts" "kmem h2 = kmem h" using heap_grow_ok [OF ok] by blast
    have E: "exy_malloc boot sz h = (if g then alloc_from_list (heap_need sz) h2 else Some (0, h2))"
      using A(1,4) B(1) True sz by (simp add: exy_malloc_def)
    show ?thesis
    proof (cases g)
      case False
      then show ?thesis using E B st [OF ok] none by (intro exI [of _ 0] exI [of _ h2] exI [of _ ts2]) simp
    next
      case g: True
      obtain p3 h3 ts3 where C: "alloc_from_list (heap_need sz) h2 = Some (p3, h3)" "heap_ok boot R h3 ts3" "same_rest h2 h3"
        "if p3 = 0 then h3 = h2 \<and> ts3 = ts2 \<and> (\<forall>t \<in> set ts2. snd t \<longrightarrow> fst t < heap_need sz)
         else 16 dvd p3 \<and> (\<forall>k. (p3, k) \<notin> hlive (heap_start h2) ts2) \<and> (\<exists>n \<ge> heap_need sz. hlive (heap_start h2) ts3 = insert (p3, n) (hlive (heap_start h2) ts2))"
        using alloc_from_list_ok [OF B(2) heap_need_ok(1,2)] by blast
      have l: "hlive KERNEL_HEAP_BASE ts2 = hlive KERNEL_HEAP_BASE ts" using B(3) st [OF ok] by simp
      have "kmem h3 = kmem h" using C(3) B(4) by (simp add: same_rest_def)
      then show ?thesis using E g C st [OF B(2)] l none by (intro exI [of _ p3] exI [of _ h3] exI [of _ ts3]) (cases "p3 = 0"; simp)
    qed
  qed
qed

lemma exy_free_ok:
  assumes ok: "heap_ok boot R h ts" and p: "(p, n) \<in> hlive KERNEL_HEAP_BASE ts"
  shows "\<exists>h' ts'. exy_free p h = Some h' \<and> heap_ok boot R h' ts' \<and> kmem h' = kmem h \<and>
    hlive KERNEL_HEAP_BASE ts' = hlive KERNEL_HEAP_BASE ts - {(p, n)} \<and> heap_live_payload h = heap_live_payload h' + n"
proof -
  note D = heap_okD [OF ok]
  obtain pre post where ts: "ts = pre @ (n, False) # post" "p = heap_start h + hspan pre + HEAP_HEADER" using blive_mem [OF p] D(4) by auto
  define b where "b = heap_start h + hspan pre"
  have g: "good h (pre @ (n, False) # post)" using D(1) ts(1) by simp
  note r = good_read [OF g b_def]
  have pb: "p - HEAP_HEADER = b" "p \<noteq> 0" "\<not> (p < heap_start h \<or> heap_end h \<le> p)" using ts(2) r(4,5) by (auto simp: b_def)
  define h1 where "h1 = h\<lparr>heap_live_payload := wrap64 (heap_live_payload h + two64 - n)\<rparr>"
  have F: "exy_free p h = free_list_insert b h1"
    using pb r(1,2) by (simp add: exy_free_def Let_def block_is_free_def h1_def)
  have "used ts < two64" using used_le [of ts] heap_ok_bound [OF ok] by simp
  then have l1: "heap_live_payload h1 = used pre + used post"
    using D(3) ts(1) by (simp add: h1_def wrap64_def mod_if)
  have "good h1 (pre @ (n, False) # post)" using g by (simp add: h1_def good_def)
  then obtain h2 where h2: "free_list_insert b h1 = Some h2" "good h2 (merged pre n post)" "same_rest h1 h2" "heap_live_payload h2 = heap_live_payload h1"
    using free_list_insert_blocks [of h1 pre n post b] b_def by (auto simp: h1_def)
  have sa: "successively apart pre" "successively apart post" using D(2) ts(1) by (auto simp: successively_append_iff successively_Cons)
  note m = merged_props [OF sa]
  have "same_rest h h2" using h2(3) by (simp add: same_rest_def h1_def)
  then have ok2: "heap_ok boot R h2 (merged pre n post)" by (rule same_rest_ok [OF ok _ h2(2) m(3)]) (use h2(4) l1 m(2) in simp)
  have "(p, n) \<notin> hlive (heap_start h) pre" "(p, n) \<notin> hlive (p + n) post"
    using blive_range [of p n HEAP_HEADER "heap_start h" pre] blive_range [of p n HEAP_HEADER "p + n" post] ts(2) by auto
  then have "hlive (heap_start h) ts - {(p, n)} = hlive (heap_start h) pre \<union> hlive (heap_start h + hspan pre + HEAP_HEADER + n) post"
    using ts by auto
  then have "hlive KERNEL_HEAP_BASE (merged pre n post) = hlive KERNEL_HEAP_BASE ts - {(p, n)}" using m(1) [of "heap_start h" n] D(4) by simp
  then show ?thesis using F h2 ok2 \<open>same_rest h h2\<close> l1 D(3) ts(1)
    by (intro exI [of _ h2] exI [of _ "merged pre n post"]) (simp add: same_rest_def)
qed

section \<open>Correctness\<close>

text \<open>C17: exy_malloc on a well-formed heap does not fault and leaves a well-formed heap, whose pages are
  all mapped in the kernel space; it returns either NULL, when no free block is large enough and the
  heap cannot grow far enough, with the allocated blocks unchanged, or a 16-byte aligned block of at
  least the size asked for that overlaps no allocated block or header.\<close>

theorem exy_malloc_sound:
  assumes "heap_ok boot R h ts" "0 < sz" "sz + 15 < two64"
  shows "\<exists>p h' ts'. exy_malloc boot sz h = Some (p, h') \<and> heap_ok boot R h' ts' \<and> kmem h' = kmem h \<and>
    (if p = 0 then hlive KERNEL_HEAP_BASE ts' = hlive KERNEL_HEAP_BASE ts \<and> (\<forall>t \<in> set ts. snd t \<longrightarrow> fst t < heap_need sz)
     else 16 dvd p \<and> (\<exists>n \<ge> sz. hlive KERNEL_HEAP_BASE ts' = insert (p, n) (hlive KERNEL_HEAP_BASE ts) \<and>
       (\<forall>(q, k) \<in> hlive KERNEL_HEAP_BASE ts. p + n + HEAP_HEADER \<le> q \<or> q + k + HEAP_HEADER \<le> p)))"
proof -
  obtain p h' ts' where A: "exy_malloc boot sz h = Some (p, h')" "heap_ok boot R h' ts'" "kmem h' = kmem h"
    "if p = 0 then hlive KERNEL_HEAP_BASE ts' = hlive KERNEL_HEAP_BASE ts \<and> (\<forall>t \<in> set ts. snd t \<longrightarrow> fst t < heap_need sz)
     else 16 dvd p \<and> (\<forall>k. (p, k) \<notin> hlive KERNEL_HEAP_BASE ts) \<and>
       (\<exists>n \<ge> heap_need sz. hlive KERNEL_HEAP_BASE ts' = insert (p, n) (hlive KERNEL_HEAP_BASE ts))"
    using exy_malloc_ok [OF assms(1,2)] by blast
  show ?thesis
  proof (cases "p = 0")
    case True
    then show ?thesis using A by auto
  next
    case False
    then obtain n where n: "heap_need sz \<le> n" "hlive KERNEL_HEAP_BASE ts' = insert (p, n) (hlive KERNEL_HEAP_BASE ts)"
      "\<forall>k. (p, k) \<notin> hlive KERNEL_HEAP_BASE ts" "16 dvd p" using A(4) by auto
    have "sz \<le> n" using n(1) heap_need_ok(3) [OF assms(3)] by simp
    moreover have "p + n + HEAP_HEADER \<le> q \<or> q + k + HEAP_HEADER \<le> p" if "(q, k) \<in> hlive KERNEL_HEAP_BASE ts" for q k
      using blive_disjoint [of p n HEAP_HEADER KERNEL_HEAP_BASE ts' q k] n(2,3) that by auto
    ultimately show ?thesis using A(1-3) False n(2,4) by (intro exI [of _ p] exI [of _ h'] exI [of _ ts']) auto
  qed
qed

text \<open>A heap of one page with one allocated block of 16 bytes and one free block.\<close>

definition wit_hvm :: vm where
  "wit_hvm = \<lparr>frames = (\<lambda>_ _. 0)(4096 := (\<lambda>_. 0)(0 := 8195), 8192 := (\<lambda>_. 0)(1 := 12291), 12288 := (\<lambda>_. 0)(0 := 16387), 16384 := (\<lambda>_. 0)(256 := 20483)),
    vm_pmm = \<lparr>used_bitmap = [], resv_bitmap = [1], bitmap_words = 0, total_pages = 0, free_pages = 0, max_paddr = 0\<rparr>\<rparr>"

definition wit_heap :: heap where
  "wit_heap = \<lparr>heap_start = KERNEL_HEAP_BASE, heap_end = KERNEL_HEAP_BASE + 4096, heap_free_head = KERNEL_HEAP_BASE + 48, heap_live_payload = 16,
    hblk = (\<lambda>_. \<lparr>hb_size = 0, hb_next = 0, hb_free = False\<rparr>)
      (KERNEL_HEAP_BASE := \<lparr>hb_size = 16, hb_next = 0, hb_free = False\<rparr>, KERNEL_HEAP_BASE + 48 := \<lparr>hb_size = 4016, hb_next = 0, hb_free = True\<rparr>),
    kmem = (\<lambda>_. 0), heap_vm = wit_hvm\<rparr>"

lemma wit_hchild:
  "child wit_hvm i t = (if t = 4096 \<and> i = 0 then Some 8192 else if t = 8192 \<and> i = 1 then Some 12288
    else if t = 12288 \<and> i = 0 then Some 16384 else if t = 16384 \<and> i = 256 then Some 20480 else None)"
  by (simp add: child_def wit_hvm_def pte_addr_def)

lemma wit_hnode:
  assumes "vpath p" "node wit_hvm 4096 p = Some a"
  shows "(p, a) \<in> {([], 4096), ([0], 8192), ([0, 1], 12288), ([0, 1, 0], 16384)}"
proof -
  consider "p = []" | i where "p = [i]" | i j where "p = [i, j]" | i j k where "p = [i, j, k]"
    using assms(1) by (cases p; cases "tl p"; cases "tl (tl p)"; cases "tl (tl (tl p))") (auto simp: vpath_def)
  then show ?thesis using assms(2) by cases (auto simp: node_Cons wit_hchild split: if_splits)
qed

lemma wit_hvm_inv: "vm_inv {4096} wit_hvm"
proof (rule vm_invI)
  have "pmm_free_set (vm_pmm wit_hvm) = {}" by (simp add: wit_hvm_def pmm_free_set_def)
  then have f: "free_addrs (vm_pmm wit_hvm) = {}" by (simp add: free_addrs_def)
  show "pmm_ok (vm_pmm wit_hvm)" by (simp add: wit_hvm_def pmm_ok_def pmm_inv_def pmm_shape_def pmm_free_set_def resv_get_def bm_get_def)
  show "a \<noteq> 0 \<and> a \<notin> free_addrs (vm_pmm wit_hvm)" if "r \<in> {4096}" "vpath p" "node wit_hvm r p = Some a" for r p a
    using wit_hnode [of p a] that f by auto
  show "q = p \<and> sees r p r'" if "r \<in> {4096}" "r' \<in> {4096}" "vpath p" "vpath q" "node wit_hvm r p = Some a" "node wit_hvm r' q = Some a" for r r' p q a
    using wit_hnode [of p a] wit_hnode [of q a] that by (auto simp: sees_def)
qed (auto simp: wit_hchild)

lemma wit_heap_ok: "heap_ok 4096 {4096} wit_heap [(16, False), (4016, True)]"
proof -
  have "view wit_hvm 4096 KERNEL_HEAP_BASE \<noteq> None"
    by (simp add: view_def va_path_def node_Cons wit_hchild idx_pml4_def idx_pdpt_def idx_pd_def idx_pt_def) (simp add: wit_hvm_def)
  moreover have "va = KERNEL_HEAP_BASE" if "KERNEL_HEAP_BASE \<le> va" "va < KERNEL_HEAP_BASE + 4096" "va mod 4096 = 0" for va
    using page_between [of KERNEL_HEAP_BASE va 1] that by auto
  ultimately have "\<forall>va. KERNEL_HEAP_BASE \<le> va \<and> va < KERNEL_HEAP_BASE + 4096 \<and> va mod 4096 = 0 \<longrightarrow> view wit_hvm 4096 va \<noteq> None" by metis
  then show ?thesis using wit_hvm_inv by (simp add: heap_ok_def wit_heap_def good_def nxt_def)
qed

theorem exy_malloc_sound_witness:
  "\<exists>p h' ts'. exy_malloc 4096 100 wit_heap = Some (p, h') \<and> heap_ok 4096 {4096} h' ts'"
  using exy_malloc_sound [OF wit_heap_ok, of 100] by auto

text \<open>C19: exy_free of an allocated block does not panic, leaves a well-formed heap without adjacent free
  blocks, releases exactly that block and lowers the count of live bytes by its size.\<close>

theorem exy_free_sound:
  assumes "heap_ok boot R h ts" "(p, n) \<in> hlive KERNEL_HEAP_BASE ts"
  shows "\<exists>h' ts'. exy_free p h = Some h' \<and> heap_ok boot R h' ts' \<and> kmem h' = kmem h \<and>
    hlive KERNEL_HEAP_BASE ts' = hlive KERNEL_HEAP_BASE ts - {(p, n)} \<and> heap_used_bytes h = heap_used_bytes h' + n"
  using exy_free_ok [OF assms] by (simp add: heap_used_bytes_def)

theorem exy_free_sound_witness:
  "\<exists>h' ts'. exy_free (KERNEL_HEAP_BASE + 32) wit_heap = Some h' \<and> heap_ok 4096 {4096} h' ts' \<and> heap_used_bytes h' = 0"
proof -
  have "heap_used_bytes wit_heap = 16" by (simp add: heap_used_bytes_def wit_heap_def)
  then show ?thesis using exy_free_sound [OF wit_heap_ok, of "KERNEL_HEAP_BASE + 32" 16] by auto
qed

end
