(* ===== verification/Uaccess.thy ===== *)
theory Uaccess
  imports Vmm
begin

text \<open>
  Access to user memory from the kernel, \<^verbatim>\<open>kernel/core/uaccess.c\<close> and \<^verbatim>\<open>kernel/core/extable.c\<close>.

  User bytes live in physical memory, a store from physical addresses to bytes.  The copy primitives
  of \<^verbatim>\<open>arch/x86_64/cpu/uaccess_asm.asm\<close> move one byte after the other through the loaded page tables
  (the root in CR3) and stop with \<open>-EFAULT\<close> at the first address that is not mapped, where the
  exception table redirects the page fault.
\<close>

abbreviation USER_VA_TOP :: nat where "USER_VA_TOP \<equiv> 0x800000000000"

text \<open>The exception table is a list of pairs of a faulting and a fix-up address.\<close>

fun extable_lookup :: "(nat \<times> nat) list \<Rightarrow> nat \<Rightarrow> nat option" where
  "extable_lookup [] fault_rip = None"
| "extable_lookup ((fault, fixup) # tab) fault_rip = (if fault = fault_rip then Some fixup else extable_lookup tab fault_rip)"

section \<open>Byte copies through a page table\<close>

definition root_space :: "paddr \<Rightarrow> vmm_space option" where
  "root_space root = Some \<lparr>sp_pml4 = root, sp_refcount = 1, sp_is_kernel = False\<rparr>"

definition translate :: "vm \<Rightarrow> paddr \<Rightarrow> vaddr \<Rightarrow> nat option" where
  "translate s root va =
    (case vmm_query (root_space root) (align_down PAGE_SIZE va) s of
       None \<Rightarrow> None | Some (pa, _) \<Rightarrow> Some (pa + va mod PAGE_SIZE))"

primrec uaccess_memcpy_to_user :: "vm \<Rightarrow> paddr \<Rightarrow> vaddr \<Rightarrow> byte list \<Rightarrow> (nat \<Rightarrow> byte) \<Rightarrow> int \<times> (nat \<Rightarrow> byte)" where
  "uaccess_memcpy_to_user s root va [] ph = (0, ph)"
| "uaccess_memcpy_to_user s root va (b # bs) ph =
    (case translate s root va of
       None \<Rightarrow> (- EFAULT, ph)
     | Some a \<Rightarrow> uaccess_memcpy_to_user s root (va + 1) bs (ph(a := b)))"

primrec uaccess_memcpy_from_user :: "vm \<Rightarrow> paddr \<Rightarrow> vaddr \<Rightarrow> nat \<Rightarrow> (nat \<Rightarrow> byte) \<Rightarrow> byte list option" where
  "uaccess_memcpy_from_user s root va 0 ph = Some []"
| "uaccess_memcpy_from_user s root va (Suc n) ph =
    (case translate s root va of
       None \<Rightarrow> None
     | Some a \<Rightarrow> map_option ((#) (ph a)) (uaccess_memcpy_from_user s root (va + 1) n ph))"

section \<open>Range checks\<close>

definition range_in_user_half :: "vaddr \<Rightarrow> nat \<Rightarrow> bool" where
  "range_in_user_half va n =
    (if n = 0 then True
     else let end = wrap64 (va + n) in
       if end < va then False
       else if va < USER_VA_BASE then False
       else if USER_VA_TOP < end then False
       else True)"

function pages_ok :: "vmm_space option \<Rightarrow> vaddr \<Rightarrow> vaddr \<Rightarrow> vm \<Rightarrow> int" where
  "pages_ok space page end s =
    (if page < end then
       (case vmm_query space page s of
          None \<Rightarrow> - EFAULT
        | Some (pa, flags) \<Rightarrow>
            if flags AND VM_USER = 0 then - EFAULT else pages_ok space (page + PAGE_SIZE) end s)
     else 0)"
  by pat_completeness auto
termination by (relation "measure (\<lambda>(space, page, end, s). end - page)") auto

declare pages_ok.simps [simp del]

definition user_range_ok :: "vmm_space option \<Rightarrow> vaddr \<Rightarrow> nat \<Rightarrow> vm \<Rightarrow> int" where
  "user_range_ok space va n s =
    (if n = 0 then 0
     else if \<not> range_in_user_half va n then - EFAULT
     else pages_ok space (align_down PAGE_SIZE va) (wrap64 (va + n)) s)"

definition copy_to_user :: "vmm_space option \<Rightarrow> paddr \<Rightarrow> vaddr \<Rightarrow> byte list \<Rightarrow> vm \<Rightarrow> (nat \<Rightarrow> byte) \<Rightarrow> int \<times> (nat \<Rightarrow> byte)" where
  "copy_to_user space root udst src s ph =
    (let r = user_range_ok space udst (length src) s in
     if r < 0 then (r, ph) else uaccess_memcpy_to_user s root udst src ph)"

text \<open>The bytes read, or the error.\<close>

definition copy_from_user :: "vmm_space option \<Rightarrow> paddr \<Rightarrow> vaddr \<Rightarrow> nat \<Rightarrow> vm \<Rightarrow> (nat \<Rightarrow> byte) \<Rightarrow> int + byte list" where
  "copy_from_user space root usrc n s ph =
    (let r = user_range_ok space usrc n s in
     if r < 0 then Inl r
     else case uaccess_memcpy_from_user s root usrc n ph of None \<Rightarrow> Inl (- EFAULT) | Some bs \<Rightarrow> Inr bs)"

text \<open>The loop of \<^verbatim>\<open>strncpy_from_user\<close> at index \<open>i\<close>: the error, or the bytes before the terminator.\<close>

function strncpy_loop :: "vmm_space option \<Rightarrow> paddr \<Rightarrow> vaddr \<Rightarrow> nat \<Rightarrow> nat \<Rightarrow> vm \<Rightarrow> (nat \<Rightarrow> byte) \<Rightarrow> byte list \<Rightarrow> int + byte list" where
  "strncpy_loop space root usrc maxn i s ph acc =
    (if i < maxn then
       let va = wrap64 (usrc + i) in
       if va < usrc then Inl (- EFAULT)
       else if user_range_ok space va 1 s < 0 then Inl (- EFAULT)
       else case uaccess_memcpy_from_user s root va 1 ph of
         None \<Rightarrow> Inl (- EFAULT)
       | Some cs \<Rightarrow> if hd cs = 0 then Inr acc else strncpy_loop space root usrc maxn (i + 1) s ph (acc @ [hd cs])
     else Inl (- ENAMETOOLONG))"
  by pat_completeness auto
termination by (relation "measure (\<lambda>(space, root, usrc, maxn, i, s, ph, acc). maxn - i)") auto

declare strncpy_loop.simps [simp del]

definition strncpy_from_user :: "vmm_space option \<Rightarrow> paddr \<Rightarrow> vaddr \<Rightarrow> nat \<Rightarrow> vm \<Rightarrow> (nat \<Rightarrow> byte) \<Rightarrow> int + byte list" where
  "strncpy_from_user space root usrc maxn s ph =
    (if maxn = 0 then Inl (- EINVAL) else strncpy_loop space root usrc maxn 0 s ph [])"

section \<open>Lemmas\<close>

lemma range_in_user_half_iff:
  assumes "va < two64" "n < two64"
  shows "range_in_user_half va n \<longleftrightarrow> n = 0 \<or> USER_VA_BASE \<le> va \<and> va + n \<le> USER_VA_TOP"
proof (cases "va + n < two64")
  case True
  then show ?thesis by (auto simp: range_in_user_half_def)
next
  case False
  have "va + n < 2 * two64" using assms by simp
  with False have "wrap64 (va + n) = va + n - two64"
    by (simp add: wrap64_def mod_if)
  then show ?thesis using False assms by (auto simp: range_in_user_half_def)
qed

text \<open>The pages a check walks over.\<close>

definition user_page :: "vmm_space option \<Rightarrow> vm \<Rightarrow> vaddr \<Rightarrow> bool" where
  "user_page space s page \<longleftrightarrow> (\<exists>pa flags. vmm_query space page s = Some (pa, flags) \<and> flags AND VM_USER \<noteq> 0)"

lemma pages_ok_cases: "pages_ok space page end s = 0 \<or> pages_ok space page end s = - EFAULT"
proof (induction space page "end" s rule: pages_ok.induct)
  case (1 space page "end" s)
  then show ?case by (subst (1 2) pages_ok.simps) (auto split: option.splits)
qed

lemma page_run_step:
  "(\<forall>i. Q (page + i * PAGE_SIZE)) \<longleftrightarrow> Q page \<and> (\<forall>i. Q (page + PAGE_SIZE + i * PAGE_SIZE))"
proof -
  have "Q (page + i * PAGE_SIZE)" if "Q page" "\<forall>i. Q (page + PAGE_SIZE + i * PAGE_SIZE)" for i
    using that(1) spec [OF that(2), of "i - 1"] by (cases i) (simp_all add: add.assoc)
  moreover have "Q page" "Q (page + PAGE_SIZE + i * PAGE_SIZE)" if "\<forall>i. Q (page + i * PAGE_SIZE)" for i
    using spec [OF that, of 0] spec [OF that, of "i + 1"] by (simp_all add: add.assoc)
  ultimately show ?thesis by blast
qed

lemma pages_ok_iff: "pages_ok space page end s = 0 \<longleftrightarrow> (\<forall>i. page + i * PAGE_SIZE < end \<longrightarrow> user_page space s (page + i * PAGE_SIZE))"
proof (induction space page "end" s rule: pages_ok.induct)
  case (1 space page "end" s)
  show ?case
  proof (cases "page < end")
    case True
    have "(\<forall>i. page + i * PAGE_SIZE < end \<longrightarrow> user_page space s (page + i * PAGE_SIZE)) \<longleftrightarrow>
        user_page space s page \<and> (\<forall>i. page + PAGE_SIZE + i * PAGE_SIZE < end \<longrightarrow> user_page space s (page + PAGE_SIZE + i * PAGE_SIZE))"
      using True by (subst page_run_step) simp
    then show ?thesis
      using True 1 by (subst pages_ok.simps) (auto simp: user_page_def EFAULT_def split: option.splits)
  qed (subst pages_ok.simps, simp)
qed

lemma align_down_cover: "page dvd x \<Longrightarrow> 0 < page \<Longrightarrow> x \<le> y \<Longrightarrow> \<exists>i. align_down page y = x + i * page"
  by (metis align_down_dvd dvd_diff_nat dvd_def le_add_diff_inverse le_align_down_iff mult.commute)

lemma user_range_ok_iff:
  assumes "va < two64" "n < two64"
  shows "user_range_ok space va n s = 0 \<longleftrightarrow>
    n = 0 \<or> USER_VA_BASE \<le> va \<and> va + n \<le> USER_VA_TOP \<and> (\<forall>i < n. user_page space s (align_down PAGE_SIZE (va + i)))"
    (is "?L \<longleftrightarrow> ?R")
proof (cases "n = 0 \<or> \<not> range_in_user_half va n")
  case True
  then show ?thesis using range_in_user_half_iff [OF assms] by (auto simp: user_range_ok_def EFAULT_def)
next
  case False
  then have r: "0 < n" "USER_VA_BASE \<le> va" "va + n \<le> USER_VA_TOP" "range_in_user_half va n"
    using range_in_user_half_iff [OF assms] by auto
  define base where "base = align_down PAGE_SIZE va"
  have base: "base \<le> va" "va < base + PAGE_SIZE" "PAGE_SIZE dvd base"
    using align_down_gt [of PAGE_SIZE va] by (simp_all add: base_def)
  have "?L \<longleftrightarrow> pages_ok space base (va + n) s = 0" using r by (simp add: user_range_ok_def base_def)
  also have "\<dots> \<longleftrightarrow> (\<forall>i < n. user_page space s (align_down PAGE_SIZE (va + i)))"
    unfolding pages_ok_iff
  proof safe
    fix i assume a: "\<forall>i. base + i * PAGE_SIZE < va + n \<longrightarrow> user_page space s (base + i * PAGE_SIZE)" and i: "i < n"
    have "base \<le> va + i" using base by simp
    then obtain j where "align_down PAGE_SIZE (va + i) = base + j * PAGE_SIZE"
      using align_down_cover [OF base(3)] by auto
    moreover have "align_down PAGE_SIZE (va + i) < va + n"
      using align_down_le [of PAGE_SIZE "va + i"] i by linarith
    ultimately show "user_page space s (align_down PAGE_SIZE (va + i))" using a by simp
  next
    fix i assume a: "\<forall>i < n. user_page space s (align_down PAGE_SIZE (va + i))" and i: "base + i * PAGE_SIZE < va + n"
    show "user_page space s (base + i * PAGE_SIZE)"
    proof (cases i)
      case 0
      then show ?thesis using a r(1) by (auto simp: base_def)
    next
      case (Suc k)
      then have "va \<le> base + i * PAGE_SIZE" using base by simp
      then have "user_page space s (align_down PAGE_SIZE (base + i * PAGE_SIZE))"
        using a i by (metis le_add_diff_inverse nat_add_left_cancel_less)
      moreover have "PAGE_SIZE dvd base + i * PAGE_SIZE" using base(3) by simp
      ultimately show ?thesis by (simp only: align_down_id)
    qed
  qed
  finally show ?thesis using r by simp
qed

lemma user_range_ok_cases: "user_range_ok space va n s = 0 \<or> user_range_ok space va n s = - EFAULT"
  using pages_ok_cases by (simp add: user_range_ok_def)

lemma vmm_query_root: "vmm_query (Some sp) va s = vmm_query (root_space (sp_pml4 sp)) va s"
  by (simp add: vmm_query_def root_space_def walk_leaf_def)

lemma translate_user_page:
  assumes "user_page (Some sp) s (align_down PAGE_SIZE va)"
  shows "\<exists>a. translate s (sp_pml4 sp) va = Some a"
  using assms by (auto simp: user_page_def translate_def vmm_query_root [of sp])

lemma memcpy_to_user_run:
  assumes "\<forall>i < length bs. translate s root (va + i) \<noteq> None"
    and "\<forall>i < length bs. \<forall>j < length bs. translate s root (va + i) = translate s root (va + j) \<longrightarrow> i = j"
  shows "\<exists>ph'. uaccess_memcpy_to_user s root va bs ph = (0, ph') \<and>
    (\<forall>i < length bs. ph' (the (translate s root (va + i))) = bs ! i) \<and>
    (\<forall>a. (\<forall>i < length bs. translate s root (va + i) \<noteq> Some a) \<longrightarrow> ph' a = ph a)"
  using assms
proof (induction bs arbitrary: va ph)
  case (Cons b bs)
  obtain a where a: "translate s root va = Some a" using Cons.prems(1) by fastforce
  have t1: "\<forall>i < length bs. translate s root (va + 1 + i) \<noteq> None"
    using Cons.prems(1) by (auto dest: spec [of _ "Suc _"])
  have t2: "\<forall>i < length bs. \<forall>j < length bs. translate s root (va + 1 + i) = translate s root (va + 1 + j) \<longrightarrow> i = j"
  proof (intro allI impI)
    fix i j assume "i < length bs" "j < length bs" "translate s root (va + 1 + i) = translate s root (va + 1 + j)"
    then have "Suc i = Suc j" using Cons.prems(2) [rule_format, of "Suc i" "Suc j"] by simp
    then show "i = j" by simp
  qed
  have fresh: "translate s root (va + 1 + i) \<noteq> Some a" if "i < length bs" for i
    using Cons.prems(2) [rule_format, of 0 "Suc i"] that a by auto
  obtain ph' where p: "uaccess_memcpy_to_user s root (va + 1) bs (ph(a := b)) = (0, ph')"
    "\<forall>i < length bs. ph' (the (translate s root (va + 1 + i))) = bs ! i"
    "\<forall>x. (\<forall>i < length bs. translate s root (va + 1 + i) \<noteq> Some x) \<longrightarrow> ph' x = (ph(a := b)) x"
    using Cons.IH [OF t1 t2, of "ph(a := b)"] by blast
  show ?case
  proof (intro exI conjI allI impI)
    show "uaccess_memcpy_to_user s root va (b # bs) ph = (0, ph')" using p(1) a by simp
    show "ph' (the (translate s root (va + i))) = (b # bs) ! i" if "i < length (b # bs)" for i
    proof (cases i)
      case 0
      then show ?thesis using p(3) [rule_format, of a] fresh a by auto
    next
      case (Suc j)
      then show ?thesis using p(2) that by simp
    qed
    show "ph' x = ph x" if x: "\<forall>i < length (b # bs). translate s root (va + i) \<noteq> Some x" for x
    proof -
      have "x \<noteq> a" using x [rule_format, of 0] a by auto
      moreover have "translate s root (va + 1 + i) \<noteq> Some x" if "i < length bs" for i
        using x [rule_format, of "Suc i"] that by simp
      ultimately show ?thesis using p(3) by simp
    qed
  qed
qed simp

lemma memcpy_from_user_run:
  assumes "\<forall>i < n. translate s root (va + i) \<noteq> None"
  shows "uaccess_memcpy_from_user s root va n ph = Some (map (\<lambda>i. ph (the (translate s root (va + i)))) [0..<n])"
  using assms
proof (induction n arbitrary: va)
  case (Suc n)
  obtain a where a: "translate s root va = Some a" using Suc.prems by fastforce
  have "\<forall>i < n. translate s root (va + 1 + i) \<noteq> None" using Suc.prems by (auto dest: spec [of _ "Suc _"])
  from Suc.IH [OF this] a show ?case by (simp add: map_upt_Suc del: upt_Suc)
qed simp

text \<open>The physical bytes behind a range of user addresses, and the ranges no two pages of which share a frame.\<close>

definition user_bytes :: "vm \<Rightarrow> paddr \<Rightarrow> vaddr \<Rightarrow> nat \<Rightarrow> nat set" where
  "user_bytes s root va n = {a. \<exists>i < n. translate s root (va + i) = Some a}"

definition unshared :: "vm \<Rightarrow> paddr \<Rightarrow> vaddr \<Rightarrow> nat \<Rightarrow> bool" where
  "unshared s root va n \<longleftrightarrow> (\<forall>i < n. \<forall>j < n. \<forall>pa f g.
    vmm_query (root_space root) (align_down PAGE_SIZE (va + i)) s = Some (pa, f) \<and>
    vmm_query (root_space root) (align_down PAGE_SIZE (va + j)) s = Some (pa, g) \<longrightarrow>
    align_down PAGE_SIZE (va + i) = align_down PAGE_SIZE (va + j))"

lemma vmm_query_dvd: "vmm_query space va s = Some (pa, f) \<Longrightarrow> PAGE_SIZE dvd pa"
  by (auto simp: vmm_query_def Let_def pte_addr_dvd(1) split: option.splits if_splits)

lemma page_offset_unique:
  assumes "PAGE_SIZE dvd p" "PAGE_SIZE dvd q" "x < PAGE_SIZE" "y < PAGE_SIZE" "p + x = q + y"
  shows "p = q \<and> x = y"
proof -
  obtain k m where k: "p = PAGE_SIZE * k" "q = PAGE_SIZE * m" using assms by (auto elim!: dvdE)
  have "k = (PAGE_SIZE * k + x) div PAGE_SIZE" "m = (PAGE_SIZE * m + y) div PAGE_SIZE" using assms by simp_all
  then have "k = m" using assms(5) k by simp
  then show ?thesis using k assms(5) by simp
qed

lemma unshared_inj:
  assumes "unshared s root va n" "i < n" "j < n" "translate s root (va + i) = translate s root (va + j)"
    "translate s root (va + i) \<noteq> None"
  shows "i = j"
proof -
  obtain pa f pb g where q: "vmm_query (root_space root) (align_down PAGE_SIZE (va + i)) s = Some (pa, f)"
    "vmm_query (root_space root) (align_down PAGE_SIZE (va + j)) s = Some (pb, g)"
    "pa + (va + i) mod PAGE_SIZE = pb + (va + j) mod PAGE_SIZE"
    using assms(4,5) by (auto simp: translate_def split: option.splits)
  have "pa = pb" "(va + i) mod PAGE_SIZE = (va + j) mod PAGE_SIZE"
    using page_offset_unique [OF vmm_query_dvd [OF q(1)] vmm_query_dvd [OF q(2)] _ _ q(3)] by simp_all
  moreover from this have "align_down PAGE_SIZE (va + i) = align_down PAGE_SIZE (va + j)"
    using assms(1-3) q by (auto simp: unshared_def)
  ultimately show ?thesis
    by (metis add_left_cancel align_down_def div_mult_mod_eq)
qed

lemma copy_to_user_ok:
  assumes "udst < two64" "length src < two64" "unshared s (sp_pml4 sp) udst (length src)"
    and "user_range_ok (Some sp) udst (length src) s = 0"
  shows "\<exists>ph'. copy_to_user (Some sp) (sp_pml4 sp) udst src s ph = (0, ph') \<and>
    copy_from_user (Some sp) (sp_pml4 sp) udst (length src) s ph' = Inr src \<and>
    (\<forall>a. a \<notin> user_bytes s (sp_pml4 sp) udst (length src) \<longrightarrow> ph' a = ph a)"
proof -
  let ?n = "length src"
  have pages: "?n = 0 \<or> USER_VA_BASE \<le> udst \<and> udst + ?n \<le> USER_VA_TOP \<and>
      (\<forall>i < ?n. user_page (Some sp) s (align_down PAGE_SIZE (udst + i)))"
    using assms(4) user_range_ok_iff [OF assms(1,2)] by simp
  then have t: "\<forall>i < ?n. translate s (sp_pml4 sp) (udst + i) \<noteq> None"
    using translate_user_page by fastforce
  then have inj: "\<forall>i < ?n. \<forall>j < ?n. translate s (sp_pml4 sp) (udst + i) = translate s (sp_pml4 sp) (udst + j) \<longrightarrow> i = j"
    using unshared_inj [OF assms(3)] by blast
  obtain ph' where w: "uaccess_memcpy_to_user s (sp_pml4 sp) udst src ph = (0, ph')"
    "\<forall>i < ?n. ph' (the (translate s (sp_pml4 sp) (udst + i))) = src ! i"
    "\<forall>a. (\<forall>i < ?n. translate s (sp_pml4 sp) (udst + i) \<noteq> Some a) \<longrightarrow> ph' a = ph a"
    using memcpy_to_user_run [OF t inj, of ph] by auto
  have "map (\<lambda>i. ph' (the (translate s (sp_pml4 sp) (udst + i)))) [0..<?n] = src"
    by (rule nth_equalityI) (use w(2) in auto)
  then have "copy_from_user (Some sp) (sp_pml4 sp) udst ?n s ph' = Inr src"
    using assms(4) memcpy_from_user_run [OF t, of ph'] by (simp add: copy_from_user_def)
  then show ?thesis using w assms(4) by (auto simp: user_bytes_def copy_to_user_def)
qed

text \<open>C12: Copying to user space and back.  Either the check refuses the range, and then not a byte of memory
  changes and both copies answer \<open>-EFAULT\<close>; or every page of the range is mapped for user access, the copy
  returns \<open>0\<close>, a copy back from user space yields the bytes that were copied out, and only the physical
  bytes behind the range have changed.\<close>

theorem copy_user_roundtrip:
  assumes "udst < two64" "length src < two64" "unshared s (sp_pml4 sp) udst (length src)"
    and "copy_to_user (Some sp) (sp_pml4 sp) udst src s ph = (r, ph')"
  shows "(if length src = 0 \<or> USER_VA_BASE \<le> udst \<and> udst + length src \<le> USER_VA_TOP \<and>
        (\<forall>i < length src. user_page (Some sp) s (align_down PAGE_SIZE (udst + i)))
      then r = 0 \<and> copy_from_user (Some sp) (sp_pml4 sp) udst (length src) s ph' = Inr src \<and>
        (\<forall>a. a \<notin> user_bytes s (sp_pml4 sp) udst (length src) \<longrightarrow> ph' a = ph a)
      else r = - EFAULT \<and> ph' = ph \<and> copy_from_user (Some sp) (sp_pml4 sp) udst (length src) s ph = Inl (- EFAULT))"
proof (cases "user_range_ok (Some sp) udst (length src) s = 0")
  case True
  then show ?thesis using copy_to_user_ok [OF assms(1-3) True, of ph] user_range_ok_iff [OF assms(1,2), of "Some sp" s] assms(4) by auto
next
  case False
  then have "user_range_ok (Some sp) udst (length src) s = - EFAULT" using user_range_ok_cases by blast
  then show ?thesis using False user_range_ok_iff [OF assms(1,2), of "Some sp" s] assms(4)
    by (auto simp: copy_to_user_def copy_from_user_def EFAULT_def)
qed

definition wit_uvm :: vm where
  "wit_uvm = \<lparr>frames = (\<lambda>_ _. 0)(4096 := (\<lambda>_. 0)(1 := 12295), 12288 := (\<lambda>_. 0)(0 := 16391),
      16384 := (\<lambda>_. 0)(0 := 20487), 20480 := (\<lambda>_. 0)(0 := 24583, 1 := 28679)),
    vm_pmm = vm_pmm wit_vm\<rparr>"

lemma wit_uvm_query:
  "vmm_query (Some sp) 0x8000000000 wit_uvm = Some (24576, 7)" "vmm_query (Some sp) 0x8000001000 wit_uvm = Some (28672, 7)"
  if "sp_pml4 sp = 4096"
  using that by (simp_all add: vmm_query_def walk_leaf_def wit_uvm_def idx_pml4_def idx_pdpt_def idx_pd_def idx_pt_def
      pte_addr_def pte_to_flags_def)

theorem copy_user_roundtrip_witness:
  "copy_to_user (Some wit_sp) 4096 0x8000000FFF [7, 9] wit_uvm (\<lambda>_. 0) = (0, (\<lambda>_. 0)(28671 := 7, 28672 := 9)) \<and>
   copy_from_user (Some wit_sp) 4096 0x8000000FFF 2 wit_uvm ((\<lambda>_. 0)(28671 := 7, 28672 := 9)) = Inr [7, 9]"
proof -
  have sp: "sp_pml4 wit_sp = 4096" by (simp add: wit_sp_def)
  have q: "vmm_query (root_space 4096) 0x8000000000 wit_uvm = Some (24576, 7)"
    "vmm_query (root_space 4096) 0x8000001000 wit_uvm = Some (28672, 7)"
    using wit_uvm_query [of "\<lparr>sp_pml4 = 4096, sp_refcount = 1, sp_is_kernel = False\<rparr>"] by (simp_all add: root_space_def)
  have two: "i < 2 \<longleftrightarrow> i = 0 \<or> i = Suc 0" for i :: nat by auto
  have al: "align_down 4096 0x8000000FFF = 0x8000000000" "align_down 4096 0x8000001000 = 0x8000001000"
    by (simp_all add: align_down_def)
  have up: "\<forall>i < 2. user_page (Some wit_sp) wit_uvm (align_down PAGE_SIZE (0x8000000FFF + i))"
    unfolding two using al wit_uvm_query [OF sp] by (auto simp: user_page_def)
  have un: "unshared wit_uvm 4096 0x8000000FFF 2"
    unfolding unshared_def two using al q by auto
  have run: "copy_to_user (Some wit_sp) (sp_pml4 wit_sp) 0x8000000FFF [7, 9] wit_uvm (\<lambda>_. 0) = (0, (\<lambda>_. 0)(28671 := 7, 28672 := 9))"
    using user_range_ok_iff [of "0x8000000FFF" 2 "Some wit_sp" wit_uvm] up q al
    by (simp add: copy_to_user_def sp translate_def Let_def numeral_2_eq_2)
  show ?thesis
    using copy_user_roundtrip [OF _ _ _ run] run un up by (simp add: sp numeral_2_eq_2)
qed

end
