(* ===== verification/Kernel.thy ===== *)
theory Kernel
  imports Heap Uaccess Handle Channel
begin

text \<open>
  Kernel objects: address spaces (\<^verbatim>\<open>arch/x86_64/mm/vmm.c\<close>), channels (\<^verbatim>\<open>core/channel.c\<close>), processes
  (\<^verbatim>\<open>core/process.c\<close>), threads (\<^verbatim>\<open>core/thread.c\<close>, the reaper of \<^verbatim>\<open>core/sched.c\<close>), the ELF loader
  (\<^verbatim>\<open>core/elf.c\<close>) and process start-up (\<^verbatim>\<open>core/exec.c\<close>).

  The state puts together the scheduler of \<open>Sched\<close>, the heap and the page tables of \<open>Heap\<close> and \<open>Vmm\<close>,
  one store per kind of object, indexed by the address the heap gave it, and the physical bytes behind
  the user pages.  \<open>None\<close> is a panic, or a cycle in a list the code walks.

  Releasing an object calls back: closing the last handle of a process destroys it, which closes its
  handles.  \<open>handle_release\<close> takes the number of nested process releases as fuel.  Each level of nesting
  destroys a process whose count has just reached zero, and none is destroyed twice, so the number of
  processes ever created, \<open>k_next_pid\<close>, is enough.
\<close>

section \<open>State\<close>

abbreviation SIZEOF_PROCESS :: nat where "SIZEOF_PROCESS \<equiv> 1648"
abbreviation SIZEOF_THREAD :: nat where "SIZEOF_THREAD \<equiv> 112"
abbreviation SIZEOF_CHANNEL :: nat where "SIZEOF_CHANNEL \<equiv> 88"
abbreviation SIZEOF_CHAN_CAP :: nat where "SIZEOF_CHAN_CAP \<equiv> 32"
abbreviation SIZEOF_SPACE :: nat where "SIZEOF_SPACE \<equiv> 16"
abbreviation SIZEOF_INFO :: nat where "SIZEOF_INFO \<equiv> 48"
abbreviation THREAD_STACK_SIZE :: nat where "THREAD_STACK_SIZE \<equiv> 16384"
abbreviation USER_STACK_TOP_INIT :: nat where "USER_STACK_TOP_INIT \<equiv> 0x8001000000"
abbreviation INITRD_VA :: nat where "INITRD_VA \<equiv> 0x8002000000"
abbreviation EXEC_MAX_ARGS :: nat where "EXEC_MAX_ARGS \<equiv> 16"
abbreviation EXEC_MAX_ENVS :: nat where "EXEC_MAX_ENVS \<equiv> 16"
abbreviation EXEC_STACK_PAGES :: nat where "EXEC_STACK_PAGES \<equiv> 4"

record process =
  p_pid :: nat
  p_name :: nat
  p_space :: nat
  p_entry :: vaddr
  p_main_thread :: nat
  p_handles :: handle_table
  p_initial_rsp :: nat
  p_next_map_va :: vaddr
  p_refcount :: nat
  p_exit_code :: int
  p_exited :: bool
  p_bootstrap_handle :: nat
  p_waiters :: waitq
  p_list_next :: nat

record elf_image =
  img_entry :: vaddr
  img_load_base :: vaddr
  img_load_size :: nat

text \<open>The addresses of the static objects and functions (\<open>boot_pml4\<close>, \<open>kernel_space\<close>, \<open>thread_trampoline\<close>,
  \<open>user_thread_entry\<close>, \<open>handle_release\<close>) are fields, as is what an uninitialised local buffer holds.\<close>

record kernel =
  k_sched :: sched
  k_heap :: heap
  k_spaces :: "nat \<Rightarrow> vmm_space"
  k_procs :: "nat \<Rightarrow> process"
  k_chans :: "nat \<Rightarrow> channel"
  k_chan_buffer :: "nat \<Rightarrow> nat"
  k_chan_caps :: "nat \<Rightarrow> nat"
  k_proc_head :: nat
  k_next_pid :: nat
  k_next_tid :: nat
  k_phys :: "nat \<Rightarrow> byte"
  k_console_out :: "byte list"
  k_console_in :: "byte list"
  k_boot_pml4 :: paddr
  k_kernel_space :: nat
  k_trampoline :: nat
  k_user_entry :: nat
  k_release :: nat
  k_stack :: "nat \<Rightarrow> byte"

definition upd_proc :: "nat \<Rightarrow> (process \<Rightarrow> process) \<Rightarrow> kernel \<Rightarrow> kernel" where
  "upd_proc p f k = k\<lparr>k_procs := (k_procs k)(p := f (k_procs k p))\<rparr>"

definition space_of :: "nat \<Rightarrow> kernel \<Rightarrow> vmm_space option" where
  "space_of sp k = (if sp = 0 then None else Some (k_spaces k sp))"

definition kvm :: "kernel \<Rightarrow> vm" where
  "kvm k = heap_vm (k_heap k)"

definition set_vm :: "vm \<Rightarrow> kernel \<Rightarrow> kernel" where
  "set_vm s k = k\<lparr>k_heap := (k_heap k)\<lparr>heap_vm := s\<rparr>\<rparr>"

definition set_kmem :: "(nat \<Rightarrow> byte) \<Rightarrow> kernel \<Rightarrow> kernel" where
  "set_kmem m k = k\<lparr>k_heap := (k_heap k)\<lparr>kmem := m\<rparr>\<rparr>"

definition kmalloc :: "nat \<Rightarrow> kernel \<Rightarrow> (nat \<times> kernel) option" where
  "kmalloc n k = do { (p, h) \<leftarrow> exy_malloc (k_boot_pml4 k) n (k_heap k); Some (p, k\<lparr>k_heap := h\<rparr>) }"

definition kzalloc :: "nat \<Rightarrow> kernel \<Rightarrow> (nat \<times> kernel) option" where
  "kzalloc n k = do { (p, h) \<leftarrow> exy_zalloc (k_boot_pml4 k) n (k_heap k); Some (p, k\<lparr>k_heap := h\<rparr>) }"

definition kfree :: "nat \<Rightarrow> kernel \<Rightarrow> kernel option" where
  "kfree p k = do { h \<leftarrow> exy_free p (k_heap k); Some (k\<lparr>k_heap := h\<rparr>) }"

text \<open>Little-endian numbers, as the machine stores them.\<close>

definition le_bytes :: "nat \<Rightarrow> nat \<Rightarrow> byte list" where
  "le_bytes n v = map (\<lambda>i. word_of_nat (v div 256 ^ i)) [0..<n]"

definition le_val :: "byte list \<Rightarrow> nat" where
  "le_val bs = foldr (\<lambda>b v. unat b + 256 * v) bs 0"

definition field :: "byte list \<Rightarrow> nat \<Rightarrow> nat \<Rightarrow> nat" where
  "field bs off n = le_val (take n (drop off bs))"

definition kput_bytes :: "nat \<Rightarrow> byte list \<Rightarrow> (nat \<Rightarrow> byte) \<Rightarrow> nat \<Rightarrow> byte" where
  "kput_bytes a bs m = fold (\<lambda>i m. m(a + i := bs ! i)) [0..<length bs] m"

section \<open>Address spaces\<close>

definition vmm_create :: "kernel \<Rightarrow> (nat \<times> kernel) option" where
  "vmm_create k = do {
     (s, k) \<leftarrow> kzalloc SIZEOF_SPACE k;
     if s = 0 then Some (0, k)
     else let (np, v) = create_root (k_boot_pml4 k) (kvm k); k = set_vm v k in
       if np = 0 then do { k \<leftarrow> kfree s k; Some (0, k) }
       else Some (s, k\<lparr>k_spaces := (k_spaces k)(s := \<lparr>sp_pml4 = np, sp_refcount = 1, sp_is_kernel = False\<rparr>)\<rparr>) }"

definition destroy_space :: "nat \<Rightarrow> kernel \<Rightarrow> kernel option" where
  "destroy_space sp k = kfree sp (set_vm (destroy_tables (k_spaces k sp) (kvm k)) k)"

definition vmm_space_ref :: "nat \<Rightarrow> kernel \<Rightarrow> kernel" where
  "vmm_space_ref sp k =
    (if sp = 0 then k
     else if sp_is_kernel (k_spaces k sp) then k
     else k\<lparr>k_spaces := (k_spaces k)(sp := sp_refcount_update (\<lambda>n. wrap32 (n + 1)) (k_spaces k sp))\<rparr>)"

definition vmm_space_unref :: "nat \<Rightarrow> kernel \<Rightarrow> kernel option" where
  "vmm_space_unref sp k =
    (if sp = 0 then Some k
     else if sp_is_kernel (k_spaces k sp) then Some k
     else if sp_refcount (k_spaces k sp) = 0 then Some k
     else let k = k\<lparr>k_spaces := (k_spaces k)(sp := sp_refcount_update (\<lambda>n. n - 1) (k_spaces k sp))\<rparr> in
       if sp_refcount (k_spaces k sp) = 0 then destroy_space sp k else Some k)"

definition vmm_switch :: "nat \<Rightarrow> kernel \<Rightarrow> kernel" where
  "vmm_switch sp k = (if sp = 0 then k else k\<lparr>k_sched := (k_sched k)\<lparr>active_space := sp\<rparr>\<rparr>)"

text \<open>The root in CR3.\<close>

definition cr3 :: "kernel \<Rightarrow> paddr" where
  "cr3 k = sp_pml4 (k_spaces k (active_space (k_sched k)))"

definition k_copy_to_user :: "nat \<Rightarrow> vaddr \<Rightarrow> byte list \<Rightarrow> kernel \<Rightarrow> int \<times> kernel" where
  "k_copy_to_user sp va bs k =
    (let (r, ph) = copy_to_user (space_of sp k) (cr3 k) va bs (kvm k) (k_phys k) in (r, k\<lparr>k_phys := ph\<rparr>))"

definition k_copy_from_user :: "nat \<Rightarrow> vaddr \<Rightarrow> nat \<Rightarrow> kernel \<Rightarrow> int + byte list" where
  "k_copy_from_user sp va n k = copy_from_user (space_of sp k) (cr3 k) va n (kvm k) (k_phys k)"

text \<open>Fresh pages at a list of addresses, stopping at the first failure: how many were mapped.\<close>

primrec map_fresh :: "vmm_space option \<Rightarrow> u32 \<Rightarrow> vaddr list \<Rightarrow> vm \<Rightarrow> nat \<times> vm" where
  "map_fresh sp flags [] s = (0, s)"
| "map_fresh sp flags (va # vas) s =
    (let (pa, s) = vm_alloc_page s in
     if pa = 0 then (0, s)
     else let (ok, s) = vmm_map sp va pa flags s in
       if \<not> ok then (0, vm_free_page pa s)
       else let (n, s) = map_fresh sp flags vas s in (Suc n, s))"

text \<open>Undoing it, page by page.\<close>

definition unmap_page :: "vmm_space option \<Rightarrow> vaddr \<Rightarrow> vm \<Rightarrow> vm" where
  "unmap_page sp va s =
    (case vmm_query sp va s of None \<Rightarrow> s | Some (pa, _) \<Rightarrow> vm_free_page pa (snd (vmm_unmap sp va s)))"

section \<open>Channels\<close>

definition channel_create :: "nat \<Rightarrow> nat \<Rightarrow> kernel \<Rightarrow> (nat \<times> kernel) option" where
  "channel_create capacity msg_size k =
    (if capacity = 0 \<or> msg_size = 0 then Some (0, k)
     else do {
       (c, k) \<leftarrow> kzalloc SIZEOF_CHANNEL k;
       if c = 0 then Some (0, k)
       else do {
         let bytes = wrap64 (capacity * msg_size);
         (b, k) \<leftarrow> kmalloc bytes k;
         if b = 0 then do { k \<leftarrow> kfree c k; Some (0, k) }
         else do {
           let k = set_kmem (kput_bytes b (replicate bytes 0) (kmem (k_heap k))) k;
           (cp, k) \<leftarrow> kzalloc (wrap64 (capacity * SIZEOF_CHAN_CAP)) k;
           if cp = 0 then do { k \<leftarrow> kfree b k; k \<leftarrow> kfree c k; Some (0, k) }
           else Some (c, k\<lparr>k_chans := (k_chans k)(c := channel_fill capacity msg_size),
             k_chan_buffer := (k_chan_buffer k)(c := b), k_chan_caps := (k_chan_caps k)(c := cp)\<rparr>) } } })"

definition channel_destroy :: "nat \<Rightarrow> kernel \<Rightarrow> kernel option" where
  "channel_destroy c k =
    (if c = 0 then Some k
     else if \<not> waitq_empty (ch_senders (k_chans k c)) then None
     else if \<not> waitq_empty (ch_receivers (k_chans k c)) then None
     else do {
       k \<leftarrow> kfree (k_chan_caps k c) k;
       k \<leftarrow> kfree (k_chan_buffer k c) k;
       kfree c k })"

section \<open>Processes\<close>

text \<open>The table operation on process \<open>p\<close>, with the callback working on the rest of the kernel.\<close>

definition proc_close :: "(u32 \<Rightarrow> nat \<Rightarrow> kernel \<Rightarrow> kernel option) \<Rightarrow> nat \<Rightarrow> nat \<Rightarrow> kernel \<Rightarrow> (bool \<times> kernel) option" where
  "proc_close rel p h k =
    (let (r, t, ko) = handle_close (\<lambda>_ kd ob ko. Option.bind ko (rel kd ob)) h (p_handles (k_procs k p), Some k) in
     do { k \<leftarrow> ko; Some (r, upd_proc p (p_handles_update (\<lambda>_. t)) k) })"

definition proc_table_destroy :: "(u32 \<Rightarrow> nat \<Rightarrow> kernel \<Rightarrow> kernel option) \<Rightarrow> nat \<Rightarrow> kernel \<Rightarrow> kernel option" where
  "proc_table_destroy rel p k =
    (let (t, ko) = handle_table_destroy (\<lambda>_ kd ob ko. Option.bind ko (rel kd ob)) (p_handles (k_procs k p), Some k) in
     do { k \<leftarrow> ko; Some (upd_proc p (p_handles_update (\<lambda>_. t)) k) })"

partial_function (option) find_link :: "(nat \<Rightarrow> process) \<Rightarrow> nat \<Rightarrow> nat \<Rightarrow> nat \<Rightarrow> (nat \<times> nat) option" where
  "find_link ps p prev cur =
    (if cur \<noteq> 0 \<and> cur \<noteq> p then find_link ps p cur (p_list_next (ps cur)) else Some (prev, cur))"

definition unlink_process :: "nat \<Rightarrow> kernel \<Rightarrow> kernel option" where
  "unlink_process p k = do {
     (prev, cur) \<leftarrow> find_link (k_procs k) p 0 (k_proc_head k);
     Some (if cur = p
       then (let nx = p_list_next (k_procs k p) in
         if prev = 0 then k\<lparr>k_proc_head := nx\<rparr> else upd_proc prev (p_list_next_update (\<lambda>_. nx)) k)
       else k) }"

definition process_destroy_with :: "(u32 \<Rightarrow> nat \<Rightarrow> kernel \<Rightarrow> kernel option) \<Rightarrow> nat \<Rightarrow> kernel \<Rightarrow> kernel option" where
  "process_destroy_with rel p k =
    (if p = 0 then Some k
     else do {
       k \<leftarrow> unlink_process p k;
       k \<leftarrow> proc_table_destroy rel p k;
       k \<leftarrow> vmm_space_unref (p_space (k_procs k p)) k;
       k \<leftarrow> (if p_name (k_procs k p) \<noteq> 0 then kfree (p_name (k_procs k p)) k else Some k);
       kfree p k })"

definition process_unref_with :: "(u32 \<Rightarrow> nat \<Rightarrow> kernel \<Rightarrow> kernel option) \<Rightarrow> nat \<Rightarrow> kernel \<Rightarrow> kernel option" where
  "process_unref_with rel p k =
    (if p = 0 then Some k
     else if p_refcount (k_procs k p) = 0 then Some k
     else let k = upd_proc p (p_refcount_update (\<lambda>n. n - 1)) k in
       if p_refcount (k_procs k p) = 0 then process_destroy_with rel p k else Some k)"

primrec handle_release :: "nat \<Rightarrow> u32 \<Rightarrow> nat \<Rightarrow> kernel \<Rightarrow> kernel option" where
  "handle_release 0 kd ob k = None"
| "handle_release (Suc n) kd ob k =
    (if kd = HANDLE_KIND_CHANNEL then channel_destroy ob k
     else if kd = HANDLE_KIND_PROCESS then process_unref_with (handle_release n) ob k
     else Some k)"

definition process_destroy :: "nat \<Rightarrow> kernel \<Rightarrow> kernel option" where
  "process_destroy p k = process_destroy_with (handle_release (k_next_pid k)) p k"

definition process_unref :: "nat \<Rightarrow> kernel \<Rightarrow> kernel option" where
  "process_unref p k = process_unref_with (handle_release (k_next_pid k)) p k"

definition process_ref :: "nat \<Rightarrow> kernel \<Rightarrow> kernel" where
  "process_ref p k = (if p = 0 then k else upd_proc p (p_refcount_update (\<lambda>n. wrap32 (n + 1))) k)"

definition process_exit :: "nat \<Rightarrow> int \<Rightarrow> kernel \<Rightarrow> kernel option" where
  "process_exit p code k =
    (if p = 0 then Some k
     else if p_exited (k_procs k p) then Some k
     else do {
       let k = upd_proc p (p_exit_code_update (\<lambda>_. code) \<circ> p_exited_update (\<lambda>_. True)) k;
       (q, s) \<leftarrow> wake_all (p_waiters (k_procs k p), k_sched k);
       Some (upd_proc p (p_waiters_update (\<lambda>_. q)) (k\<lparr>k_sched := s\<rparr>)) })"

text \<open>One record of the snapshot, written over the old contents of the buffer: the name is copied up to its
  terminator or 31 bytes, and what follows the terminator keeps its old value.\<close>

primrec info_name :: "(nat \<Rightarrow> byte) \<Rightarrow> nat \<Rightarrow> nat \<Rightarrow> nat \<Rightarrow> byte list \<Rightarrow> byte list" where
  "info_name m nm 0 i out = out[i := 0]"
| "info_name m nm (Suc n) i out =
    (if m (nm + i) = 0 then out[i := 0] else info_name m nm n (Suc i) (out[i := m (nm + i)]))"

definition info_record :: "process \<Rightarrow> (nat \<Rightarrow> byte) \<Rightarrow> byte list \<Rightarrow> byte list" where
  "info_record p m old =
    le_bytes 8 (p_pid p) @ le_bytes 4 (if p_exited p then 1 else 0) @ le_bytes 4 0 @
    (if p_name p \<noteq> 0 then info_name m (p_name p) 31 0 (drop 16 old) else (drop 16 old)[0 := 0])"

primrec collect_from :: "nat \<Rightarrow> nat \<Rightarrow> kernel \<Rightarrow> nat \<Rightarrow> byte list" where
  "collect_from 0 p k n = []"
| "collect_from (Suc left) p k n =
    (if p = 0 then []
     else info_record (k_procs k p) (kmem (k_heap k)) (map (\<lambda>i. k_stack k (n * SIZEOF_INFO + i)) [0..<SIZEOF_INFO]) @
       collect_from left (p_list_next (k_procs k p)) k (Suc n))"

text \<open>The records written to the buffer; their number is the length divided by the record size.\<close>

definition process_collect :: "nat \<Rightarrow> kernel \<Rightarrow> byte list" where
  "process_collect maxn k = collect_from maxn (k_proc_head k) k 0"

section \<open>Pages of user spaces\<close>

lemma phys_upd [simp]:
  "cr3 (k\<lparr>k_phys := ph\<rparr>) = cr3 k" "kvm (k\<lparr>k_phys := ph\<rparr>) = kvm k" "space_of sp (k\<lparr>k_phys := ph\<rparr>) = space_of sp k"
  by (simp_all add: cr3_def kvm_def space_of_def)

lemma wrap64_once: "a < two64 \<Longrightarrow> b < two64 \<Longrightarrow> wrap64 (a + b) = (if a + b < two64 then a + b else a + b - two64)"
  by (simp add: wrap64_def mod_if)

text \<open>What the spaces with roots in \<open>R\<close> map, as one function, and the frames that hold their tables.\<close>

definition vpage :: "vaddr \<Rightarrow> bool" where
  "vpage va \<longleftrightarrow> va < 2 ^ 48 \<and> va mod PAGE_SIZE = 0"

definition absv :: "paddr set \<Rightarrow> vm \<Rightarrow> paddr \<Rightarrow> vaddr \<Rightarrow> (paddr \<times> u32) option" where
  "absv R s r va = (if r \<in> R \<and> vpage va then view s r va else None)"

definition nodes :: "paddr set \<Rightarrow> vm \<Rightarrow> paddr set" where
  "nodes R s = {a. \<exists>r \<in> R. \<exists>q. vpath q \<and> node s r q = Some a}"

abbreviation free_of :: "vm \<Rightarrow> paddr set" where
  "free_of s \<equiv> free_addrs (vm_pmm s)"

definition user_space :: "paddr set \<Rightarrow> vmm_space \<Rightarrow> bool" where
  "user_space R sp \<longleftrightarrow> sp_pml4 sp \<in> R \<and> \<not> sp_is_kernel sp"

definition user_va :: "vaddr \<Rightarrow> bool" where
  "user_va va \<longleftrightarrow> vpage va \<and> USER_VA_BASE \<le> va"

lemma user_vaD:
  assumes "user_va va"
  shows "va < 2 ^ 48" "va mod PAGE_SIZE = 0" "vpage va" "\<not> sp_is_kernel sp \<Longrightarrow> lower_bound sp \<le> va" "idx_pml4 va \<noteq> 0"
proof -
  show v: "va < 2 ^ 48" "va mod PAGE_SIZE = 0" "vpage va" "\<not> sp_is_kernel sp \<Longrightarrow> lower_bound sp \<le> va"
    using assms by (auto simp: user_va_def vpage_def lower_bound_def)
  have "va div 2 ^ 39 < 512" using v(1) by (simp add: less_mult_imp_div_less)
  moreover have "1 \<le> va div 2 ^ 39" using assms div_le_mono [of "2 ^ 39" va "2 ^ 39"] by (simp add: user_va_def)
  ultimately show "idx_pml4 va \<noteq> 0" by (simp add: idx_pml4_def)
qed

lemma vm_inv_nodes: "vm_inv R s \<Longrightarrow> nodes R s \<inter> free_of s = {}"
  using vm_invD(2) by (fastforce simp: nodes_def)

lemma grows_nodes: "grows R s s' \<Longrightarrow> nodes R s' \<subseteq> nodes R s \<union> free_of s \<and> free_of s' \<subseteq> free_of s"
  unfolding grows_def nodes_def by blast

lemma vm_inv_set_pmm:
  assumes "vm_inv R s" "pmm_ok m" "nodes R s \<inter> free_addrs m = {}"
  shows "vm_inv R (s\<lparr>vm_pmm := m\<rparr>)" "absv R (s\<lparr>vm_pmm := m\<rparr>) = absv R s" "nodes R (s\<lparr>vm_pmm := m\<rparr>) = nodes R s"
proof -
  have "a \<notin> free_addrs m" if "r \<in> R" "vpath q" "node s r q = Some a" for r q a
    using that assms(3) by (auto simp: nodes_def)
  note v = vm_inv_pmm [OF assms(1,2) this]
  show "vm_inv R (s\<lparr>vm_pmm := m\<rparr>)" by (rule v(1)) auto
  have w: "view (s\<lparr>vm_pmm := m\<rparr>) = view s" "node (s\<lparr>vm_pmm := m\<rparr>) = node s" by (rule v(2), auto) (rule v(3), auto)
  show "absv R (s\<lparr>vm_pmm := m\<rparr>) = absv R s" by (intro ext) (simp add: absv_def w(1))
  show "nodes R (s\<lparr>vm_pmm := m\<rparr>) = nodes R s" by (simp add: nodes_def w(2))
qed

lemma vm_alloc_page_ok:
  assumes "vm_inv R s" "vm_alloc_page s = (pa, s')"
  shows "if pa = 0 then s' = s
    else vm_inv R s' \<and> absv R s' = absv R s \<and> nodes R s' = nodes R s \<and> pa \<in> free_of s \<and> free_of s' = free_of s - {pa} \<and>
      pa < 2 ^ 52 \<and> pa mod PAGE_SIZE = 0"
proof -
  obtain m where al: "pmm_alloc_page (vm_pmm s) = (pa, m)" and s': "s' = s\<lparr>vm_pmm := m\<rparr>"
    using assms(2) by (auto simp: vm_alloc_page_def split: prod.splits)
  note ac = pmm.alloc_cases [OF vm_invD(1) [OF assms(1)] al]
  show ?thesis
  proof (cases "pa = 0")
    case True
    then show ?thesis using ac s' by simp
  next
    case False
    then have pa: "pa \<in> free_of s" "pmm_ok m" "free_addrs m = free_of s - {pa}" "PAGE_SIZE dvd pa" using ac by auto
    then have "nodes R s \<inter> free_addrs m = {}" using vm_inv_nodes [OF assms(1)] by auto
    from vm_inv_set_pmm [OF assms(1) pa(2) this] pa free_addrs_bound [OF vm_invD(1) [OF assms(1)] pa(1)] False
    show ?thesis by (simp add: s')
  qed
qed

lemma vm_free_page_ok:
  assumes "vm_inv R s" "pa \<notin> nodes R s"
  shows "vm_inv R (vm_free_page pa s) \<and> absv R (vm_free_page pa s) = absv R s \<and> nodes R (vm_free_page pa s) = nodes R s \<and>
    free_of (vm_free_page pa s) \<subseteq> insert pa (free_of s)"
proof -
  obtain ok m where fr: "pmm_free_page pa (vm_pmm s) = (ok, m)" by fastforce
  have rc: "pmm_ok m" "free_addrs m \<subseteq> insert pa (free_of s)"
    using pmm.release_cases [OF vm_invD(1) [OF assms(1)] fr] by (auto split: if_splits)
  then have "nodes R s \<inter> free_addrs m = {}" using vm_inv_nodes [OF assms(1)] assms(2) by auto
  from vm_inv_set_pmm [OF assms(1) rc(1) this] rc(2) show ?thesis by (simp add: vm_free_page_def fr)
qed

lemma vmm_map_abs:
  assumes inv: "vm_inv R s" and sp: "user_space R sp" and va: "user_va va" and pa: "pa < 2 ^ 52" "pa mod PAGE_SIZE = 0"
    and fl: "bit flags 0" and m: "vmm_map (Some sp) va pa flags s = (ok, s')"
  shows "vm_inv R s' \<and> grows R s s' \<and>
    (if ok then absv R s (sp_pml4 sp) va = None \<and>
        absv R s' = (absv R s)(sp_pml4 sp := (absv R s (sp_pml4 sp))(va \<mapsto> (pa, flags AND 15)))
     else absv R s' = absv R s)"
proof -
  have r: "sp_pml4 sp \<in> R" "\<not> sp_is_kernel sp" using sp by (auto simp: user_space_def)
  note v = user_vaD [OF va]
  note M = vmm_map_view [OF inv r(1) v(1,2) v(4) [OF r(2)] pa fl m]
  have w: "view s' r' x = (if ok \<and> x = va \<and> r' = sp_pml4 sp then Some (pa, flags AND 15) else view s r' x)"
    if "r' \<in> R" "vpage x" for r' x
    using conjunct2 [OF conjunct2 [OF conjunct2 [OF M]], rule_format, OF that(1), of x] that(2) v(5) by (simp add: vpage_def)
  have "absv R s' = (if ok then (absv R s)(sp_pml4 sp := (absv R s (sp_pml4 sp))(va \<mapsto> (pa, flags AND 15))) else absv R s)"
    using w r(1) v(3) by (auto simp: absv_def fun_eq_iff)
  moreover have "ok \<longrightarrow> absv R s (sp_pml4 sp) va = None" using M by (simp add: absv_def)
  ultimately show ?thesis using M by auto
qed

lemma vmm_query_abs:
  assumes "vm_inv R s" "user_space R sp" "vpage va"
  shows "vmm_query (Some sp) va s = absv R s (sp_pml4 sp) va"
  using vmm_query_view [OF assms(1)] assms(2,3) by (simp add: absv_def user_space_def vpage_def)

lemma vmm_unmap_nodes:
  assumes "vm_inv R s" "sp_pml4 sp \<in> R" "vmm_unmap (Some sp) va s = (ok, s')"
  shows "nodes R s' = nodes R s"
proof (cases "s' = s")
  case False
  then obtain pt where pt: "node s (sp_pml4 sp) (va_path va) = Some pt" "s' = pt_write pt (idx_pt va) 0 s"
    using assms(3) unfolding vmm_unmap_def walk_leaf_node by (auto simp: Let_def split: if_splits option.splits)
  have "node s' r q = node s r q" if "r \<in> R" "vpath q" for r q
    unfolding pt(2) by (rule node_leaf_write [OF assms(1,2) vpath_va _ pt(1) that]) (simp add: va_path_def)
  then have "(\<exists>r \<in> R. \<exists>q. vpath q \<and> node s' r q = Some a) \<longleftrightarrow> (\<exists>r \<in> R. \<exists>q. vpath q \<and> node s r q = Some a)" for a
    by (metis (full_types))
  then show ?thesis by (simp add: nodes_def)
qed simp

lemma unmap_page_ok:
  assumes inv: "vm_inv R s" and sp: "user_space R sp" and va: "user_va va"
    and q: "absv R s (sp_pml4 sp) va = Some (pa, f)" and pa: "pa \<notin> nodes R s"
  shows "vm_inv R (unmap_page (Some sp) va s) \<and> nodes R (unmap_page (Some sp) va s) = nodes R s \<and>
    free_of (unmap_page (Some sp) va s) \<subseteq> insert pa (free_of s) \<and>
    absv R (unmap_page (Some sp) va s) = (absv R s)(sp_pml4 sp := (absv R s (sp_pml4 sp))(va := None))"
proof -
  have r: "sp_pml4 sp \<in> R" "\<not> sp_is_kernel sp" using sp by (auto simp: user_space_def)
  note v = user_vaD [OF va]
  obtain ok s1 where u: "vmm_unmap (Some sp) va s = (ok, s1)" by fastforce
  note U = vmm_unmap_view [OF inv r(1) v(1,2) v(4) [OF r(2)] u]
  have w: "view s1 r' x = (if x = va \<and> r' = sp_pml4 sp then None else view s r' x)" if "r' \<in> R" "vpage x" for r' x
    using conjunct2 [OF conjunct2 [OF conjunct2 [OF U]], rule_format, OF that(1), of x] that(2) v(5) by (simp add: vpage_def)
  have a: "absv R s1 = (absv R s)(sp_pml4 sp := (absv R s (sp_pml4 sp))(va := None))"
    using w by (auto simp: absv_def fun_eq_iff)
  have n: "nodes R s1 = nodes R s" by (rule vmm_unmap_nodes [OF inv r(1) u])
  have e: "unmap_page (Some sp) va s = vm_free_page pa s1"
    using vmm_query_abs [OF inv sp v(3)] q by (simp add: unmap_page_def u)
  show ?thesis using vm_free_page_ok [of R s1 pa] U a n pa unfolding e by simp
qed

lemma map_fresh_ok:
  assumes "vm_inv R s" "user_space R sp" "\<forall>va \<in> set vas. user_va va" "bit flags 0" "map_fresh (Some sp) flags vas s = (n, s')"
  shows "\<exists>pas. length pas = n \<and> n \<le> length vas \<and> vm_inv R s' \<and> distinct pas \<and> distinct (take n vas) \<and> set pas \<subseteq> free_of s \<and>
    set pas \<inter> (free_of s' \<union> nodes R s') = {} \<and> free_of s' \<subseteq> free_of s \<and> nodes R s' \<subseteq> nodes R s \<union> free_of s \<and>
    (\<forall>va \<in> set (take n vas). absv R s (sp_pml4 sp) va = None) \<and>
    absv R s' = (absv R s)(sp_pml4 sp := (absv R s (sp_pml4 sp))(take n vas [\<mapsto>] map (\<lambda>pa. (pa, flags AND 15)) pas))"
  using assms
proof (induction vas arbitrary: s n)
  case Nil
  then show ?case by (intro exI [of _ "[]"]) simp
next
  case (Cons va vas)
  obtain pa s1 where al: "vm_alloc_page s = (pa, s1)" by fastforce
  note A = vm_alloc_page_ok [OF Cons.prems(1) al]
  show ?case
  proof (cases "pa = 0")
    case True
    then have "n = 0" "s' = s" using A Cons.prems(5) al by simp_all
    then show ?thesis using Cons.prems(1) by (intro exI [of _ "[]"]) simp
  next
    case False
    then have a1: "vm_inv R s1" "absv R s1 = absv R s" "nodes R s1 = nodes R s" "pa \<in> free_of s" "free_of s1 = free_of s - {pa}"
      "pa < 2 ^ 52" "pa mod PAGE_SIZE = 0" using A by simp_all
    obtain ok s2 where mp: "vmm_map (Some sp) va pa flags s1 = (ok, s2)" by fastforce
    have uva: "user_va va" using Cons.prems(3) by simp
    note M = vmm_map_abs [OF a1(1) Cons.prems(2) uva a1(6,7) Cons.prems(4) mp]
    have g: "nodes R s2 \<subseteq> nodes R s \<union> (free_of s - {pa})" "free_of s2 \<subseteq> free_of s - {pa}"
      using grows_nodes [of R s1 s2] M a1 by auto
    have pan: "pa \<notin> nodes R s2" using g(1) a1(4) vm_inv_nodes [OF Cons.prems(1)] by auto
    show ?thesis
    proof (cases ok)
      case False
      then have e: "n = 0" "s' = vm_free_page pa s2" using Cons.prems(5) al mp \<open>pa \<noteq> 0\<close> by simp_all
      show ?thesis
        using vm_free_page_ok [OF conjunct1 [OF M] pan] M False a1(2,4) g
        by (intro exI [of _ "[]"]) (auto simp: e)
    next
      case True
      obtain m where rec: "map_fresh (Some sp) flags vas s2 = (m, s')" and n: "n = Suc m"
        using Cons.prems(5) al mp True \<open>pa \<noteq> 0\<close> by (auto split: prod.splits)
      have "\<forall>va \<in> set vas. user_va va" using Cons.prems(3) by simp
      from Cons.IH [OF conjunct1 [OF M] Cons.prems(2) this Cons.prems(4) rec]
      obtain pas where p: "length pas = m" "m \<le> length vas" "vm_inv R s'" "distinct pas" "distinct (take m vas)" "set pas \<subseteq> free_of s2"
        "set pas \<inter> (free_of s' \<union> nodes R s') = {}" "free_of s' \<subseteq> free_of s2" "nodes R s' \<subseteq> nodes R s2 \<union> free_of s2"
        "\<forall>va \<in> set (take m vas). absv R s2 (sp_pml4 sp) va = None"
        "absv R s' = (absv R s2)(sp_pml4 sp := (absv R s2 (sp_pml4 sp))(take m vas [\<mapsto>] map (\<lambda>pa. (pa, flags AND 15)) pas))"
        by blast
      have M2: "absv R s (sp_pml4 sp) va = None"
        "absv R s2 = (absv R s)(sp_pml4 sp := (absv R s (sp_pml4 sp))(va \<mapsto> (pa, flags AND 15)))"
        using M True a1(2) by simp_all
      have va: "va \<notin> set (take m vas)" "\<forall>x \<in> set (take m vas). absv R s (sp_pml4 sp) x = None"
      proof -
        have x: "((absv R s (sp_pml4 sp))(va \<mapsto> (pa, flags AND 15))) x = None" if "x \<in> set (take m vas)" for x
          using bspec [OF p(10) that] unfolding M2(2) by (simp only: fun_upd_same)
        show "va \<notin> set (take m vas)" using x [of va] by auto
        show "\<forall>x \<in> set (take m vas). absv R s (sp_pml4 sp) x = None" using x by (metis fun_upd_apply option.distinct(1))
      qed
      have pa: "pa \<notin> set pas" "pa \<notin> free_of s'" "pa \<notin> nodes R s'" using p(6,8,9) g(2) pan by auto
      show ?thesis
      proof (intro exI [of _ "pa # pas"] conjI)
        show "absv R s' = (absv R s)(sp_pml4 sp := (absv R s (sp_pml4 sp))(take n (va # vas) [\<mapsto>] map (\<lambda>pa. (pa, flags AND 15)) (pa # pas)))"
          unfolding p(11) M2(2) n by simp
        show "nodes R s' \<subseteq> nodes R s \<union> free_of s" using p(9) g by blast
      qed (use p(1-8) va pa g a1(4) M2(1) n in auto)
    qed
  qed
qed

text \<open>Undoing a run of mappings gives the frames back and restores what was mapped before.\<close>

lemma unmap_run:
  assumes "vm_inv R s" "user_space R sp" "\<forall>va \<in> set vas. user_va va" "length pas = length vas" "distinct vas"
    "set pas \<inter> nodes R s = {}" "\<forall>va \<in> set vas. A va = None"
    "absv R s (sp_pml4 sp) = A(vas [\<mapsto>] map (\<lambda>pa. (pa, f)) pas)"
  shows "vm_inv R (fold (unmap_page (Some sp)) vas s) \<and> nodes R (fold (unmap_page (Some sp)) vas s) = nodes R s \<and>
    free_of (fold (unmap_page (Some sp)) vas s) \<subseteq> set pas \<union> free_of s \<and>
    absv R (fold (unmap_page (Some sp)) vas s) = (absv R s)(sp_pml4 sp := A)"
  using assms
proof (induction vas arbitrary: s pas)
  case Nil
  then show ?case by (auto simp: fun_eq_iff)
next
  case (Cons va vas)
  obtain pa ps where pas: "pas = pa # ps" using Cons.prems(4) by (cases pas) auto
  have l: "length ps = length vas" using Cons.prems(4) pas by simp
  have va: "va \<notin> set vas" using Cons.prems(5) by simp
  have q: "absv R s (sp_pml4 sp) va = Some (pa, f)"
    using va by (simp add: Cons.prems(8) pas map_upds_apply_nontin)
  have uva: "user_va va" and pan: "pa \<notin> nodes R s" using Cons.prems(3,6) pas by auto
  let ?s = "unmap_page (Some sp) va s"
  note U = unmap_page_ok [OF Cons.prems(1,2) uva q pan]
  have nx: "absv R ?s (sp_pml4 sp) = A(vas [\<mapsto>] map (\<lambda>pa. (pa, f)) ps)"
  proof -
    have "absv R ?s (sp_pml4 sp) = (A(va \<mapsto> (pa, f), vas [\<mapsto>] map (\<lambda>pa. (pa, f)) ps))(va := None)"
      using U Cons.prems(8) pas by simp
    also have "\<dots> = (A(vas [\<mapsto>] map (\<lambda>pa. (pa, f)) ps, va \<mapsto> (pa, f)))(va := None)"
      using va by (simp add: map_upds_twist)
    also have "\<dots> = (A(vas [\<mapsto>] map (\<lambda>pa. (pa, f)) ps))(va := None)" by simp
    also have "\<dots> = A(vas [\<mapsto>] map (\<lambda>pa. (pa, f)) ps)"
      using va Cons.prems(7) by (auto simp: fun_eq_iff map_upds_apply_nontin)
    finally show ?thesis .
  qed
  have "vm_inv R (fold (unmap_page (Some sp)) vas ?s) \<and> nodes R (fold (unmap_page (Some sp)) vas ?s) = nodes R ?s \<and>
    free_of (fold (unmap_page (Some sp)) vas ?s) \<subseteq> set ps \<union> free_of ?s \<and>
    absv R (fold (unmap_page (Some sp)) vas ?s) = (absv R ?s)(sp_pml4 sp := A)"
    by (rule Cons.IH [OF _ Cons.prems(2) _ l _ _ _ nx]) (use U Cons.prems pas in auto)
  then show ?case using U pas by auto
qed

end
