(* ===== verification/Exec.thy ===== *)
theory Exec
  imports Kernel
begin

text \<open>
  Starting processes: the ELF loader (\<^verbatim>\<open>core/elf.c\<close>), the construction of a process and of its first thread
  (\<^verbatim>\<open>core/process.c\<close>, \<^verbatim>\<open>core/thread.c\<close>), the initial user stack and the spawn functions (\<^verbatim>\<open>core/exec.c\<close>),
  and the reaper that undoes it (\<^verbatim>\<open>core/sched.c\<close>).

  An ELF image and a string are byte lists, a string without its terminator.
\<close>

section \<open>The ELF loader\<close>

record elf64_phdr =
  ph_type :: nat
  ph_offset :: nat
  ph_vaddr :: nat
  ph_filesz :: nat
  ph_memsz :: nat

definition elf_phdr :: "byte list \<Rightarrow> nat \<Rightarrow> elf64_phdr" where
  "elf_phdr data off = \<lparr>ph_type = field data off 4, ph_offset = field data (off + 8) 8, ph_vaddr = field data (off + 16) 8,
    ph_filesz = field data (off + 32) 8, ph_memsz = field data (off + 40) 8\<rparr>"

definition e_entry :: "byte list \<Rightarrow> nat" where "e_entry data = field data 24 8"
definition e_phoff :: "byte list \<Rightarrow> nat" where "e_phoff data = field data 32 8"
definition e_phnum :: "byte list \<Rightarrow> nat" where "e_phnum data = field data 56 2"

text \<open>The checks before the switch of address space.\<close>

definition elf_header_ok :: "byte list \<Rightarrow> bool" where
  "elf_header_ok data =
    (if length data < 64 then False
     else if data ! 0 \<noteq> 0x7F \<or> data ! 1 \<noteq> 0x45 \<or> data ! 2 \<noteq> 0x4C \<or> data ! 3 \<noteq> 0x46 then False
     else if data ! 4 \<noteq> 2 then False
     else if data ! 5 \<noteq> 1 then False
     else if field data 16 2 \<noteq> 2 then False
     else if field data 18 2 \<noteq> 0x3E then False
     else if field data 54 2 \<noteq> 56 then False
     else if e_phnum data = 0 then False
     else if length data < e_phoff data then False
     else let ph_bytes = e_phnum data * 56 in
       if ph_bytes div 56 \<noteq> e_phnum data then False
       else if length data - e_phoff data < ph_bytes then False
       else if e_entry data < USER_VA_BASE then False
       else True)"

function zero_user :: "nat \<Rightarrow> vaddr \<Rightarrow> nat \<Rightarrow> kernel \<Rightarrow> bool \<times> kernel" where
  "zero_user sp dst rem k =
    (if 0 < rem
     then let chunk = (if PAGE_SIZE < rem then PAGE_SIZE else rem);
         (r, k) = k_copy_to_user sp dst (replicate chunk 0) k in
       if r < 0 then (False, k) else zero_user sp (dst + chunk) (rem - chunk) k
     else (True, k))"
  by pat_completeness auto
termination by (relation "measure (\<lambda>(sp, dst, rem, k). rem)") (auto split: if_splits)

declare zero_user.simps [simp del]

text \<open>How the segment loop is left: by \<open>return false\<close>, by \<open>goto done\<close>, or at its end with the bounds.\<close>

datatype elf_exit = ElfReturn | ElfDone | ElfLoaded nat nat nat

definition segment_bad :: "byte list \<Rightarrow> elf64_phdr \<Rightarrow> bool" where
  "segment_bad data ph =
    (if ph_memsz ph < ph_filesz ph then True
     else if length data < ph_offset ph then True
     else if length data - ph_offset ph < ph_filesz ph then True
     else if ph_vaddr ph < USER_VA_BASE then True
     else if two64 - 1 - ph_vaddr ph < ph_memsz ph then True
     else let seg_start = align_down PAGE_SIZE (ph_vaddr ph); seg_end = align_up PAGE_SIZE (ph_vaddr ph + ph_memsz ph) in
       if seg_end < seg_start then True
       else if USER_VA_TOP < seg_end then True
       else False)"

definition load_segment :: "nat \<Rightarrow> byte list \<Rightarrow> elf64_phdr \<Rightarrow> kernel \<Rightarrow> bool \<times> kernel" where
  "load_segment sp data ph k =
    (let seg_start = align_down PAGE_SIZE (ph_vaddr ph); seg_end = align_up PAGE_SIZE (ph_vaddr ph + ph_memsz ph);
       vas = addr_steps seg_start seg_end;
       (n, s) = map_fresh (space_of sp k) (VM_PRESENT OR VM_WRITE OR VM_USER) vas (kvm k);
       k = set_vm s k in
     if n < length vas then (False, k)
     else let (ok, k) = zero_user sp (ph_vaddr ph) (ph_memsz ph) k in
       if \<not> ok then (False, k)
       else if 0 < ph_filesz ph
       then let (r, k) = k_copy_to_user sp (ph_vaddr ph) (take (ph_filesz ph) (drop (ph_offset ph) data)) k in (0 \<le> r, k)
       else (True, k))"

primrec elf_segments :: "nat \<Rightarrow> byte list \<Rightarrow> nat list \<Rightarrow> nat \<Rightarrow> nat \<Rightarrow> nat \<Rightarrow> kernel \<Rightarrow> elf_exit \<times> kernel" where
  "elf_segments sp data [] lowest highest loaded k = (ElfLoaded lowest highest loaded, k)"
| "elf_segments sp data (i # is) lowest highest loaded k =
    (let ph = elf_phdr data (e_phoff data + i * 56) in
     if ph_type ph \<noteq> 1 then elf_segments sp data is lowest highest loaded k
     else if ph_memsz ph = 0 then elf_segments sp data is lowest highest loaded k
     else if segment_bad data ph then (ElfReturn, k)
     else let (ok, k) = load_segment sp data ph k;
         seg_start = align_down PAGE_SIZE (ph_vaddr ph); seg_end = align_up PAGE_SIZE (ph_vaddr ph + ph_memsz ph) in
       if \<not> ok then (ElfDone, k)
       else elf_segments sp data is (if seg_start < lowest then seg_start else lowest)
         (if highest < seg_end then seg_end else highest) (loaded + 1) k)"

definition elf_load :: "nat \<Rightarrow> byte list \<Rightarrow> kernel \<Rightarrow> elf_image option \<times> kernel" where
  "elf_load sp data k =
    (if sp = 0 then (None, k)
     else if \<not> elf_header_ok data then (None, k)
     else let prev = th_space (threads (k_sched k) (current (k_sched k)));
         need_switch = (prev \<noteq> sp);
         k = (if need_switch then vmm_switch sp k else k);
         (e, k) = elf_segments sp data [0..<e_phnum data] (two64 - 1) 0 0 k;
         back = (if need_switch then vmm_switch prev k else k) in
       case e of
         ElfReturn \<Rightarrow> (None, k)
       | ElfDone \<Rightarrow> (None, back)
       | ElfLoaded lowest highest loaded \<Rightarrow>
           if loaded = 0 then (None, back)
           else (Some \<lparr>img_entry = e_entry data, img_load_base = lowest, img_load_size = highest - lowest\<rparr>, back))"

section \<open>Processes and threads\<close>

definition proc_zero :: process where
  "proc_zero = \<lparr>p_pid = 0, p_name = 0, p_space = 0, p_entry = 0, p_main_thread = 0,
    p_handles = \<lparr>entries = replicate HANDLE_MAX empty_entry, next_hint = 0, release = 0\<rparr>,
    p_initial_rsp = 0, p_next_map_va = 0, p_refcount = 0, p_exit_code = 0, p_exited = False,
    p_bootstrap_handle = 0, p_waiters = waitq_init, p_list_next = 0\<rparr>"

definition process_create_from_elf :: "byte list \<Rightarrow> byte list \<Rightarrow> kernel \<Rightarrow> (nat \<times> kernel) option" where
  "process_create_from_elf name elf k = do {
     (space, k) \<leftarrow> vmm_create k;
     if space = 0 then Some (0, k)
     else case elf_load space elf k of
       (None, k) \<Rightarrow> do { k \<leftarrow> vmm_space_unref space k; Some (0, k) }
     | (Some img, k) \<Rightarrow> do {
         (p, k) \<leftarrow> kzalloc SIZEOF_PROCESS k;
         if p = 0 then do { k \<leftarrow> vmm_space_unref space k; Some (0, k) }
         else do {
           (name_copy, k) \<leftarrow> kmalloc (length name + 1) k;
           if name_copy = 0 then do { k \<leftarrow> vmm_space_unref space k; k \<leftarrow> kfree p k; Some (0, k) }
           else do {
             let k = set_kmem (kput_bytes name_copy (name @ [0]) (kmem (k_heap k))) k;
             let m = wrap64 (img_load_base img + img_load_size img);
             let pr = proc_zero\<lparr>p_pid := k_next_pid k, p_name := name_copy, p_space := space, p_entry := img_entry img,
               p_main_thread := 0, p_initial_rsp := 0, p_next_map_va := align_up 0x10000 m, p_refcount := 1,
               p_exit_code := 0, p_exited := False, p_bootstrap_handle := HANDLE_INVALID,
               p_handles := handle_table_init (k_release k) (p_handles proc_zero), p_waiters := waitq_init,
               p_list_next := k_proc_head k\<rparr>;
             Some (p, k\<lparr>k_procs := (k_procs k)(p := pr), k_next_pid := wrap64 (k_next_pid k + 1), k_proc_head := p\<rparr>) } } } }"

definition thread_create :: "nat \<Rightarrow> nat \<Rightarrow> string \<Rightarrow> kernel \<Rightarrow> (nat \<times> kernel) option" where
  "thread_create fn arg name k =
    (if fn = 0 then Some (0, k)
     else do {
       (t, k) \<leftarrow> kzalloc SIZEOF_THREAD k;
       if t = 0 then Some (0, k)
       else do {
         (stack, k) \<leftarrow> kmalloc THREAD_STACK_SIZE k;
         if stack = 0 then do { k \<leftarrow> kfree t k; Some (0, k) }
         else do {
           let top = stack + THREAD_STACK_SIZE;
           let f = top - 56;
           let k = set_kmem (kput_bytes f (concat (map (le_bytes 8) [0, 0, arg, fn, 0, 0, k_trampoline k])) (kmem (k_heap k))) k;
           let th = \<lparr>th_rsp = f, th_state = THREAD_READY, th_id = k_next_tid k, th_ticks_used = 0, th_stack_base = stack,
             th_stack_size = THREAD_STACK_SIZE, th_kernel_stack_top = top, th_space = k_kernel_space k, th_process = 0,
             th_entry = fn, th_arg = arg, th_next = 0, th_wait_next = 0, th_name = name\<rparr>;
           let s = th_upd t (\<lambda>_. th) (k_sched k);
           Some (t, k\<lparr>k_sched := sched_enqueue t s, k_next_tid := wrap64 (k_next_tid k + 1)\<rparr>) } } })"

definition thread_create_ex :: "nat \<Rightarrow> nat \<Rightarrow> string \<Rightarrow> nat \<Rightarrow> kernel \<Rightarrow> (nat \<times> kernel) option" where
  "thread_create_ex fn arg name space k = do {
     (t, k) \<leftarrow> thread_create fn arg name k;
     Some (t, if t \<noteq> 0 then k\<lparr>k_sched := th_upd t (th_space_update (\<lambda>_. space)) (k_sched k)\<rparr> else k) }"

definition free_thread :: "nat \<Rightarrow> kernel \<Rightarrow> kernel option" where
  "free_thread t k = do {
     let th = threads (k_sched k) t;
     k \<leftarrow> (if th_process th \<noteq> 0 \<and> p_main_thread (k_procs k (th_process th)) = t
         then process_unref (th_process th) k else Some k);
     k \<leftarrow> (if th_space th \<noteq> 0 then vmm_space_unref (th_space th) k else Some k);
     k \<leftarrow> (if th_stack_base th \<noteq> 0 then kfree (th_stack_base th) k else Some k);
     kfree t k }"

partial_function (option) reap_from :: "nat \<Rightarrow> kernel \<Rightarrow> kernel option" where
  "reap_from z k =
    (if z = 0 then Some k
     else do {
       k' \<leftarrow> free_thread z (k\<lparr>k_sched := th_upd z (th_next_update (\<lambda>_. 0)) (k_sched k)\<rparr>);
       reap_from (th_next (threads (k_sched k) z)) k' })"

definition reap_zombies :: "kernel \<Rightarrow> kernel option" where
  "reap_zombies k = reap_from (zombie_head (k_sched k)) (k\<lparr>k_sched := (k_sched k)\<lparr>zombie_head := 0, zombie_tail := 0\<rparr>\<rparr>)"

section \<open>The initial user stack\<close>

definition map_user_stack :: "nat \<Rightarrow> vaddr \<Rightarrow> nat \<Rightarrow> kernel \<Rightarrow> bool \<times> kernel" where
  "map_user_stack sp stack_top pages k =
    (let vas = map (\<lambda>i. stack_top - (i + 1) * PAGE_SIZE) [0..<pages];
       (n, s) = map_fresh (space_of sp k) (VM_PRESENT OR VM_WRITE OR VM_USER) vas (kvm k) in
     (n = length vas, set_vm s k))"

text \<open>A store of the kernel to a user address, unchecked: \<open>None\<close> is a page fault in kernel mode.\<close>

definition write_user :: "vaddr \<Rightarrow> byte list \<Rightarrow> kernel \<Rightarrow> kernel option" where
  "write_user va bs k =
    (let (r, ph) = uaccess_memcpy_to_user (kvm k) (cr3 k) va bs (k_phys k) in if r = 0 then Some (k\<lparr>k_phys := ph\<rparr>) else None)"

text \<open>The page loop of \<^verbatim>\<open>map_initrd\<close> at page \<open>i\<close>: whether it succeeded and how many pages were mapped.\<close>

primrec initrd_pages :: "nat \<Rightarrow> byte list \<Rightarrow> nat \<Rightarrow> nat \<Rightarrow> kernel \<Rightarrow> (bool \<times> nat \<times> kernel) option" where
  "initrd_pages sp src 0 i k = Some (True, i, k)"
| "initrd_pages sp src (Suc n) i k =
    (let va = INITRD_VA + i * PAGE_SIZE; (pa, s) = vm_alloc_page (kvm k) in
     if pa = 0 then Some (False, i, set_vm s k)
     else let (ok, s) = vmm_map (space_of sp k) va pa (VM_PRESENT OR VM_USER) s in
       if \<not> ok then Some (False, i, set_vm (vm_free_page pa s) k)
       else let off = i * PAGE_SIZE;
           remain = (if off < length src then length src - off else 0);
           remain = (if PAGE_SIZE < remain then PAGE_SIZE else remain) in
         do {
           k \<leftarrow> write_user va (replicate PAGE_SIZE 0) (set_vm s k);
           k \<leftarrow> write_user va (take remain (drop off src)) k;
           initrd_pages sp src n (i + 1) k })"

definition map_initrd :: "nat \<Rightarrow> byte list \<Rightarrow> kernel \<Rightarrow> (bool \<times> kernel) option" where
  "map_initrd sp src k =
    (if length src = 0 then Some (True, k)
     else let pages = (length src + PAGE_SIZE - 1) div PAGE_SIZE in
       if \<exists>i \<in> set [0..<pages]. vmm_query (space_of sp k) (INITRD_VA + i * PAGE_SIZE) (kvm k) \<noteq> None then Some (False, k)
       else do {
         let prev = th_space (threads (k_sched k) (current (k_sched k)));
         let need_switch = (prev \<noteq> sp);
         let k = (if need_switch then vmm_switch sp k else k);
         (ok, mapped, k) \<leftarrow> initrd_pages sp src pages 0 k;
         let k = (if \<not> ok
           then set_vm (fold (\<lambda>i s. unmap_page (space_of sp k) (INITRD_VA + i * PAGE_SIZE) s) [0..<mapped] (kvm k)) k
           else k);
         Some (ok, if need_switch then vmm_switch prev k else k) })"

definition write_user_bytes :: "nat \<Rightarrow> vaddr \<Rightarrow> byte list \<Rightarrow> kernel \<Rightarrow> bool \<times> kernel" where
  "write_user_bytes sp va src k = (let (r, k) = k_copy_to_user sp va src k in (r = 0, k))"

definition sub64 :: "nat \<Rightarrow> nat \<Rightarrow> nat" where
  "sub64 a b = wrap64 (a + two64 - b)"

definition push_u64 :: "nat \<Rightarrow> nat \<Rightarrow> vaddr \<Rightarrow> kernel \<Rightarrow> bool \<times> vaddr \<times> kernel" where
  "push_u64 sp v rsp k =
    (let rsp = sub64 rsp 8; (ok, k) = write_user_bytes sp rsp (le_bytes 8 v) k in (ok, rsp, k))"

definition push_string :: "nat \<Rightarrow> byte list \<Rightarrow> vaddr \<Rightarrow> kernel \<Rightarrow> bool \<times> vaddr \<times> kernel" where
  "push_string sp str rsp k =
    (let len = length str + 1; rsp = sub64 rsp len; (ok, k) = write_user_bytes sp rsp (str @ [0]) k in (ok, rsp, k))"

text \<open>The two kinds of loop, which run from the last element to the first.\<close>

primrec push_strings :: "nat \<Rightarrow> byte list list \<Rightarrow> vaddr \<Rightarrow> kernel \<Rightarrow> (vaddr list \<times> vaddr) option \<times> kernel" where
  "push_strings sp [] rsp k = (Some ([], rsp), k)"
| "push_strings sp (str # strs) rsp k =
    (case push_strings sp strs rsp k of
       (None, k) \<Rightarrow> (None, k)
     | (Some (vas, rsp), k) \<Rightarrow>
         (let (ok, rsp, k) = push_string sp str rsp k in if ok then (Some (rsp # vas, rsp), k) else (None, k)))"

primrec push_u64s :: "nat \<Rightarrow> nat list \<Rightarrow> vaddr \<Rightarrow> kernel \<Rightarrow> vaddr option \<times> kernel" where
  "push_u64s sp [] rsp k = (Some rsp, k)"
| "push_u64s sp (v # vs) rsp k =
    (case push_u64s sp vs rsp k of
       (None, k) \<Rightarrow> (None, k)
     | (Some rsp, k) \<Rightarrow> (let (ok, rsp, k) = push_u64 sp v rsp k in (if ok then Some rsp else None, k)))"

text \<open>The body between the two switches: the words, from the lowest address up, are the argument count, the
  argument pointers, a null, the environment pointers, a null and the padding.\<close>

definition stack_body :: "nat \<Rightarrow> vaddr \<Rightarrow> byte list list \<Rightarrow> byte list list \<Rightarrow> kernel \<Rightarrow> nat \<times> kernel" where
  "stack_body sp stack_top argv envp k =
    (case push_strings sp envp stack_top k of
       (None, k) \<Rightarrow> (0, k)
     | (Some (envp_va, rsp), k) \<Rightarrow>
         (case push_strings sp argv rsp k of
            (None, k) \<Rightarrow> (0, k)
          | (Some (argv_va, rsp), k) \<Rightarrow>
              (let rsp = align_down 16 rsp;
                 pad = (if (length argv + length envp + 3) mod 2 = 1 then [0] else []) in
               case push_u64s sp ([length argv] @ argv_va @ [0] @ envp_va @ [0] @ pad) rsp k of
                 (None, k) \<Rightarrow> (0, k)
               | (Some rsp, k) \<Rightarrow> (rsp, k))))"

definition exec_build_initial_stack :: "nat \<Rightarrow> vaddr \<Rightarrow> byte list list \<Rightarrow> byte list list \<Rightarrow> kernel \<Rightarrow> nat \<times> kernel" where
  "exec_build_initial_stack sp stack_top argv envp k =
    (if EXEC_MAX_ARGS < length argv then (0, k)
     else if EXEC_MAX_ENVS < length envp then (0, k)
     else if sp = 0 then (0, k)
     else let prev = th_space (threads (k_sched k) (current (k_sched k)));
         need_switch = (prev \<noteq> sp);
         k = (if need_switch then vmm_switch sp k else k);
         (result, k) = stack_body sp stack_top argv envp k in
       (result, if need_switch then vmm_switch prev k else k))"

section \<open>Spawning\<close>

definition kstring :: "byte list \<Rightarrow> string" where
  "kstring bs = map (\<lambda>b. char_of (unat b)) bs"

definition destroy_fail :: "nat \<Rightarrow> kernel \<Rightarrow> (nat \<times> kernel) option" where
  "destroy_fail p k = do { k \<leftarrow> process_destroy p k; Some (0, k) }"

definition start_thread :: "byte list \<Rightarrow> nat \<Rightarrow> kernel \<Rightarrow> (nat \<times> kernel) option" where
  "start_thread name p k = do {
     let sp = p_space (k_procs k p);
     let k = vmm_space_ref sp k;
     (t, k) \<leftarrow> thread_create_ex (k_user_entry k) p (kstring name) sp k;
     if t \<noteq> 0
     then Some (p, upd_proc p (p_main_thread_update (\<lambda>_. t)) (k\<lparr>k_sched := th_upd t (th_process_update (\<lambda>_. p)) (k_sched k)\<rparr>))
     else do { k \<leftarrow> vmm_space_unref sp k; destroy_fail p k } }"

definition spawn_common :: "byte list \<Rightarrow> byte list \<Rightarrow> byte list \<Rightarrow> byte list list \<Rightarrow> byte list list \<Rightarrow> kernel \<Rightarrow> (nat \<times> kernel) option" where
  "spawn_common name elf initrd argv envp k = do {
     (p, k) \<leftarrow> process_create_from_elf name elf k;
     if p = 0 then Some (0, k)
     else do {
       (ok, k) \<leftarrow> (if initrd \<noteq> [] then map_initrd (p_space (k_procs k p)) initrd k else Some (True, k));
       if \<not> ok then destroy_fail p k
       else let (ok, k) = map_user_stack (p_space (k_procs k p)) USER_STACK_TOP_INIT EXEC_STACK_PAGES k in
         if \<not> ok then destroy_fail p k
         else let (init_rsp, k) = exec_build_initial_stack (p_space (k_procs k p)) USER_STACK_TOP_INIT argv envp k in
           if init_rsp = 0 then destroy_fail p k
           else start_thread name p (upd_proc p (p_initial_rsp_update (\<lambda>_. init_rsp)) k) } }"

definition process_spawn :: "byte list \<Rightarrow> byte list \<Rightarrow> byte list list \<Rightarrow> byte list list \<Rightarrow> kernel \<Rightarrow> (nat \<times> kernel) option" where
  "process_spawn name elf argv envp k = spawn_common name elf [] argv envp k"

definition process_spawn_init ::
  "byte list \<Rightarrow> byte list \<Rightarrow> byte list \<Rightarrow> byte list list \<Rightarrow> byte list list \<Rightarrow> kernel \<Rightarrow> (nat \<times> kernel) option" where
  "process_spawn_init name elf initrd argv envp k = spawn_common name elf initrd argv envp k"

section \<open>A concrete kernel\<close>

text \<open>A kernel with one process, whose space has its tables in place, and one free page.\<close>

definition wit_pmm1 :: pmm where
  "wit_pmm1 = \<lparr>used_bitmap = [127], resv_bitmap = [1], bitmap_words = 1, total_pages = 8, free_pages = 1, max_paddr = 32768\<rparr>"

definition wit_kernel :: kernel where
  "wit_kernel = \<lparr>k_sched = wit_sched\<lparr>current := 1, threads := (\<lambda>_. wit_thread\<lparr>th_process := 1, th_space := 2\<rparr>), active_space := 2\<rparr>,
    k_heap = wit_heap\<lparr>heap_vm := wit_vm\<lparr>vm_pmm := wit_pmm1\<rparr>\<rparr>, k_spaces = (\<lambda>_. wit_sp),
    k_procs = (\<lambda>_. proc_zero\<lparr>p_space := 2, p_next_map_va := 0x8000010000\<rparr>), k_chans = (\<lambda>_. lw_chan),
    k_chan_buffer = (\<lambda>_. 0), k_chan_caps = (\<lambda>_. 0), k_proc_head = 0, k_next_pid = 2, k_next_tid = 2, k_phys = (\<lambda>_. 0),
    k_console_out = [], k_console_in = [], k_boot_pml4 = 4096, k_kernel_space = 3, k_trampoline = 0, k_user_entry = 1,
    k_release = 1, k_stack = (\<lambda>_. 0)\<rparr>"

lemma wit_pmm1_get: "p < 8 \<Longrightarrow> used_get wit_pmm1 p \<longleftrightarrow> p \<noteq> 7" "p < 8 \<Longrightarrow> resv_get wit_pmm1 p \<longleftrightarrow> p = 0"
proof -
  assume "p < 8"
  then consider "p = 0" | "p = 1" | "p = 2" | "p = 3" | "p = 4" | "p = 5" | "p = 6" | "p = 7" by linarith
  then have "(used_get wit_pmm1 p \<longleftrightarrow> p \<noteq> 7) \<and> (resv_get wit_pmm1 p \<longleftrightarrow> p = 0)"
    by cases (simp_all add: used_get_def resv_get_def bm_get_bit wit_pmm1_def)
  then show "used_get wit_pmm1 p \<longleftrightarrow> p \<noteq> 7" "resv_get wit_pmm1 p \<longleftrightarrow> p = 0" by blast+
qed

lemma wit_pmm1_total [simp]: "total_pages wit_pmm1 = 8" "free_pages wit_pmm1 = 1"
  by (simp_all add: wit_pmm1_def)

lemma wit_pmm1_free: "pmm_free_set wit_pmm1 = {7}" "free_addrs wit_pmm1 = {28672}"
proof -
  have "p \<in> pmm_free_set wit_pmm1 \<longleftrightarrow> p = 7" for p
    by (cases "p < 8") (auto simp: pmm_free_set_def wit_pmm1_get)
  then show "pmm_free_set wit_pmm1 = {7}" by blast
  then show "free_addrs wit_pmm1 = {28672}" by (simp add: free_addrs_def)
qed

lemma wit_pmm1_ok: "pmm_ok wit_pmm1"
proof -
  have "pmm_shape wit_pmm1" by (simp add: pmm_shape_def wit_pmm1_def)
  then show ?thesis using wit_pmm1_free(1) wit_pmm1_get by (simp add: pmm_ok_def pmm_inv_def)
qed

lemma wit_kernel_vm: "vm_inv {4096} (kvm wit_kernel)"
proof -
  have "a \<noteq> 28672" if "vpath q" "node wit_vm 4096 q = Some a" for q a using wit_node [OF that] by auto
  then have "nodes {4096} wit_vm \<inter> free_addrs wit_pmm1 = {}" by (auto simp: nodes_def wit_pmm1_free)
  from vm_inv_set_pmm(1) [OF wit_vm_inv wit_pmm1_ok this] show ?thesis by (simp add: kvm_def wit_kernel_def)
qed

end
