(* ===== verification/Syscall.thy ===== *)
theory Syscall
  imports Exec
begin

text \<open>
  The system calls, \<^verbatim>\<open>kernel/core/syscall.c\<close>: every handler and the dispatcher.

  Arguments are 64-bit numbers, a handle argument is cut to 32 bits as the casts of the source do.  A
  handler that blocks runs up to the point where its thread parks; \<open>Park\<close> then says which loop it is
  parked in, with the locals the loop needs, and \<open>sys_resume\<close> is the next pass of that loop once the
  thread runs again, after the reaping of exited threads that a switch ends with.  \<open>None\<close> is a panic or a kernel fault, among them the overflow of the message buffer
  on the kernel stack by a channel whose messages are larger than it.
\<close>

abbreviation SYSCALL_IO_MAX :: nat where "SYSCALL_IO_MAX \<equiv> 4096"
abbreviation IPC_MSG_SIZE_MAX :: nat where "IPC_MSG_SIZE_MAX \<equiv> 1024"
abbreviation IPC_CAPACITY_MAX :: nat where "IPC_CAPACITY_MAX \<equiv> 64"
abbreviation IPC_CAP_TRANSFER :: nat where "IPC_CAP_TRANSFER \<equiv> 1"
abbreviation IPC_CAP_DUPLICATE :: nat where "IPC_CAP_DUPLICATE \<equiv> 2"
abbreviation MAP_MAX_PAGES :: nat where "MAP_MAX_PAGES \<equiv> 1024"
abbreviation SPAWN_NAME_MAX :: nat where "SPAWN_NAME_MAX \<equiv> 64"
abbreviation SPAWN_ELF_MAX :: nat where "SPAWN_ELF_MAX \<equiv> 4194304"
abbreviation PROC_LIST_MAX :: nat where "PROC_LIST_MAX \<equiv> 64"
abbreviation SYSCALL_MAX :: nat where "SYSCALL_MAX \<equiv> 29"

datatype pending =
    PSend nat "byte list"
  | PSendCap nat "byte list" u32 u32 nat bool bool "nat option"
  | PRecv nat vaddr
  | PRecvCap nat vaddr vaddr
  | PWait nat
  | PYield

datatype outcome = Ret int | Park pending | NoReturn

type_synonym sysres = "(outcome \<times> kernel) option"

definition ret :: "int \<Rightarrow> kernel \<Rightarrow> sysres" where
  "ret r k = Some (Ret r, k)"

definition kcopy :: "byte list \<Rightarrow> nat \<Rightarrow> byte list" where
  "kcopy src n = copy_bytes 0 src n (replicate n 0)"

definition current_process :: "kernel \<Rightarrow> nat" where
  "current_process k =
    (let t = current (k_sched k) in if t = 0 \<or> th_process (threads (k_sched k) t) = 0 then 0 else th_process (threads (k_sched k) t))"

abbreviation table_of :: "nat \<Rightarrow> kernel \<Rightarrow> handle_table" where
  "table_of p k \<equiv> p_handles (k_procs k p)"

abbreviation set_table :: "nat \<Rightarrow> handle_table \<Rightarrow> kernel \<Rightarrow> kernel" where
  "set_table p t k \<equiv> upd_proc p (p_handles_update (\<lambda>_. t)) k"

abbreviation set_chan :: "nat \<Rightarrow> channel \<times> sched \<Rightarrow> kernel \<Rightarrow> kernel" where
  "set_chan c x k \<equiv> k\<lparr>k_chans := (k_chans k)(c := fst x), k_sched := snd x\<rparr>"

section \<open>Core\<close>

definition sys_ping :: "nat \<Rightarrow> kernel \<Rightarrow> sysres" where
  "sys_ping a0 k = ret (sint (0xDEADBEEFCAFE0000 XOR word_of_nat a0 :: u64)) k"

definition sys_exit :: "nat \<Rightarrow> kernel \<Rightarrow> sysres" where
  "sys_exit code k = do {
     let p = current_process k;
     k \<leftarrow> (if p \<noteq> 0 then process_exit p (sint (word_of_nat code :: u32)) k else Some k);
     s \<leftarrow> thread_exit (k_sched k);
     Some (NoReturn, k\<lparr>k_sched := s\<rparr>) }"

definition sys_handle_create :: "nat \<Rightarrow> nat \<Rightarrow> nat \<Rightarrow> kernel \<Rightarrow> sysres" where
  "sys_handle_create kd rights object k =
    (let p = current_process k in
     if p = 0 then ret (- EPERM) k
     else let (h, t) = handle_create (word_of_nat kd) (word_of_nat rights) object (table_of p k); k = set_table p t k in
       if h = HANDLE_INVALID then ret (- EMFILE) k else ret (int h) k)"

definition sys_handle_close :: "nat \<Rightarrow> kernel \<Rightarrow> sysres" where
  "sys_handle_close h k =
    (let p = current_process k in
     if p = 0 then ret (- EPERM) k
     else do {
       (ok, k) \<leftarrow> proc_close (handle_release (k_next_pid k)) p (wrap32 h) k;
       if \<not> ok then ret (- EBADF) k else ret 0 k })"

definition sys_handle_query :: "nat \<Rightarrow> nat \<Rightarrow> kernel \<Rightarrow> sysres" where
  "sys_handle_query h required k =
    (let p = current_process k in
     if p = 0 then ret (- EPERM) k
     else if handle_lookup (table_of p k) (wrap32 h) (word_of_nat required) = None then ret (- EPERM) k
     else ret 1 k)"

definition sys_getpid :: "kernel \<Rightarrow> sysres" where
  "sys_getpid k =
    (let p = current_process k in
     if p = 0 then ret (- EPERM) k else ret (sint (word_of_nat (p_pid (k_procs k p)) :: u64)) k)"

section \<open>Messages\<close>

definition lookup_channel :: "nat \<Rightarrow> nat \<Rightarrow> u32 \<Rightarrow> kernel \<Rightarrow> nat" where
  "lookup_channel p h required k =
    (case handle_lookup (table_of p k) h required of
       None \<Rightarrow> 0
     | Some (obj, kd) \<Rightarrow> if kd \<noteq> HANDLE_KIND_CHANNEL then 0 else obj)"

definition sys_ipc_create :: "nat \<Rightarrow> nat \<Rightarrow> kernel \<Rightarrow> sysres" where
  "sys_ipc_create msg_size capacity k =
    (let p = current_process k in
     if p = 0 then ret (- EPERM) k
     else if msg_size = 0 \<or> IPC_MSG_SIZE_MAX < msg_size then ret (- EINVAL) k
     else if capacity = 0 \<or> IPC_CAPACITY_MAX < capacity then ret (- EINVAL) k
     else do {
       (c, k) \<leftarrow> channel_create capacity msg_size k;
       if c = 0 then ret (- ENOMEM) k
       else let (h, t) = handle_create HANDLE_KIND_CHANNEL
             (HANDLE_RIGHT_READ OR HANDLE_RIGHT_WRITE OR HANDLE_RIGHT_TRANSFER) c (table_of p k);
           k = set_table p t k in
         if h = HANDLE_INVALID then do { k \<leftarrow> channel_destroy c k; ret (- EMFILE) k }
         else ret (int h) k })"

text \<open>The copy of a message from user space into the buffer on the kernel stack: the error, or the bytes.\<close>

definition fetch_msg :: "nat \<Rightarrow> vaddr \<Rightarrow> nat \<Rightarrow> kernel \<Rightarrow> (int + byte list) option" where
  "fetch_msg p buf_u len k =
    (case k_copy_from_user (p_space (k_procs k p)) buf_u len k of
       Inl e \<Rightarrow> Some (Inl e)
     | Inr bs \<Rightarrow> if IPC_MSG_SIZE_MAX < len then None else Some (Inr bs))"

definition send_pass :: "nat \<Rightarrow> byte list \<Rightarrow> kernel \<Rightarrow> sysres" where
  "send_pass c kbuf k = do {
     (sent, x) \<leftarrow> channel_send kbuf (k_chans k c, k_sched k);
     Some (if sent then Ret 0 else Park (PSend c kbuf), set_chan c x k) }"

definition sys_ipc_send :: "nat \<Rightarrow> nat \<Rightarrow> nat \<Rightarrow> kernel \<Rightarrow> sysres" where
  "sys_ipc_send h buf_u len k =
    (let p = current_process k in
     if p = 0 then ret (- EPERM) k
     else let c = lookup_channel p (wrap32 h) HANDLE_RIGHT_WRITE k in
       if c = 0 then ret (- EBADF) k
       else if len \<noteq> ch_msg_size (k_chans k c) then ret (- EINVAL) k
       else do {
         m \<leftarrow> fetch_msg p buf_u len k;
         case m of Inl e \<Rightarrow> ret (- EFAULT) k | Inr kbuf \<Rightarrow> send_pass c kbuf k })"

definition sys_ipc_try_send :: "nat \<Rightarrow> nat \<Rightarrow> nat \<Rightarrow> kernel \<Rightarrow> sysres" where
  "sys_ipc_try_send h buf_u len k =
    (let p = current_process k in
     if p = 0 then ret (- EPERM) k
     else let c = lookup_channel p (wrap32 h) HANDLE_RIGHT_WRITE k in
       if c = 0 then ret (- EBADF) k
       else if len \<noteq> ch_msg_size (k_chans k c) then ret (- EINVAL) k
       else do {
         m \<leftarrow> fetch_msg p buf_u len k;
         case m of
           Inl e \<Rightarrow> ret (- EFAULT) k
         | Inr kbuf \<Rightarrow>
             (let (sent, x) = channel_try_send kbuf (k_chans k c, k_sched k); k = set_chan c x k in
              if \<not> sent then ret (- EAGAIN) k else ret 0 k) })"

text \<open>Taking the message in slot \<open>i\<close> off the channel into the stack buffer.\<close>

definition take_msg :: "nat \<Rightarrow> nat \<Rightarrow> kernel \<Rightarrow> (byte list \<times> kernel) option" where
  "take_msg c i k =
    (let ch = k_chans k c in
     if IPC_MSG_SIZE_MAX < ch_msg_size ch then None
     else Some (kcopy (slot_bytes ch i) (ch_msg_size ch), set_chan c (channel_commit (ch, k_sched k)) k))"

definition deliver :: "nat \<Rightarrow> nat \<Rightarrow> vaddr \<Rightarrow> byte list \<Rightarrow> kernel \<Rightarrow> sysres" where
  "deliver p c buf_u kbuf k =
    (let (r, k) = k_copy_to_user (p_space (k_procs k p)) buf_u kbuf k in
     if r < 0 then ret (- EFAULT) k else ret (int (ch_msg_size (k_chans k c))) k)"

definition recv_pass :: "nat \<Rightarrow> vaddr \<Rightarrow> kernel \<Rightarrow> sysres" where
  "recv_pass c buf_u k = do {
     (peek, x) \<leftarrow> channel_peek_blocking (k_chans k c, k_sched k);
     let k = set_chan c x k;
     case peek of
       None \<Rightarrow> Some (Park (PRecv c buf_u), k)
     | Some (i, cs) \<Rightarrow>
         if cc_in_use cs then ret (- EINVAL) k
         else do { (kbuf, k) \<leftarrow> take_msg c i k; deliver (current_process k) c buf_u kbuf k } }"

definition sys_ipc_recv :: "nat \<Rightarrow> nat \<Rightarrow> nat \<Rightarrow> kernel \<Rightarrow> sysres" where
  "sys_ipc_recv h buf_u max_len k =
    (let p = current_process k in
     if p = 0 then ret (- EPERM) k
     else let c = lookup_channel p (wrap32 h) HANDLE_RIGHT_READ k in
       if c = 0 then ret (- EBADF) k
       else if max_len < ch_msg_size (k_chans k c) then ret (- EINVAL) k
       else recv_pass c buf_u k)"

definition sys_ipc_try_recv :: "nat \<Rightarrow> nat \<Rightarrow> nat \<Rightarrow> kernel \<Rightarrow> sysres" where
  "sys_ipc_try_recv h buf_u max_len k =
    (let p = current_process k in
     if p = 0 then ret (- EPERM) k
     else let c = lookup_channel p (wrap32 h) HANDLE_RIGHT_READ k in
       if c = 0 then ret (- EBADF) k
       else if max_len < ch_msg_size (k_chans k c) then ret (- EINVAL) k
       else case channel_peek_try (k_chans k c) of
         None \<Rightarrow> ret (- EAGAIN) k
       | Some (i, cs) \<Rightarrow>
           if cc_in_use cs then ret (- EINVAL) k
           else do { (kbuf, k) \<leftarrow> take_msg c i k; deliver p c buf_u kbuf k })"

section \<open>Messages with a capability\<close>

text \<open>The blocking send and what follows it; \<open>give\<close> is the handle the sender loses, if any.\<close>

definition send_cap_pass :: "nat \<Rightarrow> byte list \<Rightarrow> u32 \<Rightarrow> u32 \<Rightarrow> nat \<Rightarrow> bool \<Rightarrow> bool \<Rightarrow> nat option \<Rightarrow> kernel \<Rightarrow> sysres" where
  "send_cap_pass c kbuf kd rights obj has owns give k = do {
     (sent, x) \<leftarrow> channel_send_cap kbuf kd rights obj has owns (k_chans k c, k_sched k);
     let k = set_chan c x k;
     if \<not> sent then Some (Park (PSendCap c kbuf kd rights obj has owns give), k)
     else case give of
       None \<Rightarrow> ret 0 k
     | Some cap_h \<Rightarrow> do {
         let p = current_process k;
         let k = set_table p (snd (handle_disown cap_h (table_of p k))) k;
         (_, k) \<leftarrow> proc_close (handle_release (k_next_pid k)) p cap_h k;
         ret 0 k } }"

definition sys_ipc_send_cap :: "nat \<Rightarrow> nat \<Rightarrow> nat \<Rightarrow> nat \<Rightarrow> nat \<Rightarrow> kernel \<Rightarrow> sysres" where
  "sys_ipc_send_cap h buf_u len cap_h action k =
    (let p = current_process k in
     if p = 0 then ret (- EPERM) k
     else let c = lookup_channel p (wrap32 h) HANDLE_RIGHT_WRITE k in
       if c = 0 then ret (- EBADF) k
       else if len \<noteq> ch_msg_size (k_chans k c) then ret (- EINVAL) k
       else do {
         m \<leftarrow> fetch_msg p buf_u len k;
         case m of
           Inl e \<Rightarrow> ret (- EFAULT) k
         | Inr kbuf \<Rightarrow>
             if cap_h = HANDLE_INVALID then send_cap_pass c kbuf 0 0 0 False False None k
             else if action \<noteq> IPC_CAP_TRANSFER \<and> action \<noteq> IPC_CAP_DUPLICATE then ret (- EINVAL) k
             else case handle_lookup_full (table_of p k) (wrap32 cap_h) HANDLE_RIGHT_TRANSFER of
               None \<Rightarrow> ret (- EPERM) k
             | Some (obj, kd, rights) \<Rightarrow>
                 send_cap_pass c kbuf kd rights obj True (action = IPC_CAP_TRANSFER)
                   (if action = IPC_CAP_TRANSFER then Some (wrap32 cap_h) else None) k })"

text \<open>What follows the peek in \<^verbatim>\<open>recv_cap_common\<close>: the delivery of message and handle, and before it the
  handle for the capability.\<close>

definition deliver_cap :: "nat \<Rightarrow> nat \<Rightarrow> vaddr \<Rightarrow> vaddr \<Rightarrow> nat \<Rightarrow> nat \<Rightarrow> kernel \<Rightarrow> sysres" where
  "deliver_cap p c buf_u out_cap_u i out_val k = do {
     (kbuf, k) \<leftarrow> take_msg c i k;
     let (r, k) = k_copy_to_user (p_space (k_procs k p)) buf_u kbuf k;
     if r < 0 then ret (- EFAULT) k
     else let (r, k) = k_copy_to_user (p_space (k_procs k p)) out_cap_u (le_bytes 4 out_val) k in
       if r < 0 then ret (- EFAULT) k else ret (int (ch_msg_size (k_chans k c))) k }"

definition recv_cap_finish :: "nat \<Rightarrow> nat \<Rightarrow> vaddr \<Rightarrow> vaddr \<Rightarrow> nat \<Rightarrow> chan_cap \<Rightarrow> kernel \<Rightarrow> sysres" where
  "recv_cap_finish p c buf_u out_cap_u i cs k =
    (let has_cap = cc_in_use cs in
     if has_cap \<and> \<not> handle_table_has_free_slot (table_of p k) then ret (- ENFILE) k
     else let (new_h, t) = (if has_cap
             then handle_create_ex (cc_kind cs) (cc_rights cs) (cc_object cs) (cc_owns cs) (table_of p k)
             else (HANDLE_INVALID, table_of p k));
         k = set_table p t k in
       if has_cap \<and> new_h = HANDLE_INVALID then ret (- ENFILE) k
       else deliver_cap p c buf_u out_cap_u i (if has_cap then new_h else HANDLE_INVALID) k)"

definition recv_cap_pass :: "nat \<Rightarrow> vaddr \<Rightarrow> vaddr \<Rightarrow> kernel \<Rightarrow> sysres" where
  "recv_cap_pass c buf_u out_cap_u k = do {
     (peek, x) \<leftarrow> channel_peek_blocking (k_chans k c, k_sched k);
     let k = set_chan c x k;
     case peek of
       None \<Rightarrow> Some (Park (PRecvCap c buf_u out_cap_u), k)
     | Some (i, cs) \<Rightarrow> recv_cap_finish (current_process k) c buf_u out_cap_u i cs k }"

definition recv_cap_common :: "nat \<Rightarrow> nat \<Rightarrow> nat \<Rightarrow> nat \<Rightarrow> bool \<Rightarrow> kernel \<Rightarrow> sysres" where
  "recv_cap_common h buf_u max_len out_cap_u blocking k =
    (let p = current_process k in
     if p = 0 then ret (- EPERM) k
     else let c = lookup_channel p (wrap32 h) HANDLE_RIGHT_READ k in
       if c = 0 then ret (- EBADF) k
       else if max_len < ch_msg_size (k_chans k c) then ret (- EINVAL) k
       else if blocking then recv_cap_pass c buf_u out_cap_u k
       else case channel_peek_try (k_chans k c) of
         None \<Rightarrow> ret (- EAGAIN) k
       | Some (i, cs) \<Rightarrow> recv_cap_finish p c buf_u out_cap_u i cs k)"

definition sys_ipc_recv_cap :: "nat \<Rightarrow> nat \<Rightarrow> nat \<Rightarrow> nat \<Rightarrow> kernel \<Rightarrow> sysres" where
  "sys_ipc_recv_cap h buf_u max_len out_cap_u k = recv_cap_common h buf_u max_len out_cap_u True k"

definition sys_ipc_try_recv_cap :: "nat \<Rightarrow> nat \<Rightarrow> nat \<Rightarrow> nat \<Rightarrow> kernel \<Rightarrow> sysres" where
  "sys_ipc_try_recv_cap h buf_u max_len out_cap_u k = recv_cap_common h buf_u max_len out_cap_u False k"

section \<open>Memory\<close>

partial_function (option) map_scan :: "vmm_space option \<Rightarrow> nat \<Rightarrow> nat \<Rightarrow> vaddr \<Rightarrow> vm \<Rightarrow> nat option" where
  "map_scan sp npages limit cand s =
    (if cand \<le> limit
     then (case find (\<lambda>i. vmm_query sp (cand + i * PAGE_SIZE) s \<noteq> None) [0..<npages] of
         None \<Rightarrow> Some cand
       | Some i \<Rightarrow> map_scan sp npages limit (align_up PAGE_SIZE (cand + (i + 1) * PAGE_SIZE)) s)
     else Some 0)"

definition find_map_va :: "nat \<Rightarrow> nat \<Rightarrow> kernel \<Rightarrow> nat option" where
  "find_map_va p npages k =
    (let bytes = wrap64 (npages * PAGE_SIZE) in
     if USER_STACK_TOP_INIT < bytes then Some 0
     else map_scan (space_of (p_space (k_procs k p)) k) npages (USER_STACK_TOP_INIT - bytes)
       (align_up PAGE_SIZE (p_next_map_va (k_procs k p))) (kvm k))"

text \<open>The mapping loop of \<^verbatim>\<open>sys_map\<close> with its clean-up.\<close>

definition map_range :: "vmm_space option \<Rightarrow> vaddr \<Rightarrow> nat \<Rightarrow> u32 \<Rightarrow> vm \<Rightarrow> bool \<times> vm" where
  "map_range sp base npages vm_flags s =
    (let (mapped, s) = map_fresh sp vm_flags (map (\<lambda>i. base + i * PAGE_SIZE) [0..<npages]) s in
     if mapped = npages then (True, s)
     else (False, fold (\<lambda>i s. unmap_page sp (base + i * PAGE_SIZE) s) [0..<mapped] s))"

definition sys_map :: "nat \<Rightarrow> nat \<Rightarrow> nat \<Rightarrow> kernel \<Rightarrow> sysres" where
  "sys_map hint npages flags k =
    (let p = current_process k in
     if p = 0 then ret (- EPERM) k
     else if npages = 0 \<or> MAP_MAX_PAGES < npages then ret (- EINVAL) k
     else if (word_of_nat flags :: u64) AND NOT 2 \<noteq> 0 then ret (- EINVAL) k
     else let vm_flags = VM_PRESENT OR VM_USER;
         vm_flags = (if (word_of_nat flags :: u64) AND 2 \<noteq> 0 then vm_flags OR VM_WRITE else vm_flags);
         sp = space_of (p_space (k_procs k p)) k in
       if hint = 0
       then do {
         base \<leftarrow> find_map_va p npages k;
         if base = 0 then ret (- ENOMEM) k
         else let (ok, s) = map_range sp base npages vm_flags (kvm k); k = set_vm s k in
           if ok
           then ret (int base) (upd_proc p (p_next_map_va_update (\<lambda>_. base + npages * PAGE_SIZE)) k)
           else ret (- ENOMEM) k }
       else let base = hint; end = wrap64 (base + npages * PAGE_SIZE) in
         if base < USER_VA_BASE then ret (- EINVAL) k
         else if base mod PAGE_SIZE \<noteq> 0 then ret (- EINVAL) k
         else if end < base \<or> USER_VA_TOP < end then ret (- EINVAL) k
         else if \<exists>i \<in> set [0..<npages]. vmm_query sp (base + i * PAGE_SIZE) (kvm k) \<noteq> None then ret (- EEXIST) k
         else let (ok, s) = map_range sp base npages vm_flags (kvm k); k = set_vm s k in
           if ok then ret (int base) k else ret (- ENOMEM) k)"

definition sys_unmap :: "nat \<Rightarrow> nat \<Rightarrow> kernel \<Rightarrow> sysres" where
  "sys_unmap vaddr npages k =
    (let p = current_process k in
     if p = 0 then ret (- EPERM) k
     else if npages = 0 then ret (- EINVAL) k
     else let base = vaddr; end = wrap64 (base + wrap64 (npages * PAGE_SIZE)); sp = space_of (p_space (k_procs k p)) k in
       if base < USER_VA_BASE then ret (- EINVAL) k
       else if base mod PAGE_SIZE \<noteq> 0 then ret (- EINVAL) k
       else if end < base \<or> USER_VA_TOP < end then ret (- EINVAL) k
       else if \<exists>i \<in> set [0..<npages]. vmm_query sp (wrap64 (base + i * PAGE_SIZE)) (kvm k) = None then ret (- ENOENT) k
       else ret 0 (set_vm (fold (\<lambda>i s. unmap_page sp (wrap64 (base + i * PAGE_SIZE)) s) [0..<npages] (kvm k)) k))"

text \<open>With another thread ready the call is parked in \<^verbatim>\<open>sched_schedule\<close> until it is switched back in.\<close>

definition sys_yield :: "kernel \<Rightarrow> sysres" where
  "sys_yield k = do {
     s \<leftarrow> sched_yield (k_sched k);
     Some (if ready_head (k_sched k) = 0 then Ret 0 else Park PYield, k\<lparr>k_sched := s\<rparr>) }"

section \<open>Processes\<close>

text \<open>The duplicate of the caller's bootstrap handle in the child: the error, or \<open>0\<close>.\<close>

definition give_bootstrap :: "nat \<Rightarrow> nat \<Rightarrow> nat \<Rightarrow> kernel \<Rightarrow> (int \<times> kernel) option" where
  "give_bootstrap parent ch cap_h k =
    (case handle_lookup_full (table_of parent k) (wrap32 cap_h) HANDLE_RIGHT_TRANSFER of
       None \<Rightarrow> do { k \<leftarrow> process_unref ch k; Some (- EPERM, k) }
     | Some (obj, kd, rights) \<Rightarrow>
         (let (child_h, t) = handle_create_ex kd rights obj False (table_of ch k); k = set_table ch t k in
          if child_h = HANDLE_INVALID then do { k \<leftarrow> process_unref ch k; Some (- EMFILE, k) }
          else Some (0, upd_proc ch (p_bootstrap_handle_update (\<lambda>_. child_h)) k)))"

text \<open>The parent's handle on the child.\<close>

definition give_child :: "nat \<Rightarrow> nat \<Rightarrow> kernel \<Rightarrow> (int \<times> kernel) option" where
  "give_child parent ch k =
    (let k = process_ref ch k;
       (ph, t) = handle_create HANDLE_KIND_PROCESS HANDLE_RIGHT_READ ch (table_of parent k);
       k = set_table parent t k in
     if ph = HANDLE_INVALID
     then do { k \<leftarrow> process_unref ch k; k \<leftarrow> process_unref ch k; Some (- EMFILE, k) }
     else Some (int ph, k))"

definition spawn_with_elf :: "byte list \<Rightarrow> byte list \<Rightarrow> nat \<Rightarrow> kernel \<Rightarrow> (int \<times> kernel) option" where
  "spawn_with_elf name elf cap_h k =
    (let parent = current_process k in
     if parent = 0 then Some (- EPERM, k)
     else if cap_h \<noteq> HANDLE_INVALID \<and> handle_lookup (table_of parent k) (wrap32 cap_h) HANDLE_RIGHT_TRANSFER = None
     then Some (- EPERM, k)
     else if \<not> handle_table_has_free_slot (table_of parent k) then Some (- EMFILE, k)
     else do {
       (child, k) \<leftarrow> process_spawn name elf [name] [[0x50, 0x41, 0x54, 0x48, 0x3D, 0x2F]] k;
       if child = 0 then Some (- ENOMEM, k)
       else do {
         (e, k) \<leftarrow> (if cap_h \<noteq> HANDLE_INVALID then give_bootstrap parent child cap_h k else Some (0, k));
         if e < 0 then Some (e, k)
         else give_child parent child k } })"

definition sys_spawn_elf :: "nat \<Rightarrow> nat \<Rightarrow> nat \<Rightarrow> nat \<Rightarrow> nat \<Rightarrow> kernel \<Rightarrow> sysres" where
  "sys_spawn_elf elf_u elf_size name_u cap_h flags k =
    (let parent = current_process k in
     if parent = 0 then ret (- EPERM) k
     else if flags \<noteq> 0 then ret (- EINVAL) k
     else if elf_size = 0 \<or> SPAWN_ELF_MAX < elf_size then ret (- EINVAL) k
     else let sp = p_space (k_procs k parent) in
       case strncpy_from_user (space_of sp k) (cr3 k) name_u SPAWN_NAME_MAX (kvm k) (k_phys k) of
         Inl sr \<Rightarrow> ret sr k
       | Inr name \<Rightarrow> do {
           (kbuf, k) \<leftarrow> kmalloc elf_size k;
           if kbuf = 0 then ret (- ENOMEM) k
           else case k_copy_from_user sp elf_u elf_size k of
             Inl e \<Rightarrow> do { k \<leftarrow> kfree kbuf k; ret (- EFAULT) k }
           | Inr elf \<Rightarrow> do {
               let k = set_kmem (kput_bytes kbuf elf (kmem (k_heap k))) k;
               (r, k) \<leftarrow> spawn_with_elf name elf cap_h k;
               k \<leftarrow> kfree kbuf k;
               ret r k } })"

definition wait_pass :: "nat \<Rightarrow> kernel \<Rightarrow> sysres" where
  "wait_pass c k =
    (if \<not> p_exited (k_procs k c)
     then do {
       (q, s) \<leftarrow> wait_on (p_waiters (k_procs k c), k_sched k);
       Some (Park (PWait c), upd_proc c (p_waiters_update (\<lambda>_. q)) (k\<lparr>k_sched := s\<rparr>)) }
     else ret (p_exit_code (k_procs k c)) k)"

definition sys_wait :: "nat \<Rightarrow> kernel \<Rightarrow> sysres" where
  "sys_wait proc_h k =
    (let parent = current_process k in
     if parent = 0 then ret (- EPERM) k
     else case handle_lookup (table_of parent k) (wrap32 proc_h) HANDLE_RIGHT_READ of
       None \<Rightarrow> ret (- EBADF) k
     | Some (obj, kd) \<Rightarrow> if kd \<noteq> HANDLE_KIND_PROCESS then ret (- EINVAL) k else wait_pass obj k)"

definition sys_get_bootstrap :: "kernel \<Rightarrow> sysres" where
  "sys_get_bootstrap k =
    (let p = current_process k in
     if p = 0 then ret (- EPERM) k
     else if p_bootstrap_handle (k_procs k p) = HANDLE_INVALID then ret (- ENOENT) k
     else ret (int (p_bootstrap_handle (k_procs k p))) k)"

section \<open>Console and diagnostics\<close>

definition sys_exy_puts :: "nat \<Rightarrow> nat \<Rightarrow> kernel \<Rightarrow> sysres" where
  "sys_exy_puts buf_u cnt k =
    (let p = current_process k in
     if p = 0 then ret (- EPERM) k
     else if cnt = 0 then ret 0 k
     else if SYSCALL_IO_MAX < cnt then ret (- EINVAL) k
     else case k_copy_from_user (p_space (k_procs k p)) buf_u cnt k of
       Inl e \<Rightarrow> ret (- EFAULT) k
     | Inr kbuf \<Rightarrow> ret (int cnt) (fold (\<lambda>c k. k\<lparr>k_console_out := k_console_out k @ [c]\<rparr>) kbuf k))"

definition sys_proc_list :: "nat \<Rightarrow> nat \<Rightarrow> kernel \<Rightarrow> sysres" where
  "sys_proc_list buf_u maxn k =
    (let p = current_process k in
     if p = 0 then ret (- EPERM) k
     else if maxn = 0 \<or> PROC_LIST_MAX < maxn then ret (- EINVAL) k
     else let kbuf = process_collect maxn k; n = length kbuf div SIZEOF_INFO in
       if n = 0 then ret 0 k
       else let (r, k) = k_copy_to_user (p_space (k_procs k p)) buf_u kbuf k in
         if r < 0 then ret (- EFAULT) k else ret (int n) k)"

text \<open>The loop that drains the receive queue: at most \<open>n\<close> more bytes.\<close>

primrec gets_loop :: "nat \<Rightarrow> kernel \<Rightarrow> byte list \<times> kernel" where
  "gets_loop 0 k = ([], k)"
| "gets_loop (Suc n) k =
    (case k_console_in k of
       [] \<Rightarrow> ([], k)
     | c # cs \<Rightarrow> (let (bs, k) = gets_loop n (k\<lparr>k_console_in := cs\<rparr>) in (c # bs, k)))"

definition sys_exy_gets :: "nat \<Rightarrow> nat \<Rightarrow> kernel \<Rightarrow> sysres" where
  "sys_exy_gets buf_u maxn k =
    (let p = current_process k in
     if p = 0 then ret (- EPERM) k
     else if maxn = 0 then ret 0 k
     else if SYSCALL_IO_MAX < maxn then ret (- EINVAL) k
     else let (kbuf, k) = gets_loop maxn k; got = length kbuf in
       if got = 0 then ret (- EAGAIN) k
       else let (r, k) = k_copy_to_user (p_space (k_procs k p)) buf_u kbuf k in
         if r < 0 then ret (- EFAULT) k else ret (int got) k)"

section \<open>Dispatch\<close>

definition syscall_dispatch :: "nat \<Rightarrow> nat \<Rightarrow> nat \<Rightarrow> nat \<Rightarrow> nat \<Rightarrow> nat \<Rightarrow> kernel \<Rightarrow> sysres" where
  "syscall_dispatch nr a0 a1 a2 a3 a4 k =
    (if SYSCALL_MAX \<le> nr then ret (- ENOSYS) k
     else if nr = 0 then sys_ping a0 k
     else if nr = 1 then sys_exy_puts a0 a1 k
     else if nr = 2 then sys_exit a0 k
     else if nr = 3 then sys_handle_create a0 a1 a2 k
     else if nr = 4 then sys_handle_close a0 k
     else if nr = 5 then sys_handle_query a0 a1 k
     else if nr = 10 then sys_getpid k
     else if nr = 12 then sys_ipc_create a0 a1 k
     else if nr = 13 then sys_ipc_send a0 a1 a2 k
     else if nr = 14 then sys_ipc_recv a0 a1 a2 k
     else if nr = 15 then sys_ipc_try_send a0 a1 a2 k
     else if nr = 16 then sys_ipc_try_recv a0 a1 a2 k
     else if nr = 17 then sys_map a0 a1 a2 k
     else if nr = 18 then sys_unmap a0 a1 k
     else if nr = 19 then sys_yield k
     else if nr = 20 then sys_ipc_send_cap a0 a1 a2 a3 a4 k
     else if nr = 21 then sys_ipc_recv_cap a0 a1 a2 a3 k
     else if nr = 22 then sys_ipc_try_recv_cap a0 a1 a2 a3 k
     else if nr = 24 then sys_wait a0 k
     else if nr = 25 then sys_get_bootstrap k
     else if nr = 26 then sys_spawn_elf a0 a1 a2 a3 a4 k
     else if nr = 27 then sys_exy_gets a0 a1 k
     else if nr = 28 then sys_proc_list a0 a1 k
     else ret (- ENOSYS) k)"

text \<open>The next pass of the loop a thread is parked in.  A thread that is switched in again continues in
  \<^verbatim>\<open>sched_schedule\<close>, which first frees the threads that have exited.\<close>

fun sys_continue :: "pending \<Rightarrow> kernel \<Rightarrow> sysres" where
  "sys_continue (PSend c kbuf) k = send_pass c kbuf k"
| "sys_continue (PSendCap c kbuf kd rights obj has owns give) k = send_cap_pass c kbuf kd rights obj has owns give k"
| "sys_continue (PRecv c buf_u) k = recv_pass c buf_u k"
| "sys_continue (PRecvCap c buf_u out_cap_u) k = recv_cap_pass c buf_u out_cap_u k"
| "sys_continue (PWait c) k = wait_pass c k"
| "sys_continue PYield k = ret 0 k"

definition sys_resume :: "pending \<Rightarrow> kernel \<Rightarrow> sysres" where
  "sys_resume pd k = do { k \<leftarrow> reap_zombies k; sys_continue pd k }"

section \<open>Mapping memory\<close>

lemma map_range_ok:
  assumes "vm_inv R s" "user_space R sp" "\<forall>i < npages. user_va (base + i * PAGE_SIZE)" "bit flags 0"
    and m: "map_range (Some sp) base npages flags s = (ok, s')"
  shows "vm_inv R s' \<and>
    (if ok then \<exists>pas. length pas = npages \<and> distinct pas \<and> set pas \<subseteq> free_of s \<and> set pas \<inter> (free_of s' \<union> nodes R s') = {} \<and>
        (\<forall>i < npages. absv R s (sp_pml4 sp) (base + i * PAGE_SIZE) = None) \<and>
        absv R s' = (absv R s)(sp_pml4 sp := (absv R s (sp_pml4 sp))
          (map (\<lambda>i. base + i * PAGE_SIZE) [0..<npages] [\<mapsto>] map (\<lambda>pa. (pa, flags AND 15)) pas))
     else absv R s' = absv R s)"
proof -
  let ?vas = "map (\<lambda>i. base + i * PAGE_SIZE) [0..<npages]"
  obtain n s1 where f: "map_fresh (Some sp) flags ?vas s = (n, s1)" by fastforce
  have "\<forall>va \<in> set ?vas. user_va va" using assms(3) by auto
  from map_fresh_ok [OF assms(1,2) this assms(4) f]
  obtain pas where p: "length pas = n" "n \<le> npages" "vm_inv R s1" "distinct pas" "distinct (take n ?vas)" "set pas \<subseteq> free_of s"
    "set pas \<inter> (free_of s1 \<union> nodes R s1) = {}" "\<forall>va \<in> set (take n ?vas). absv R s (sp_pml4 sp) va = None"
    "absv R s1 = (absv R s)(sp_pml4 sp := (absv R s (sp_pml4 sp))(take n ?vas [\<mapsto>] map (\<lambda>pa. (pa, flags AND 15)) pas))"
    by auto
  show ?thesis
  proof (cases "n = npages")
    case True
    then have e: "ok" "s' = s1" "take n ?vas = ?vas" using m f by (simp_all add: map_range_def)
    then show ?thesis using p True by (simp only: if_True) (intro conjI exI [of _ pas], auto)
  next
    case False
    then have e: "\<not> ok" "s' = fold (unmap_page (Some sp)) (take n ?vas) s1"
      using m f p(2) by (auto simp: map_range_def take_map fold_map comp_def)
    have "vm_inv R s' \<and> absv R s' = (absv R s1)(sp_pml4 sp := absv R s (sp_pml4 sp))"
      unfolding e(2)
      using unmap_run [OF p(3) assms(2), of "take n ?vas" pas "absv R s (sp_pml4 sp)" "flags AND 15"] p assms(3) by (auto simp: take_map)
    then show ?thesis using e(1) p(9) by simp
  qed
qed

text \<open>The search for an unmapped range ends, and what it finds is unmapped.\<close>

lemma map_scan_ok:
  assumes "PAGE_SIZE dvd cand" "limit + npages * PAGE_SIZE \<le> USER_STACK_TOP_INIT"
  shows "\<exists>b. map_scan sp npages limit cand s = Some b \<and>
    (b = 0 \<or> cand \<le> b \<and> b \<le> limit \<and> PAGE_SIZE dvd b \<and> (\<forall>i < npages. vmm_query sp (b + i * PAGE_SIZE) s = None))"
  using assms(1)
proof (induction "limit + 1 - cand" arbitrary: cand rule: less_induct)
  case less
  show ?case
  proof (cases "cand \<le> limit")
    case True
    show ?thesis
    proof (cases "find (\<lambda>i. vmm_query sp (cand + i * PAGE_SIZE) s \<noteq> None) [0..<npages]")
      case None
      then have "\<forall>i < npages. vmm_query sp (cand + i * PAGE_SIZE) s = None" by (simp add: find_None_iff del: not_None_eq)
      then show ?thesis using None True less.prems by (subst map_scan.simps) auto
    next
      case (Some i)
      then have i: "i < npages" by (auto simp: find_Some_iff)
      define nxt where "nxt = cand + (i + 1) * PAGE_SIZE"
      have "(i + 1) * PAGE_SIZE \<le> npages * PAGE_SIZE" using i by (intro mult_le_mono1) simp
      then have b: "nxt \<le> limit + npages * PAGE_SIZE" using True by (simp add: nxt_def)
      have d: "PAGE_SIZE dvd nxt" using less.prems by (simp add: nxt_def)
      have e: "align_up PAGE_SIZE nxt = nxt" by (rule align_up_id [OF _ d]) (use b assms(2) in auto)
      have "limit + 1 - nxt < limit + 1 - cand" using True by (simp add: nxt_def)
      from less.hyps [OF this d] obtain r where "map_scan sp npages limit nxt s = Some r"
        "r = 0 \<or> nxt \<le> r \<and> r \<le> limit \<and> PAGE_SIZE dvd r \<and> (\<forall>i < npages. vmm_query sp (r + i * PAGE_SIZE) s = None)" by blast
      moreover have "map_scan sp npages limit cand s = map_scan sp npages limit nxt s"
        using Some True e by (subst map_scan.simps) (simp add: nxt_def)
      ultimately show ?thesis by (auto simp: nxt_def)
    qed
  qed (subst map_scan.simps, simp)
qed

lemma find_map_va_ok:
  assumes "npages \<le> MAP_MAX_PAGES" "p_next_map_va (k_procs k p) < two64 - PAGE_SIZE"
  shows "\<exists>b. find_map_va p npages k = Some b \<and>
    (b = 0 \<or> p_next_map_va (k_procs k p) \<le> b \<and> b + npages * PAGE_SIZE \<le> USER_STACK_TOP_INIT \<and> PAGE_SIZE dvd b)"
proof -
  let ?nx = "align_up PAGE_SIZE (p_next_map_va (k_procs k p))"
  have w: "wrap64 (npages * PAGE_SIZE) = npages * PAGE_SIZE" "npages * PAGE_SIZE \<le> USER_STACK_TOP_INIT" using assms(1) by auto
  have nx: "p_next_map_va (k_procs k p) \<le> ?nx" by (rule align_up_ge) (use assms(2) in auto)
  obtain b where "map_scan (space_of (p_space (k_procs k p)) k) npages (USER_STACK_TOP_INIT - npages * PAGE_SIZE) ?nx (kvm k) = Some b"
    "b = 0 \<or> ?nx \<le> b \<and> b \<le> USER_STACK_TOP_INIT - npages * PAGE_SIZE \<and> PAGE_SIZE dvd b"
    using map_scan_ok [of ?nx "USER_STACK_TOP_INIT - npages * PAGE_SIZE" npages "space_of (p_space (k_procs k p)) k" "kvm k"] w(2)
    by (metis align_up_dvd le_add_diff_inverse2 order_refl)
  then show ?thesis using w nx by (auto simp: find_map_va_def)
qed

lemma kvm_simps [simp]: "kvm (set_vm s k) = s" "kvm (upd_proc p f k) = kvm k"
  by (simp_all add: kvm_def set_vm_def upd_proc_def)

text \<open>What a successful request has done to the page tables: every page of the range was unmapped and now has
  a frame of its own, taken from the free pages, with the requested rights; nothing else has changed.\<close>

definition mapped_fresh :: "paddr set \<Rightarrow> paddr \<Rightarrow> vaddr \<Rightarrow> nat \<Rightarrow> u32 \<Rightarrow> vm \<Rightarrow> vm \<Rightarrow> bool" where
  "mapped_fresh R root base npages f s s' \<longleftrightarrow>
    USER_VA_BASE \<le> base \<and> PAGE_SIZE dvd base \<and> base + npages * PAGE_SIZE \<le> USER_VA_TOP \<and>
    (\<exists>pas. length pas = npages \<and> distinct pas \<and> set pas \<subseteq> free_of s \<and> set pas \<inter> (free_of s' \<union> nodes R s') = {} \<and>
      (\<forall>i < npages. absv R s root (base + i * PAGE_SIZE) = None) \<and>
      absv R s' = (absv R s)(root := (absv R s root)
        (map (\<lambda>i. base + i * PAGE_SIZE) [0..<npages] [\<mapsto>] map (\<lambda>pa. (pa, f)) pas)))"

lemma map_range_fresh:
  assumes "vm_inv R s" "user_space R sp" "USER_VA_BASE \<le> base" "PAGE_SIZE dvd base" "base + npages * PAGE_SIZE \<le> USER_VA_TOP"
    "bit flags 0" "map_range (Some sp) base npages flags s = (ok, s')"
  shows "vm_inv R s' \<and> (if ok then mapped_fresh R (sp_pml4 sp) base npages (flags AND 15) s s' else absv R s' = absv R s)"
proof -
  have "user_va (base + i * PAGE_SIZE)" if "i < npages" for i
  proof -
    have "i * PAGE_SIZE < npages * PAGE_SIZE" using that by simp
    then show ?thesis using assms(3-5) by (auto simp: user_va_def vpage_def)
  qed
  then show ?thesis using map_range_ok [OF assms(1,2) _ assms(6,7)] assms(3-5) by (cases ok) (simp_all add: mapped_fresh_def)
qed

text \<open>C10: \<open>sys_map\<close> is all or nothing.  It always returns; when it returns an address, that is the hint if one
  was given, and every page of the range, which was unmapped before, now maps a distinct page that was
  free and holds no page table, with user access and exactly the requested write access; when it returns
  an error, what is mapped in every address space is as before.\<close>

theorem sys_map_atomic:
  assumes "vm_inv R (kvm k)" "current_process k \<noteq> 0" "sp = p_space (k_procs k (current_process k))" "sp \<noteq> 0"
    "user_space R (k_spaces k sp)" "hint < two64"
    "USER_VA_BASE \<le> p_next_map_va (k_procs k (current_process k))" "p_next_map_va (k_procs k (current_process k)) < two64 - PAGE_SIZE"
  shows "\<exists>r k'. sys_map hint npages flags k = Some (Ret r, k') \<and> vm_inv R (kvm k') \<and>
    (if 0 \<le> r then (hint = 0 \<or> nat r = hint) \<and> 0 < npages \<and>
        mapped_fresh R (sp_pml4 (k_spaces k sp)) (nat r) npages
          (if (word_of_nat flags :: u64) AND 2 \<noteq> 0 then 7 else 5) (kvm k) (kvm k')
     else absv R (kvm k') = absv R (kvm k))"
proof -
  define p where "p = current_process k"
  define fl :: u32 where "fl = (if (word_of_nat flags :: u64) AND 2 \<noteq> 0 then 7 else 5)"
  have fl: "bit fl 0" "fl AND 15 = fl" by (simp_all add: fl_def)
  have cp: "current_process k = p" by (simp add: p_def)
  have spo: "space_of (p_space (k_procs k p)) k = Some (k_spaces k sp)" using assms(3,4) by (simp add: space_of_def p_def)
  have err: ?thesis if "sys_map hint npages flags k = Some (Ret r, k)" "r < 0" for r
    using that assms(1) by (intro exI [of _ r] exI [of _ k]) simp
  note mr = map_range_fresh [OF assms(1,5) _ _ _ fl(1), unfolded fl(2)]
  consider "npages = 0 \<or> MAP_MAX_PAGES < npages \<or> (word_of_nat flags :: u64) AND NOT 2 \<noteq> 0"
    | "0 < npages" "npages \<le> MAP_MAX_PAGES" "(word_of_nat flags :: u64) AND NOT 2 = 0" "hint = 0"
    | "0 < npages" "npages \<le> MAP_MAX_PAGES" "(word_of_nat flags :: u64) AND NOT 2 = 0" "hint \<noteq> 0" by fastforce
  then show ?thesis
  proof cases
    case 1
    then have "sys_map hint npages flags k = Some (Ret (- EINVAL), k)"
      using assms(2) by (auto simp: sys_map_def ret_def Let_def)
    then show ?thesis using assms(1) by (simp add: EINVAL_def)
  next
    case 2
    obtain b where b: "find_map_va p npages k = Some b"
      "b = 0 \<or> p_next_map_va (k_procs k p) \<le> b \<and> b + npages * PAGE_SIZE \<le> USER_STACK_TOP_INIT \<and> PAGE_SIZE dvd b"
      using find_map_va_ok [OF 2(2)] assms(8) p_def by blast
    obtain ok s' where m: "map_range (Some (k_spaces k sp)) b npages fl (kvm k) = (ok, s')" by fastforce
    have e: "sys_map hint npages flags k =
      (if b = 0 then ret (- ENOMEM) k
       else if ok then ret (int b) (upd_proc p (p_next_map_va_update (\<lambda>_. b + npages * PAGE_SIZE)) (set_vm s' k))
       else ret (- ENOMEM) (set_vm s' k))"
      using 2 assms(2) b(1) m by (cases "(word_of_nat flags :: u64) AND 2 = 0") (simp_all add: sys_map_def Let_def spo cp fl_def)
    show ?thesis
    proof (cases "b = 0")
      case False
      then have "vm_inv R s' \<and> (if ok then mapped_fresh R (sp_pml4 (k_spaces k sp)) b npages fl (kvm k) s' else absv R s' = absv R (kvm k))"
        using mr [OF _ _ _ m] b(2) assms(7) p_def by auto
      then show ?thesis using e False 2 by (cases ok) (auto simp: ret_def ENOMEM_def fl_def)
    qed (use e assms(1) in \<open>simp add: ret_def ENOMEM_def\<close>)
  next
    case 3
    define ed where "ed = wrap64 (hint + npages * PAGE_SIZE)"
    let ?bad = "hint < USER_VA_BASE \<or> hint mod PAGE_SIZE \<noteq> 0 \<or> ed < hint \<or> USER_VA_TOP < ed"
    let ?taken = "\<exists>i \<in> set [0..<npages]. vmm_query (Some (k_spaces k sp)) (hint + i * PAGE_SIZE) (kvm k) \<noteq> None"
    obtain ok s' where m: "map_range (Some (k_spaces k sp)) hint npages fl (kvm k) = (ok, s')" by fastforce
    have e: "sys_map hint npages flags k =
      (if ?bad then ret (- EINVAL) k else if ?taken then ret (- EEXIST) k
       else if ok then ret (int hint) (set_vm s' k) else ret (- ENOMEM) (set_vm s' k))"
      using 3 assms(2) m by (cases "(word_of_nat flags :: u64) AND 2 = 0") (simp_all add: sys_map_def Let_def spo cp fl_def ed_def [symmetric] del: wrap64_id)
    show ?thesis
    proof (cases "?bad \<or> ?taken")
      case True
      then have "sys_map hint npages flags k = ret (- EINVAL) k \<or> sys_map hint npages flags k = ret (- EEXIST) k" using e by auto
      moreover have "- EINVAL < 0" "- EEXIST < 0" by (simp_all add: EINVAL_def EEXIST_def)
      ultimately show ?thesis using err unfolding ret_def by blast
    next
      case False
      have "npages * PAGE_SIZE \<le> MAP_MAX_PAGES * PAGE_SIZE" using 3(2) by simp
      then have "ed = (if hint + npages * PAGE_SIZE < two64 then hint + npages * PAGE_SIZE else hint + npages * PAGE_SIZE - two64)"
        using wrap64_once [of hint "npages * PAGE_SIZE"] assms(6) by (simp add: ed_def)
      then have "hint + npages * PAGE_SIZE \<le> USER_VA_TOP" using False 3(2) by (simp split: if_splits)
      then have "vm_inv R s' \<and> (if ok then mapped_fresh R (sp_pml4 (k_spaces k sp)) hint npages fl (kvm k) s' else absv R s' = absv R (kvm k))"
        using mr [OF _ _ _ m] False by auto
      then show ?thesis using e False 3 by (cases ok) (auto simp: ret_def ENOMEM_def fl_def)
    qed
  qed
qed

theorem sys_map_atomic_witness:
  "\<exists>k'. sys_map 0x8000000000 1 2 wit_kernel = Some (Ret 0x8000000000, k') \<and>
    mapped_fresh {4096} 4096 0x8000000000 1 7 (kvm wit_kernel) (kvm k')"
proof -
  have cp: "current_process wit_kernel = 1" by (simp add: current_process_def wit_kernel_def)
  have sp: "p_space (k_procs wit_kernel x) = 2" "k_spaces wit_kernel x = wit_sp" "p_next_map_va (k_procs wit_kernel x) = 0x8000010000" for x
    by (simp_all add: wit_kernel_def)
  have kv: "kvm wit_kernel = wit_vm\<lparr>vm_pmm := wit_pmm1\<rparr>" by (simp add: kvm_def wit_kernel_def)
  have us: "user_space {4096} wit_sp" by (simp add: user_space_def wit_sp_def)
  obtain a m where am: "pmm_alloc_page wit_pmm1 = (a, m)" by fastforce
  have al: "a = 28672" using pmm_alloc_page_law [OF wit_pmm1_ok _ am] wit_pmm1_free(2) by simp
  have run: "\<exists>k'. sys_map 0x8000000000 1 2 wit_kernel = Some (Ret 0x8000000000, k')"
    using am unfolding al by (simp add: sys_map_def Let_def cp sp space_of_def map_range_def kv vmm_query_def walk_leaf_def vmm_map_def
        wit_sp_def wit_vm_def lower_bound_def descend_or_alloc_def idx_pml4_def idx_pdpt_def idx_pd_def idx_pt_def pte_addr_def ret_def
        vm_alloc_page_def)
  show ?thesis
    using sys_map_atomic [OF wit_kernel_vm, of _ "0x8000000000" 1 2] run wit_kernel_vm us by (auto simp: cp sp wit_sp_def)
qed

end
