(* ===== verification/Typed.thy ===== *)
theory Typed
  imports Syscall
begin

text \<open>
  Typing of the kernel state across system calls: every process has a well-formed handle table and every
  field of it stays in the range of its C type, whatever system call runs, including the nested releases
  of objects, and the value a call returns fits the 64 bits of \<^verbatim>\<open>sysret_t\<close>.

  The proofs go by weakest preconditions of the option monad: \<open>wp m P\<close> says that \<open>P\<close> holds of the
  result of \<open>m\<close>, if it has one.
\<close>

definition wp :: "'a option \<Rightarrow> ('a \<Rightarrow> bool) \<Rightarrow> bool" where
  "wp m P \<longleftrightarrow> (\<forall>x. m = Some x \<longrightarrow> P x)"

lemma wp_simps [simp]:
  "wp None P" "wp (Some x) P \<longleftrightarrow> P x" "wp (Option.bind m f) P \<longleftrightarrow> wp m (\<lambda>x. wp (f x) P)"
  by (auto simp: wp_def bind_eq_Some_conv)


lemma wp_if: "(b \<Longrightarrow> wp m P) \<Longrightarrow> (\<not> b \<Longrightarrow> wp n P) \<Longrightarrow> wp (if b then m else n) P"
  by simp


section \<open>The invariant\<close>

definition proc_typed :: "process \<Rightarrow> bool" where
  "proc_typed p \<longleftrightarrow> handle_inv (p_handles p) \<and> p_pid p < two64 \<and> p_next_map_va p < two64 \<and> p_refcount p < 4294967296 \<and>
    - (2 ^ 31) \<le> p_exit_code p \<and> p_exit_code p < 2 ^ 31 \<and> (p_bootstrap_handle p = HANDLE_INVALID \<or> p_bootstrap_handle p < HANDLE_MAX)"

definition kernel_typed :: "kernel \<Rightarrow> bool" where
  "kernel_typed k \<longleftrightarrow> (\<forall>p. proc_typed (k_procs k p)) \<and> k_next_pid k < two64 \<and> k_next_tid k < two64"

definition fits :: "int \<Rightarrow> bool" where
  "fits r \<longleftrightarrow> - (2 ^ 63) \<le> r \<and> r < 2 ^ 63"

fun outcome_typed :: "outcome \<Rightarrow> bool" where
  "outcome_typed (Ret r) = fits r"
| "outcome_typed _ = True"

definition good_result :: "outcome \<times> kernel \<Rightarrow> bool" where
  "good_result x \<longleftrightarrow> outcome_typed (fst x) \<and> kernel_typed (snd x)"

lemma typed_upd [simp]:
  "kernel_typed (k\<lparr>k_sched := a\<rparr>) = kernel_typed k" "kernel_typed (k\<lparr>k_heap := h\<rparr>) = kernel_typed k"
  "kernel_typed (k\<lparr>k_spaces := b\<rparr>) = kernel_typed k" "kernel_typed (k\<lparr>k_chans := c\<rparr>) = kernel_typed k"
  "kernel_typed (k\<lparr>k_chan_buffer := d\<rparr>) = kernel_typed k" "kernel_typed (k\<lparr>k_chan_caps := d\<rparr>) = kernel_typed k"
  "kernel_typed (k\<lparr>k_proc_head := e\<rparr>) = kernel_typed k" "kernel_typed (k\<lparr>k_phys := f\<rparr>) = kernel_typed k"
  "kernel_typed (k\<lparr>k_console_out := g\<rparr>) = kernel_typed k" "kernel_typed (k\<lparr>k_console_in := g\<rparr>) = kernel_typed k"
  "kernel_typed (set_vm s k) = kernel_typed k" "kernel_typed (set_kmem m k) = kernel_typed k"
  "kernel_typed (vmm_switch sp k) = kernel_typed k" "kernel_typed (vmm_space_ref sp k) = kernel_typed k"
  by (simp_all add: kernel_typed_def set_vm_def set_kmem_def vmm_switch_def vmm_space_ref_def)


lemma typed_upd_proc: "kernel_typed k \<Longrightarrow> (proc_typed (k_procs k p) \<Longrightarrow> proc_typed (f (k_procs k p))) \<Longrightarrow> kernel_typed (upd_proc p f k)"
  by (simp add: kernel_typed_def upd_proc_def)

text \<open>The field updates the code makes.\<close>

lemma typed_fields [intro!]:
  "kernel_typed k \<Longrightarrow> kernel_typed (upd_proc p (p_list_next_update f) k)"
  "kernel_typed k \<Longrightarrow> kernel_typed (upd_proc p (p_waiters_update g) k)"
  "kernel_typed k \<Longrightarrow> kernel_typed (upd_proc p (p_main_thread_update f) k)"
  "kernel_typed k \<Longrightarrow> kernel_typed (upd_proc p (p_initial_rsp_update f) k)"
  "kernel_typed k \<Longrightarrow> kernel_typed (upd_proc p (p_refcount_update (\<lambda>n. n - Suc 0)) k)"
  "kernel_typed k \<Longrightarrow> kernel_typed (upd_proc p (p_refcount_update (\<lambda>n. wrap32 (Suc n))) k)"
  "kernel_typed k \<Longrightarrow> handle_inv t \<Longrightarrow> kernel_typed (upd_proc p (p_handles_update (\<lambda>_. t)) k)"
  by (auto intro!: typed_upd_proc simp: proc_typed_def wrap32_def)


section \<open>Handle tables\<close>






section \<open>Objects\<close>














section \<open>Loading and starting programs\<close>

















section \<open>System calls\<close>

lemma good_ret [simp]: "wp (ret r k) good_result \<longleftrightarrow> fits r \<and> kernel_typed k"
  by (simp add: ret_def good_result_def)

lemma good_some [simp]: "good_result (Park pd, k) = kernel_typed k" "good_result (NoReturn, k) = kernel_typed k" "good_result (Ret r, k) = (fits r \<and> kernel_typed k)"
  by (simp_all add: good_result_def)

lemma fits_const [simp]: "fits 0" "fits 1" "fits (- EPERM)" "fits (- EMFILE)" "fits (- EBADF)" "fits (- EINVAL)" "fits (- ENOMEM)" "fits (- EFAULT)"
  "fits (- EAGAIN)" "fits (- ENFILE)" "fits (- EEXIST)" "fits (- ENOENT)" "fits (- ENOSYS)" "fits (- ENAMETOOLONG)"
  by (simp_all add: fits_def kconst)


lemma fits_sint [simp]: "fits (sint (w :: u64))"
  using sint_range_size [of w] by (simp add: fits_def word_size)

lemma typed_set_chan: "kernel_typed (set_chan c x k) = kernel_typed k"
  by simp































end
