(* ===== verification/Ipc.thy ===== *)
theory Ipc
  imports Syscall
begin

text \<open>
  Messages end to end: the system calls, the channel and the copies between user and kernel memory put
  together.
\<close>

lemma copy_from_length: "copy_from_user space root va n s ph = Inr bs \<Longrightarrow> length bs = n"
proof -
  have "uaccess_memcpy_from_user s root va n ph = Some xs \<Longrightarrow> length xs = n" for va xs
    by (induction n arbitrary: va xs) (auto split: option.splits)
  then show "copy_from_user space root va n s ph = Inr bs \<Longrightarrow> length bs = n"
    by (auto simp: copy_from_user_def Let_def split: if_splits option.splits)
qed

lemma chan_abs_queues [simp]:
  "chan_abs (c\<lparr>ch_senders := q\<rparr>) = chan_abs c" "chan_abs (c\<lparr>ch_receivers := q\<rparr>) = chan_abs c"
  "chan_inv (c\<lparr>ch_senders := q\<rparr>) = chan_inv c" "chan_inv (c\<lparr>ch_receivers := q\<rparr>) = chan_inv c"
  by (simp_all add: chan_abs_def chan_slot_def slot_bytes_def chan_inv_def)

lemma try_send_abs:
  assumes "chan_inv c" "ch_count c < ch_capacity c" "length bs = ch_msg_size c" "channel_try_send bs (c, s) = (sent, c', s')"
  shows "sent \<and> chan_inv c' \<and> chan_abs c' = chan_abs c @ [(bs, None)] \<and> ch_msg_size c' = ch_msg_size c"
  using assms ring_put_inv [OF assms(1,2), of bs "cap_in 0 0 0 False False"] ring_put_abs [OF assms(1,2), of bs "cap_in 0 0 0 False False"]
  by (auto simp: channel_try_send_def enqueue_eq Let_def ring_put_def split: prod.splits)

lemma commit_abs:
  assumes "chan_inv c" "0 < ch_count c" "channel_commit (c, s) = (c', s')"
  shows "chan_inv c' \<and> chan_abs c' = tl (chan_abs c) \<and> ch_msg_size c' = ch_msg_size c"
  using assms ring_drop_inv [OF assms(1,2)] ring_drop_abs [OF assms(1,2)]
  by (auto simp: channel_commit_eq Let_def ring_drop_def split: prod.splits)

text \<open>A thread of process \<open>p\<close> runs, in the space of the process.\<close>

definition running :: "nat \<Rightarrow> kernel \<Rightarrow> bool" where
  "running p k \<longleftrightarrow> p \<noteq> 0 \<and> current_process k = p \<and> p_space (k_procs k p) \<noteq> 0 \<and> active_space (k_sched k) = p_space (k_procs k p)"

lemma sys_ipc_try_send_ok:
  assumes "running p k" "lookup_channel p (wrap32 h) HANDLE_RIGHT_WRITE k = c" "c \<noteq> 0" "chan_inv (k_chans k c)"
    "ch_count (k_chans k c) < ch_capacity (k_chans k c)" "len = ch_msg_size (k_chans k c)" "len \<le> IPC_MSG_SIZE_MAX"
    "k_copy_from_user (p_space (k_procs k p)) buf len k = Inr bs"
  shows "\<exists>k'. sys_ipc_try_send h buf len k = Some (Ret 0, k') \<and> chan_inv (k_chans k' c) \<and>
    chan_abs (k_chans k' c) = chan_abs (k_chans k c) @ [(bs, None)] \<and> ch_msg_size (k_chans k' c) = len"
proof -
  have l: "length bs = len" using assms(8) copy_from_length by (auto simp: k_copy_from_user_def)
  obtain sent c' s' where t: "channel_try_send bs (k_chans k c, k_sched k) = (sent, c', s')" by (metis prod_cases3)
  note a = try_send_abs [OF assms(4,5) _ t]
  show ?thesis using assms a t l by (simp add: sys_ipc_try_send_def running_def fetch_msg_def Let_def ret_def)
qed

lemma wake_one_active: "wake_one (q, s) = (q', s') \<Longrightarrow> active_space s' = active_space s"
  by (auto simp: wake_one_def waitq_pop_def sched_unblock_def sched_enqueue_def th_upd_def Let_def split: if_splits prod.splits)

lemma commit_active: "channel_commit (c, s) = (c', s') \<Longrightarrow> active_space s' = active_space s"
  by (auto simp: channel_commit_eq Let_def dest: wake_one_active split: prod.splits)

lemma sys_ipc_try_recv_ok:
  assumes "running p k" "lookup_channel p (wrap32 h) HANDLE_RIGHT_READ k = c" "c \<noteq> 0" "chan_inv (k_chans k c)"
    "chan_abs (k_chans k c) = (bs, None) # ms" "n = ch_msg_size (k_chans k c)" "n \<le> IPC_MSG_SIZE_MAX" "n \<le> maxn"
    "buf < two64" "user_range_ok (space_of (p_space (k_procs k p)) k) buf n (kvm k) = 0" "unshared (kvm k) (cr3 k) buf n"
  shows "\<exists>k'. sys_ipc_try_recv h buf maxn k = Some (Ret (int n), k') \<and> chan_inv (k_chans k' c) \<and> chan_abs (k_chans k' c) = ms \<and>
    k_copy_from_user (p_space (k_procs k' p)) buf n k' = Inr bs"
proof -
  let ?ch = "k_chans k c" and ?sp = "p_space (k_procs k p)"
  have ne: "0 < ch_count ?ch" using assms(5) length_chan_abs [of ?ch] by simp
  have hd: "bs = peek_copy ?ch (ch_head ?ch)" "\<not> cc_in_use (ch_caps ?ch ! ch_head ?ch)"
    using chan_abs_hd [OF assms(4) ne] assms(5) by (simp_all add: cap_out_def split: if_splits)
  have hc: "ch_head ?ch < ch_capacity ?ch" using assms(4) by (simp add: chan_inv_def)
  have kc: "kcopy (slot_bytes ?ch (ch_head ?ch)) n = bs" and len: "length bs = n"
    using hd(1) peek_copy_eq [OF assms(4) hc] slot_bytes_length [OF assms(4) hc] assms(6) by (simp_all add: kcopy_def peek_copy_def)
  obtain c' s' where cm: "channel_commit (?ch, k_sched k) = (c', s')" by fastforce
  note C = commit_abs [OF assms(4) ne cm]
  define k1 where "k1 = set_chan c (c', s') k"
  have k1: "cr3 k1 = cr3 k" "kvm k1 = kvm k" "space_of ?sp k1 = space_of ?sp k" "k_procs k1 = k_procs k" "k_phys k1 = k_phys k"
    "k_chans k1 c = c'" using commit_active [OF cm] by (simp_all add: k1_def cr3_def kvm_def space_of_def)
  have sp: "space_of ?sp k = Some (k_spaces k ?sp)" "sp_pml4 (k_spaces k ?sp) = cr3 k"
    using assms(1) by (simp_all add: space_of_def running_def cr3_def)
  obtain ph where cp: "copy_to_user (space_of ?sp k) (cr3 k) buf bs (kvm k) (k_phys k) = (0, ph)"
    "copy_from_user (space_of ?sp k) (cr3 k) buf n (kvm k) ph = Inr bs"
    using copy_to_user_ok [of buf bs "kvm k" "k_spaces k ?sp" "k_phys k"] assms(7,9-11) len sp by auto
  define k2 where "k2 = k1\<lparr>k_phys := ph\<rparr>"
  have k2: "k_chans k2 c = c'" "k_procs k2 = k_procs k" "k_copy_from_user ?sp buf n k2 = Inr bs"
    using k1 cp(2) by (simp_all add: k2_def k_copy_from_user_def)
  have "take_msg c (ch_head ?ch) k = Some (bs, k1)"
    using kc cm assms(6,7) by (simp add: take_msg_def Let_def k1_def)
  moreover have "deliver p c buf bs k1 = Some (Ret (int n), k2)"
    using k1 cp(1) C assms(6) by (simp add: deliver_def k_copy_to_user_def Let_def ret_def k2_def)
  ultimately have "sys_ipc_try_recv h buf maxn k = Some (Ret (int n), k2)"
    using assms(1-3,6,8) ne hd(2) by (simp add: sys_ipc_try_recv_def running_def Let_def channel_peek_try_def)
  then show ?thesis using k2 C assms(5) by simp
qed

text \<open>C13: A message travels unchanged from one process to another.  When a process sends the bytes at \<open>buf1\<close> on an
  empty channel and, in any later state in which that channel is as the send left it, another process that holds
  a read handle on the channel receives into mapped memory at \<open>buf2\<close>, both calls succeed, the bytes at \<open>buf2\<close>
  are then exactly the bytes that were at \<open>buf1\<close> when they were sent, and the channel is empty again.\<close>

theorem ipc_end_to_end:
  assumes "running p1 k" "lookup_channel p1 (wrap32 h1) HANDLE_RIGHT_WRITE k = c" "c \<noteq> 0" "chan_inv (k_chans k c)"
    and "chan_abs (k_chans k c) = []" "len = ch_msg_size (k_chans k c)" "len \<le> IPC_MSG_SIZE_MAX"
    and "k_copy_from_user (p_space (k_procs k p1)) buf1 len k = Inr bs"
    and "sys_ipc_try_send h1 buf1 len k = Some (r1, k1)" "k_chans k2 c = k_chans k1 c"
    and "running p2 k2" "lookup_channel p2 (wrap32 h2) HANDLE_RIGHT_READ k2 = c" "len \<le> maxn" "buf2 < two64"
    and "user_range_ok (space_of (p_space (k_procs k2 p2)) k2) buf2 len (kvm k2) = 0" "unshared (kvm k2) (cr3 k2) buf2 len"
  shows "r1 = Ret 0 \<and> (\<exists>k3. sys_ipc_try_recv h2 buf2 maxn k2 = Some (Ret (int len), k3) \<and>
    k_copy_from_user (p_space (k_procs k3 p2)) buf2 len k3 = Inr bs \<and> chan_abs (k_chans k3 c) = [])"
proof -
  have "ch_count (k_chans k c) = 0" using assms(5) length_chan_abs [of "k_chans k c"] by simp
  then have "ch_count (k_chans k c) < ch_capacity (k_chans k c)" using assms(4) by (simp add: chan_inv_def)
  from sys_ipc_try_send_ok [OF assms(1-4) this assms(6-8)] assms(5,9,10)
  have s: "r1 = Ret 0" "chan_inv (k_chans k2 c)" "chan_abs (k_chans k2 c) = [(bs, None)]" "len = ch_msg_size (k_chans k2 c)" by auto
  show ?thesis using sys_ipc_try_recv_ok [OF assms(11,12,3) s(2,3,4) assms(7,13-16)] s(1) by blast
qed

text \<open>Two processes that share an address space and hold a handle on the same channel of one-byte messages.\<close>

definition wit_ipc :: kernel where
  "wit_ipc = wit_kernel\<lparr>k_heap := wit_heap\<lparr>heap_vm := wit_uvm\<rparr>,
    k_sched := (k_sched wit_kernel)\<lparr>threads := (\<lambda>t. wit_thread\<lparr>th_process := t, th_space := 2\<rparr>)\<rparr>,
    k_procs := (\<lambda>_. proc_zero\<lparr>p_space := 2,
      p_handles := \<lparr>entries = replicate 64 (mk_entry HANDLE_KIND_CHANNEL 3 5 True), next_hint = 0, release = 1\<rparr>\<rparr>),
    k_phys := (\<lambda>a. if a = 24576 then 65 else 0)\<rparr>"

lemma wit_ipc_fields:
  "k_chans wit_ipc x = lw_chan" "p_space (k_procs wit_ipc x) = 2" "kvm wit_ipc = wit_uvm" "k_spaces wit_ipc x = wit_sp"
  "cr3 wit_ipc = 4096" "active_space (k_sched wit_ipc) = 2" "current (k_sched wit_ipc) = 1" "th_process (threads (k_sched wit_ipc) t) = t"
  "k_phys wit_ipc = (\<lambda>a. if a = 24576 then 65 else 0)"
  "h < 64 \<Longrightarrow> entries (p_handles (k_procs wit_ipc x)) ! h = mk_entry HANDLE_KIND_CHANNEL 3 5 True"
  by (simp_all add: wit_ipc_def wit_kernel_def kvm_def cr3_def wit_sp_def)

theorem ipc_end_to_end_witness:
  "\<exists>k1 k3. sys_ipc_try_send 0 0x8000000000 1 wit_ipc = Some (Ret 0, k1) \<and>
    sys_ipc_try_recv 0 0x8000000001 1 (k1\<lparr>k_sched := (k_sched wit_ipc)\<lparr>current := 2\<rparr>\<rparr>) = Some (Ret 1, k3) \<and>
    k_copy_from_user (p_space (k_procs k3 2)) 0x8000000001 1 k3 = Inr [65]"
proof -
  have one: "i < 1 \<longleftrightarrow> i = 0" for i :: nat by auto
  have q: "vmm_query (Some wit_sp) 0x8000000000 wit_uvm = Some (24576, 7)" "vmm_query (root_space 4096) 0x8000000000 wit_uvm = Some (24576, 7)"
    using wit_uvm_query(1) by (simp_all add: wit_sp_def root_space_def)
  have al: "align_down 4096 0x8000000000 = 0x8000000000" "align_down 4096 0x8000000001 = 0x8000000000" by (simp_all add: align_down_def)
  have up: "user_page (Some wit_sp) wit_uvm 0x8000000000" using q(1) by (auto simp: user_page_def)
  have ok: "user_range_ok (Some wit_sp) va 1 wit_uvm = 0" if "va = 0x8000000000 \<or> va = 0x8000000001" for va
    using user_range_ok_iff [of va 1 "Some wit_sp" wit_uvm] that up al by auto
  have un: "unshared wit_uvm 4096 0x8000000001 1" by (simp add: unshared_def)
  have cp: "k_copy_from_user 2 0x8000000000 1 wit_ipc = Inr [65]"
    using ok q(2) al by (simp add: k_copy_from_user_def space_of_def wit_ipc_fields copy_from_user_def translate_def Let_def)
  have lk: "lookup_channel x (wrap32 0) rq wit_ipc = 5" if "3 AND rq = rq" for x rq
    using that by (simp add: lookup_channel_def handle_lookup_def handle_lookup_full_def wit_ipc_fields Let_def)
  have run: "running 1 wit_ipc" by (simp add: running_def current_process_def wit_ipc_fields)
  have ch: "chan_inv lw_chan" "chan_abs lw_chan = []" "ch_msg_size lw_chan = 1" "ch_count lw_chan < ch_capacity lw_chan"
    by (simp_all add: lw_chan_def chan_inv_def chan_abs_def)
  obtain x where x: "channel_try_send [65] (lw_chan, k_sched wit_ipc) = (True, x)" using ch(4) by (simp add: channel_try_send_def)
  define k1 where "k1 = set_chan 5 x wit_ipc"
  define k2 where "k2 = k1\<lparr>k_sched := (k_sched wit_ipc)\<lparr>current := 2\<rparr>\<rparr>"
  have k1: "sys_ipc_try_send 0 0x8000000000 1 wit_ipc = Some (Ret 0, k1)"
    using run lk [of 2] cp x ch(3) by (simp add: sys_ipc_try_send_def running_def fetch_msg_def wit_ipc_fields Let_def ret_def k1_def)
  have k2: "k_chans k2 5 = k_chans k1 5" "running 2 k2" "lookup_channel 2 (wrap32 0) HANDLE_RIGHT_READ k2 = 5"
    "space_of (p_space (k_procs k2 2)) k2 = Some wit_sp" "kvm k2 = wit_uvm" "cr3 k2 = 4096"
    using lk [of 1 2] by (simp_all add: k2_def k1_def running_def current_process_def lookup_channel_def space_of_def kvm_def cr3_def
        wit_ipc_fields wit_ipc_fields(3) [unfolded kvm_def] wit_sp_def)
  have "Ret 0 = Ret 0 \<and> (\<exists>k3. sys_ipc_try_recv 0 0x8000000001 1 k2 = Some (Ret (int 1), k3) \<and>
    k_copy_from_user (p_space (k_procs k3 2)) 0x8000000001 1 k3 = Inr [65] \<and> chan_abs (k_chans k3 5) = [])"
    by (rule ipc_end_to_end [OF run lk [of 2] _ _ _ _ _ _ k1 k2(1-3)])
      (use ch cp ok un k2(4-6) in \<open>simp_all add: wit_ipc_fields\<close>)
  then show ?thesis using k1 unfolding k2_def by auto
qed

end
