(* ===== verification/Loader.thy ===== *)
theory Loader
  imports Exec
begin

text \<open>
  What the ELF loader leaves in the address space it loads into: the contents of every segment, where a
  successful load returns, and which address space is active where it fails.

  The facts about user memory are collected as \<open>user_byte\<close>: an address is mapped for user access to a frame
  that is not free and the byte there has a given value.  Loading a segment adds such facts for its own
  addresses and keeps those of the segments before it, because it maps only pages that were unmapped, on
  frames that were free.
\<close>

section \<open>Successful copies\<close>

lemma memcpy_success:
  "uaccess_memcpy_to_user s root va bs ph = (0, ph') \<Longrightarrow> i < length bs \<Longrightarrow> translate s root (va + i) \<noteq> None"
proof (induction bs arbitrary: va ph i)
  case (Cons b bs)
  then show ?case by (cases i) (auto simp: EFAULT_def split: option.splits, metis add_Suc_right add_Suc option.distinct(1))
qed simp

lemma memcpy_outside:
  "uaccess_memcpy_to_user s root va bs ph = (r, ph') \<Longrightarrow> a \<notin> user_bytes s root va (length bs) \<Longrightarrow> ph' a = ph a"
proof (induction bs arbitrary: va ph)
  case (Cons b bs)
  have "a \<notin> user_bytes s root (va + 1) (length bs)" "translate s root va \<noteq> Some a"
    using Cons.prems(2) by (auto simp: user_bytes_def dest: spec [of _ "Suc _"] spec [of _ 0])
  then show ?case using Cons by (auto split: option.splits)
qed simp

lemma memcpy_replicate:
  "uaccess_memcpy_to_user s root va (replicate n b) ph = (0, ph') \<Longrightarrow> a \<in> user_bytes s root va n \<Longrightarrow> ph' a = b"
proof (induction n arbitrary: va ph)
  case (Suc n)
  obtain x where x: "translate s root va = Some x" "uaccess_memcpy_to_user s root (va + 1) (replicate n b) (ph(x := b)) = (0, ph')"
    using Suc.prems(1) by (auto simp: EFAULT_def split: option.splits)
  show ?case
  proof (cases "a \<in> user_bytes s root (va + 1) n")
    case False
    obtain i where i: "i < Suc n" "translate s root (va + i) = Some a" using Suc.prems(2) by (auto simp: user_bytes_def)
    have "i = 0"
    proof (rule ccontr)
      assume "i \<noteq> 0"
      then obtain j where "i = Suc j" by (cases i) auto
      then show False using i False by (auto simp: user_bytes_def)
    qed
    then have "a = x" using i(2) x(1) by simp
    then show ?thesis using memcpy_outside [OF x(2)] False by simp
  qed (use Suc.IH [OF x(2)] in blast)
qed (simp add: user_bytes_def)

lemma k_copy_success:
  assumes "k_copy_to_user sp va bs k = (r, k')" "0 \<le> r"
  shows "\<exists>ph'. uaccess_memcpy_to_user (kvm k) (cr3 k) va bs (k_phys k) = (0, ph') \<and> k' = k\<lparr>k_phys := ph'\<rparr>"
proof -
  have "fst (uaccess_memcpy_to_user s root va bs ph) = 0 \<or> fst (uaccess_memcpy_to_user s root va bs ph) = - EFAULT" for s root va ph
    by (induction bs arbitrary: va ph) (auto split: option.splits)
  then show ?thesis
    using assms unfolding k_copy_to_user_def copy_to_user_def Let_def
    by (auto simp: EFAULT_def split: if_splits prod.splits) (metis fst_conv le_minus_one_simps(3) neg_0_le_iff_le not_numeral_le_zero)
qed

lemma user_bytes_append: "user_bytes s root va (m + n) = user_bytes s root va m \<union> user_bytes s root (va + m) n"
proof -
  have "(\<exists>i < m + n. P i) \<longleftrightarrow> (\<exists>i < m. P i) \<or> (\<exists>i < n. P (m + i))" for P
    by (metis add_less_cancel_left le_add_diff_inverse not_less trans_less_add1)
  then show ?thesis unfolding user_bytes_def by (auto simp: add.assoc)
qed

lemma zero_user_success:
  assumes "zero_user sp dst rem k = (True, k')"
  shows "\<exists>ph'. k' = k\<lparr>k_phys := ph'\<rparr> \<and> (\<forall>a. ph' a = (if a \<in> user_bytes (kvm k) (cr3 k) dst rem then 0 else k_phys k a)) \<and>
    (\<forall>i < rem. translate (kvm k) (cr3 k) (dst + i) \<noteq> None)"
  using assms
proof (induction sp dst rem k rule: zero_user.induct)
  case (1 sp dst rem k)
  show ?case
  proof (cases "0 < rem")
    case True
    define chunk where "chunk = (if PAGE_SIZE < rem then PAGE_SIZE else rem)"
    have ch: "chunk \<le> rem" by (simp add: chunk_def)
    obtain r k1 where c: "k_copy_to_user sp dst (replicate chunk 0) k = (r, k1)" by fastforce
    have r: "0 \<le> r" "zero_user sp (dst + chunk) (rem - chunk) k1 = (True, k')"
      using "1.prems" True c by (subst (asm) zero_user.simps, auto simp: chunk_def Let_def split: if_splits)+
    obtain ph1 where p1: "uaccess_memcpy_to_user (kvm k) (cr3 k) dst (replicate chunk 0) (k_phys k) = (0, ph1)" "k1 = k\<lparr>k_phys := ph1\<rparr>"
      using k_copy_success [OF c r(1)] by blast
    obtain ph' where p2: "k' = k1\<lparr>k_phys := ph'\<rparr>"
      "\<forall>a. ph' a = (if a \<in> user_bytes (kvm k) (cr3 k) (dst + chunk) (rem - chunk) then 0 else ph1 a)"
      "\<forall>i < rem - chunk. translate (kvm k) (cr3 k) (dst + chunk + i) \<noteq> None"
      using "1.IH" [OF True refl c [unfolded chunk_def, symmetric] refl _ r(2) [unfolded chunk_def]] r(1) p1(2)
      by (auto simp: chunk_def)
    have "ph1 a = (if a \<in> user_bytes (kvm k) (cr3 k) dst chunk then 0 else k_phys k a)" for a
      using memcpy_replicate [OF p1(1)] memcpy_outside [OF p1(1)] by simp
    then have "\<forall>a. ph' a = (if a \<in> user_bytes (kvm k) (cr3 k) dst (chunk + (rem - chunk)) then 0 else k_phys k a)"
      using p2(2) unfolding user_bytes_append by simp
    moreover have "translate (kvm k) (cr3 k) (dst + i) \<noteq> None" if "i < rem" for i
    proof (cases "i < chunk")
      case True
      then show ?thesis using memcpy_success [OF p1(1)] by simp
    next
      case False
      then show ?thesis using p2(3) that by (metis add.assoc add_diff_inverse_nat diff_less_mono not_less)
    qed
    moreover have "k' = k\<lparr>k_phys := ph'\<rparr>" using p1(2) p2(1) by simp
    ultimately show ?thesis unfolding le_add_diff_inverse [OF ch] by blast
  next
    case False
    then have "k' = k" "rem = 0" using "1.prems" by (subst (asm) zero_user.simps, simp)+
    then show ?thesis by (intro exI [of _ "k_phys k"]) (simp add: user_bytes_def)
  qed
qed

section \<open>User memory\<close>

text \<open>The space being loaded: a user space whose tables are in CR3.\<close>

definition loading :: "paddr set \<Rightarrow> nat \<Rightarrow> kernel \<Rightarrow> bool" where
  "loading R sp k \<longleftrightarrow> vm_inv R (kvm k) \<and> sp \<noteq> 0 \<and> user_space R (k_spaces k sp) \<and> active_space (k_sched k) = sp"

abbreviation root_of :: "nat \<Rightarrow> kernel \<Rightarrow> paddr" where
  "root_of sp k \<equiv> sp_pml4 (k_spaces k sp)"

definition user_byte :: "paddr set \<Rightarrow> paddr \<Rightarrow> kernel \<Rightarrow> vaddr \<Rightarrow> byte \<Rightarrow> bool" where
  "user_byte R root k va b \<longleftrightarrow> va < 2 ^ 48 \<and> (\<exists>pa. absv R (kvm k) root (align_down PAGE_SIZE va) = Some (pa, 7) \<and>
    PAGE_SIZE dvd pa \<and> pa \<notin> free_of (kvm k) \<and> k_phys k (pa + va mod PAGE_SIZE) = b)"

lemma loadingD:
  assumes "loading R sp k"
  shows "vm_inv R (kvm k)" "space_of sp k = Some (k_spaces k sp)" "cr3 k = root_of sp k" "user_space R (k_spaces k sp)" "root_of sp k \<in> R"
  using assms by (auto simp: loading_def space_of_def cr3_def user_space_def)

lemma vpage_align: "va < 2 ^ 48 \<Longrightarrow> vpage (align_down PAGE_SIZE va)"
  using align_down_le [of PAGE_SIZE va] align_down_dvd [of PAGE_SIZE va] unfolding vpage_def by (metis dvd_imp_mod_0 le_less_trans)

lemma translate_abs:
  assumes "vm_inv R s" "root \<in> R" "va < 2 ^ 48"
  shows "translate s root va = map_option (\<lambda>(pa, _). pa + va mod PAGE_SIZE) (absv R s root (align_down PAGE_SIZE va))"
proof -
  let ?sp = "\<lparr>sp_pml4 = root, sp_refcount = 1, sp_is_kernel = False\<rparr>"
  have "user_space R ?sp" using assms(2) by (simp add: user_space_def)
  from vmm_query_abs [OF assms(1) this vpage_align [OF assms(3)]] show ?thesis
    by (simp add: translate_def root_space_def split: option.splits)
qed

lemma frame_unique:
  assumes "PAGE_SIZE dvd p" "PAGE_SIZE dvd q" "p + x mod PAGE_SIZE = q + y mod PAGE_SIZE"
  shows "p = q \<and> x mod PAGE_SIZE = y mod PAGE_SIZE"
  using page_offset_unique [OF assms(1,2) _ _ assms(3)] by simp

lemma page_eq: "align_down PAGE_SIZE x = align_down PAGE_SIZE y \<Longrightarrow> x mod PAGE_SIZE = y mod PAGE_SIZE \<Longrightarrow> x = y"
  by (metis align_down_def div_mult_mod_eq)

section \<open>One segment\<close>

lemma segment_okD:
  assumes "\<not> segment_bad data ph" "ph_vaddr ph < two64"
  defines "vas \<equiv> addr_steps (align_down PAGE_SIZE (ph_vaddr ph)) (align_up PAGE_SIZE (ph_vaddr ph + ph_memsz ph))"
  shows "\<forall>va \<in> set vas. user_va va" "ph_filesz ph \<le> ph_memsz ph" "ph_offset ph + ph_filesz ph \<le> length data" "ph_vaddr ph + ph_memsz ph \<le> USER_VA_TOP"
    "j < ph_memsz ph \<Longrightarrow> align_down PAGE_SIZE (ph_vaddr ph + j) \<in> set vas"
    "align_down PAGE_SIZE (ph_vaddr ph) \<le> ph_vaddr ph" "ph_vaddr ph + ph_memsz ph \<le> align_up PAGE_SIZE (ph_vaddr ph + ph_memsz ph)"
proof -
  let ?s = "align_down PAGE_SIZE (ph_vaddr ph)" and ?e = "align_up PAGE_SIZE (ph_vaddr ph + ph_memsz ph)"
  have b: "ph_filesz ph \<le> ph_memsz ph" "ph_offset ph \<le> length data" "ph_filesz ph \<le> length data - ph_offset ph" "USER_VA_BASE \<le> ph_vaddr ph"
    "ph_memsz ph \<le> two64 - 1 - ph_vaddr ph" "?s \<le> ?e" "?e \<le> USER_VA_TOP"
    using assms(1) by (auto simp: segment_bad_def Let_def split: if_splits)
  show "ph_filesz ph \<le> ph_memsz ph" "ph_offset ph + ph_filesz ph \<le> length data" using b by auto
  have nw: "ph_vaddr ph + ph_memsz ph + (PAGE_SIZE - 1) < two64"
  proof (rule ccontr)
    assume big: "\<not> ?thesis"
    have "?e \<le> wrap64 (ph_vaddr ph + ph_memsz ph + (PAGE_SIZE - 1))" unfolding align_up_def by (rule align_down_le)
    also have "\<dots> < PAGE_SIZE"
      using big wrap64_once [of "ph_vaddr ph + ph_memsz ph" "PAGE_SIZE - 1"] b(5) assms(2) by auto
    finally have "?s < PAGE_SIZE" using b(6) by simp
    then have "ph_vaddr ph < 2 * PAGE_SIZE" using align_down_gt [of PAGE_SIZE "ph_vaddr ph"] by simp
    then show False using b(4) by simp
  qed
  show e: "ph_vaddr ph + ph_memsz ph \<le> ?e" by (rule align_up_ge) (use nw in auto)
  then show "ph_vaddr ph + ph_memsz ph \<le> USER_VA_TOP" using b by simp
  show "?s \<le> ph_vaddr ph" by simp
  have sb: "USER_VA_BASE \<le> ?s" using le_align_down_iff [of PAGE_SIZE USER_VA_BASE "ph_vaddr ph"] b(4) by simp
  show "\<forall>va \<in> set vas. user_va va"
  proof
    fix va assume "va \<in> set vas"
    then obtain i where va: "va = ?s + i * PAGE_SIZE" "va < ?e" by (auto simp: vas_def set_addr_steps)
    have "va mod PAGE_SIZE = 0" unfolding va(1) by (simp add: align_down_def)
    then show "user_va va" using va sb b(7) by (simp add: user_va_def vpage_def)
  qed
  show "align_down PAGE_SIZE (ph_vaddr ph + j) \<in> set vas" if "j < ph_memsz ph"
  proof -
    have "?s \<le> ph_vaddr ph + j" using align_down_le [of PAGE_SIZE "ph_vaddr ph"] by linarith
    from align_down_cover [OF align_down_dvd _ this] obtain i where i: "align_down PAGE_SIZE (ph_vaddr ph + j) = ?s + i * PAGE_SIZE" by auto
    have "align_down PAGE_SIZE (ph_vaddr ph + j) < ?e" using align_down_le [of PAGE_SIZE "ph_vaddr ph + j"] e that by linarith
    then show ?thesis using i by (auto simp: vas_def set_addr_steps)
  qed
qed

lemma map_upds_nth:
  "distinct xs \<Longrightarrow> length xs = length ys \<Longrightarrow> i < length xs \<Longrightarrow> (m(xs [\<mapsto>] ys)) (xs ! i) = Some (ys ! i)"
proof (induction xs arbitrary: ys m i)
  case (Cons x xs)
  obtain y zs where ys: "ys = y # zs" using Cons.prems(2) by (cases ys) auto
  show ?case
  proof (cases i)
    case 0
    then show ?thesis using Cons.prems(1) ys by (simp add: map_upds_apply_nontin)
  next
    case (Suc j)
    then show ?thesis using Cons.IH [of zs j "m(x \<mapsto> y)"] Cons.prems ys by (simp del: fun_upd_apply)
  qed
qed simp

lemma align_down_frame: "PAGE_SIZE dvd p \<Longrightarrow> align_down PAGE_SIZE (p + x mod PAGE_SIZE) = p"
  by (auto simp: align_down_def elim!: dvdE)

text \<open>The bytes of a segment, read through a table that maps its pages to distinct frames.\<close>

lemma segment_translate:
  assumes "vm_inv R s" "root \<in> R" "distinct vas" "distinct pas" "length pas = length vas" "\<forall>pa \<in> set pas. PAGE_SIZE dvd pa"
    "absv R s root = m(vas [\<mapsto>] map (\<lambda>pa. (pa, f)) pas)" "\<forall>j < n. align_down PAGE_SIZE (base + j) \<in> set vas" "base + n \<le> 2 ^ 48"
  shows "j < n \<Longrightarrow> \<exists>pa \<in> set pas. absv R s root (align_down PAGE_SIZE (base + j)) = Some (pa, f) \<and>
      translate s root (base + j) = Some (pa + (base + j) mod PAGE_SIZE)"
    and "i < n \<Longrightarrow> j < n \<Longrightarrow> translate s root (base + i) = translate s root (base + j) \<Longrightarrow> i = j"
proof -
  have pg: "\<exists>a < length vas. align_down PAGE_SIZE (base + j) = vas ! a \<and> absv R s root (align_down PAGE_SIZE (base + j)) = Some (pas ! a, f) \<and>
      translate s root (base + j) = Some (pas ! a + (base + j) mod PAGE_SIZE)" if "j < n" for j
  proof -
    obtain a where a: "a < length vas" "align_down PAGE_SIZE (base + j) = vas ! a" using assms(8) \<open>j < n\<close> by (metis in_set_conv_nth)
    have q: "absv R s root (vas ! a) = Some (pas ! a, f)"
      using map_upds_nth [OF assms(3), of "map (\<lambda>pa. (pa, f)) pas" a m] a(1) assms(5,7) by simp
    have "base + j < 2 ^ 48" using assms(9) that by simp
    from translate_abs [OF assms(1,2) this] show ?thesis using a q by auto
  qed
  show "\<exists>pa \<in> set pas. absv R s root (align_down PAGE_SIZE (base + j)) = Some (pa, f) \<and>
      translate s root (base + j) = Some (pa + (base + j) mod PAGE_SIZE)" if "j < n"
    using pg [OF that] assms(5) by (metis nth_mem)
  assume ij: "i < n" "j < n" "translate s root (base + i) = translate s root (base + j)"
  obtain a b where a: "a < length vas" "align_down PAGE_SIZE (base + i) = vas ! a" "translate s root (base + i) = Some (pas ! a + (base + i) mod PAGE_SIZE)"
    and b: "b < length vas" "align_down PAGE_SIZE (base + j) = vas ! b" "translate s root (base + j) = Some (pas ! b + (base + j) mod PAGE_SIZE)"
    using pg [OF ij(1)] pg [OF ij(2)] by blast
  have "PAGE_SIZE dvd pas ! a" "PAGE_SIZE dvd pas ! b" "pas ! a + (base + i) mod PAGE_SIZE = pas ! b + (base + j) mod PAGE_SIZE"
    using assms(5,6) a b ij(3) by simp_all
  from frame_unique [OF this] have "a = b" "(base + i) mod PAGE_SIZE = (base + j) mod PAGE_SIZE"
    using assms(4,5) a(1) b(1) by (auto simp: nth_eq_iff_index_eq)
  then have "base + i = base + j" using a(2) b(2) page_eq by metis
  then show "i = j" by simp
qed

text \<open>The bytes a segment asks for.\<close>

definition segment_byte :: "byte list \<Rightarrow> elf64_phdr \<Rightarrow> nat \<Rightarrow> byte" where
  "segment_byte data ph j = (if j < ph_filesz ph then data ! (ph_offset ph + j) else 0)"

text \<open>Zeroing the whole range and copying the file bytes over its beginning.\<close>

lemma fill_segment:
  assumes t: "\<forall>j < ph_memsz ph. translate s root (ph_vaddr ph + j) \<noteq> None"
    and inj: "\<forall>i < ph_memsz ph. \<forall>j < ph_memsz ph. translate s root (ph_vaddr ph + i) = translate s root (ph_vaddr ph + j) \<longrightarrow> i = j"
    and sz: "ph_filesz ph \<le> ph_memsz ph" "ph_offset ph + ph_filesz ph \<le> length data"
    and z: "\<forall>a. ph2 a = (if a \<in> user_bytes s root (ph_vaddr ph) (ph_memsz ph) then 0 else ph1 a)"
    and c: "uaccess_memcpy_to_user s root (ph_vaddr ph) (take (ph_filesz ph) (drop (ph_offset ph) data)) ph2 = (0, ph3)"
  shows "(\<forall>j < ph_memsz ph. ph3 (the (translate s root (ph_vaddr ph + j))) = segment_byte data ph j) \<and>
    (\<forall>a. a \<notin> user_bytes s root (ph_vaddr ph) (ph_memsz ph) \<longrightarrow> ph3 a = ph1 a)"
proof -
  let ?bs = "take (ph_filesz ph) (drop (ph_offset ph) data)" and ?v = "ph_vaddr ph"
  have len: "length ?bs = ph_filesz ph" using sz(2) by simp
  have t': "\<forall>i < length ?bs. translate s root (?v + i) \<noteq> None" using t sz(1) len by simp
  have inj': "\<forall>i < length ?bs. \<forall>j < length ?bs. translate s root (?v + i) = translate s root (?v + j) \<longrightarrow> i = j" using inj sz(1) len by simp
  have w: "\<forall>i < ph_filesz ph. ph3 (the (translate s root (?v + i))) = ?bs ! i"
    "\<forall>a. (\<forall>i < ph_filesz ph. translate s root (?v + i) \<noteq> Some a) \<longrightarrow> ph3 a = ph2 a"
    using memcpy_to_user_run [OF t' inj', of ph2] unfolding c len by auto
  have "ph3 (the (translate s root (?v + j))) = segment_byte data ph j" if j: "j < ph_memsz ph" for j
  proof (cases "j < ph_filesz ph")
    case True
    then show ?thesis using w(1) sz(2) by (simp add: segment_byte_def)
  next
    case False
    obtain a where a: "translate s root (?v + j) = Some a" using t j by blast
    have "translate s root (?v + i) \<noteq> Some a" if "i < ph_filesz ph" for i
      using inj [rule_format, of i j] that False sz(1) j a by auto
    then have "ph3 a = ph2 a" using w(2) by blast
    moreover have "a \<in> user_bytes s root ?v (ph_memsz ph)" using a j by (auto simp: user_bytes_def)
    ultimately show ?thesis using z a False by (simp add: segment_byte_def)
  qed
  moreover have "ph3 a = ph1 a" if "a \<notin> user_bytes s root ?v (ph_memsz ph)" for a
  proof -
    have "\<forall>i < ph_filesz ph. translate s root (?v + i) \<noteq> Some a" using that sz(1) by (auto simp: user_bytes_def)
    then show ?thesis using w(2) z that by simp
  qed
  ultimately show ?thesis by blast
qed

lemma load_segment_ok:
  assumes L: "loading R sp k" and g: "\<not> segment_bad data ph" "ph_vaddr ph < two64" and ld: "load_segment sp data ph k = (True, k')"
  defines "vas \<equiv> addr_steps (align_down PAGE_SIZE (ph_vaddr ph)) (align_up PAGE_SIZE (ph_vaddr ph + ph_memsz ph))"
  shows "\<exists>pas. loading R sp k' \<and> k_spaces k' = k_spaces k \<and> k_sched k' = k_sched k \<and> set pas \<subseteq> free_of (kvm k) \<and>
    free_of (kvm k') \<subseteq> free_of (kvm k) \<and> length pas = length vas \<and> (\<forall>va \<in> set vas. absv R (kvm k) (root_of sp k) va = None) \<and>
    absv R (kvm k') = (absv R (kvm k))(root_of sp k := (absv R (kvm k) (root_of sp k))(vas [\<mapsto>] map (\<lambda>pa. (pa, 7)) pas)) \<and>
    (\<forall>a. align_down PAGE_SIZE a \<notin> set pas \<longrightarrow> k_phys k' a = k_phys k a) \<and>
    (\<forall>j < ph_memsz ph. user_byte R (root_of sp k) k' (ph_vaddr ph + j) (segment_byte data ph j))"
proof -
  note l = loadingD [OF L] and sg = segment_okD [OF g, folded vas_def]
  let ?root = "root_of sp k" and ?bs = "take (ph_filesz ph) (drop (ph_offset ph) data)"
  obtain n s1 where f: "map_fresh (Some (k_spaces k sp)) 7 vas (kvm k) = (n, s1)" by fastforce
  have b7: "bit (7 :: u32) 0" by simp
  obtain pas where p: "length pas = n" "n \<le> length vas" "vm_inv R s1" "distinct pas" "distinct (take n vas)" "set pas \<subseteq> free_of (kvm k)"
    "set pas \<inter> (free_of s1 \<union> nodes R s1) = {}" "free_of s1 \<subseteq> free_of (kvm k)"
    "\<forall>va \<in> set (take n vas). absv R (kvm k) ?root va = None"
    "absv R s1 = (absv R (kvm k))(?root := (absv R (kvm k) ?root)(take n vas [\<mapsto>] map (\<lambda>pa. (pa, 7 AND 15)) pas))"
    using map_fresh_ok [OF l(1,4) sg(1) b7 f] by blast
  define k1 where "k1 = set_vm s1 k"
  have k1: "kvm k1 = s1" "cr3 k1 = ?root" "k_phys k1 = k_phys k" "k_spaces k1 = k_spaces k" "k_sched k1 = k_sched k"
    using l(3) by (simp_all add: k1_def kvm_def set_vm_def cr3_def)
  have n: "n = length vas" and "\<exists>k2. zero_user sp (ph_vaddr ph) (ph_memsz ph) k1 = (True, k2) \<and>
      (if 0 < ph_filesz ph then \<exists>r. k_copy_to_user sp (ph_vaddr ph) ?bs k2 = (r, k') \<and> 0 \<le> r else k' = k2)"
    using ld f p(2) unfolding load_segment_def vas_def [symmetric] Let_def l(2)
    by (auto simp: k1_def split: if_splits prod.splits)
  then obtain k2 where z: "zero_user sp (ph_vaddr ph) (ph_memsz ph) k1 = (True, k2)"
    and cp: "if 0 < ph_filesz ph then \<exists>r. k_copy_to_user sp (ph_vaddr ph) ?bs k2 = (r, k') \<and> 0 \<le> r else k' = k2" by blast
  obtain ph2 where z2: "k2 = k1\<lparr>k_phys := ph2\<rparr>" "\<forall>a. ph2 a = (if a \<in> user_bytes s1 ?root (ph_vaddr ph) (ph_memsz ph) then 0 else k_phys k a)"
    "\<forall>i < ph_memsz ph. translate s1 ?root (ph_vaddr ph + i) \<noteq> None"
    using zero_user_success [OF z] unfolding k1 by blast
  obtain ph3 where c: "k' = k1\<lparr>k_phys := ph3\<rparr>" "uaccess_memcpy_to_user s1 ?root (ph_vaddr ph) ?bs ph2 = (0, ph3)"
  proof (cases "0 < ph_filesz ph")
    case True
    then obtain r where "k_copy_to_user sp (ph_vaddr ph) ?bs k2 = (r, k')" "0 \<le> r" using cp by auto
    from k_copy_success [OF this] that show ?thesis using k1 by (auto simp: z2(1))
  next
    case False
    then show ?thesis using that [of ph2] cp z2(1) by simp
  qed
  have al: "\<forall>pa \<in> set pas. PAGE_SIZE dvd pa" using pmm.free_aligned [OF vm_invD(1) [OF l(1)]] p(6) by blast
  have dv: "distinct vas" "length pas = length vas" "absv R s1 ?root = (absv R (kvm k) ?root)(vas [\<mapsto>] map (\<lambda>pa. (pa, 7)) pas)"
    using p(1,5,10) n by simp_all
  have rng: "\<forall>j < ph_memsz ph. align_down PAGE_SIZE (ph_vaddr ph + j) \<in> set vas" "ph_vaddr ph + ph_memsz ph \<le> 2 ^ 48" using sg(4,5) by auto
  note tr = segment_translate [OF p(3) l(5) dv(1) p(4) dv(2) al dv(3) rng]
  have inj: "\<forall>i < ph_memsz ph. \<forall>j < ph_memsz ph. translate s1 ?root (ph_vaddr ph + i) = translate s1 ?root (ph_vaddr ph + j) \<longrightarrow> i = j"
    using tr(2) by blast
  note fs = fill_segment [OF z2(3) inj sg(2,3) z2(2) c(2)]
  have k': "kvm k' = s1" "k_phys k' = ph3" "k_spaces k' = k_spaces k" "k_sched k' = k_sched k" using k1 by (simp_all add: c(1))
  have ub: "user_byte R ?root k' (ph_vaddr ph + j) (segment_byte data ph j)" if j: "j < ph_memsz ph" for j
  proof -
    obtain pa where pa: "pa \<in> set pas" "absv R s1 ?root (align_down PAGE_SIZE (ph_vaddr ph + j)) = Some (pa, 7)"
      "translate s1 ?root (ph_vaddr ph + j) = Some (pa + (ph_vaddr ph + j) mod PAGE_SIZE)" using tr(1) [OF j] by blast
    have "ph3 (pa + (ph_vaddr ph + j) mod PAGE_SIZE) = segment_byte data ph j" using fs j pa(3) by auto
    then show ?thesis using pa(1,2) al p(7) rng(2) j unfolding user_byte_def k' by auto
  qed
  have out: "k_phys k' a = k_phys k a" if "align_down PAGE_SIZE a \<notin> set pas" for a
  proof -
    have "a \<notin> user_bytes s1 ?root (ph_vaddr ph) (ph_memsz ph)"
      using tr(1) al that align_down_frame by (fastforce simp: user_bytes_def)
    then show ?thesis using fs k'(2) by simp
  qed
  have "loading R sp k'" using L p(3) unfolding loading_def k' by simp
  then show ?thesis using ub out p(1,6,8,9,10) n dv unfolding k' by (intro exI [of _ pas]) simp
qed

lemma user_byte_keep:
  assumes "user_byte R root k va b" "set pas \<subseteq> free_of (kvm k)" "free_of (kvm k') \<subseteq> free_of (kvm k)" "\<forall>va \<in> set vas. absv R (kvm k) root va = None"
    "absv R (kvm k') = (absv R (kvm k))(root := (absv R (kvm k) root)(vas [\<mapsto>] map (\<lambda>pa. (pa, 7)) pas))"
    "\<forall>a. align_down PAGE_SIZE a \<notin> set pas \<longrightarrow> k_phys k' a = k_phys k a"
  shows "user_byte R root k' va b"
proof -
  obtain pa where pa: "absv R (kvm k) root (align_down PAGE_SIZE va) = Some (pa, 7)" "PAGE_SIZE dvd pa" "pa \<notin> free_of (kvm k)"
    "k_phys k (pa + va mod PAGE_SIZE) = b" using assms(1) by (auto simp: user_byte_def)
  have "align_down PAGE_SIZE va \<notin> set vas" using assms(4) pa(1) by auto
  then have "absv R (kvm k') root (align_down PAGE_SIZE va) = Some (pa, 7)" using pa(1) by (simp add: assms(5))
  moreover have "pa \<notin> set pas" using pa(3) assms(2) by blast
  then have "k_phys k' (pa + va mod PAGE_SIZE) = b" using assms(6) align_down_frame [OF pa(2)] pa(4) by simp
  ultimately show ?thesis using assms(1,3) pa(2,3) by (auto simp: user_byte_def)
qed

section \<open>The segment loop\<close>

lemma le_val_bound: "le_val bs < 256 ^ length bs"
proof (induction bs)
  case (Cons b bs)
  have "unat b < 256" using unsigned_less [of b, where ?'a = nat] by simp
  moreover have "256 * le_val bs + 256 \<le> 256 * 256 ^ length bs" using Cons by simp
  moreover have "le_val (b # bs) = unat b + 256 * le_val bs" by (simp add: le_val_def)
  ultimately show ?case by simp
qed (simp add: le_val_def)

lemma phdr_bound: "ph_vaddr (elf_phdr data off) < two64"
proof -
  have "le_val (take 8 (drop (off + 16) data)) < 256 ^ length (take 8 (drop (off + 16) data))" by (rule le_val_bound)
  also have "\<dots> \<le> 256 ^ 8" by (rule power_increasing) auto
  finally show ?thesis by (simp add: elf_phdr_def field_def)
qed

abbreviation phdr :: "byte list \<Rightarrow> nat \<Rightarrow> elf64_phdr" where
  "phdr data i \<equiv> elf_phdr data (e_phoff data + i * 56)"

definition loadable :: "elf64_phdr \<Rightarrow> bool" where
  "loadable ph \<longleftrightarrow> ph_type ph = 1 \<and> ph_memsz ph \<noteq> 0"

text \<open>Segment \<open>ph\<close> is in place, within the given bounds.\<close>

definition placed :: "paddr set \<Rightarrow> paddr \<Rightarrow> byte list \<Rightarrow> elf64_phdr \<Rightarrow> nat \<Rightarrow> nat \<Rightarrow> kernel \<Rightarrow> bool" where
  "placed R root data ph lo hi k \<longleftrightarrow> USER_VA_BASE \<le> ph_vaddr ph \<and> ph_vaddr ph + ph_memsz ph \<le> USER_VA_TOP \<and>
    ph_filesz ph \<le> ph_memsz ph \<and> ph_offset ph + ph_filesz ph \<le> length data \<and> lo \<le> ph_vaddr ph \<and> ph_vaddr ph + ph_memsz ph \<le> hi \<and>
    (\<forall>j < ph_memsz ph. user_byte R root k (ph_vaddr ph + j) (segment_byte data ph j))"

definition extends :: "paddr set \<Rightarrow> nat \<Rightarrow> kernel \<Rightarrow> kernel \<Rightarrow> bool" where
  "extends R sp k k' \<longleftrightarrow> loading R sp k' \<and> k_spaces k' = k_spaces k \<and> k_sched k' = k_sched k \<and>
    (\<forall>va b. user_byte R (root_of sp k) k va b \<longrightarrow> user_byte R (root_of sp k) k' va b) \<and>
    (\<forall>r. r \<noteq> root_of sp k \<longrightarrow> absv R (kvm k') r = absv R (kvm k) r)"

lemma extends_trans: "extends R sp k k1 \<Longrightarrow> extends R sp k1 k2 \<Longrightarrow> extends R sp k k2"
  by (simp add: extends_def)

lemma placed_mono:
  "placed R root data ph lo hi k \<Longrightarrow> lo' \<le> lo \<Longrightarrow> hi \<le> hi' \<Longrightarrow> (\<forall>va b. user_byte R root k va b \<longrightarrow> user_byte R root k' va b) \<Longrightarrow>
   placed R root data ph lo' hi' k'"
  unfolding placed_def by auto

lemma segment_extends:
  assumes L: "loading R sp k" and g: "\<not> segment_bad data ph" "ph_vaddr ph < two64" and ld: "load_segment sp data ph k = (True, k')"
  shows "extends R sp k k' \<and> placed R (root_of sp k) data ph (align_down PAGE_SIZE (ph_vaddr ph)) (align_up PAGE_SIZE (ph_vaddr ph + ph_memsz ph)) k'"
proof -
  from load_segment_ok [OF assms] obtain pas vas where s: "loading R sp k'" "k_spaces k' = k_spaces k" "k_sched k' = k_sched k"
    "set pas \<subseteq> free_of (kvm k)" "free_of (kvm k') \<subseteq> free_of (kvm k)" "\<forall>va \<in> set vas. absv R (kvm k) (root_of sp k) va = None"
    "absv R (kvm k') = (absv R (kvm k))(root_of sp k := (absv R (kvm k) (root_of sp k))(vas [\<mapsto>] map (\<lambda>pa. (pa, 7)) pas))"
    "\<forall>a. align_down PAGE_SIZE a \<notin> set pas \<longrightarrow> k_phys k' a = k_phys k a"
    "\<forall>j < ph_memsz ph. user_byte R (root_of sp k) k' (ph_vaddr ph + j) (segment_byte data ph j)" by blast
  have keep: "user_byte R (root_of sp k) k' va b" if "user_byte R (root_of sp k) k va b" for va b
    by (rule user_byte_keep [OF that s(4-8)])
  have other: "absv R (kvm k') r = absv R (kvm k) r" if "r \<noteq> root_of sp k" for r using s(7) that by simp
  have "USER_VA_BASE \<le> ph_vaddr ph" using g(1) by (auto simp: segment_bad_def split: if_splits)
  then show ?thesis using s(1-3,9) keep other segment_okD [OF g] by (simp add: extends_def placed_def)
qed

lemma elf_segments_ok:
  assumes "loading R sp k" "elf_segments sp data is lo hi n k = (ElfLoaded lo' hi' n', k')"
  shows "extends R sp k k' \<and> lo' \<le> lo \<and> hi \<le> hi' \<and>
    (\<forall>i \<in> set is. loadable (phdr data i) \<longrightarrow> placed R (root_of sp k) data (phdr data i) lo' hi' k')"
  using assms
proof (induction "is" arbitrary: lo hi n k)
  case Nil
  then show ?case by (simp add: extends_def)
next
  case (Cons i "is")
  let ?ph = "phdr data i"
  show ?case
  proof (cases "loadable ?ph")
    case False
    then have "elf_segments sp data is lo hi n k = (ElfLoaded lo' hi' n', k')" using Cons.prems(2) by (auto simp: Let_def loadable_def split: if_splits)
    from Cons.IH [OF Cons.prems(1) this] False show ?thesis by simp
  next
    case True
    let ?s = "align_down PAGE_SIZE (ph_vaddr ?ph)" and ?e = "align_up PAGE_SIZE (ph_vaddr ?ph + ph_memsz ?ph)"
    obtain k1 where k1: "\<not> segment_bad data ?ph" "load_segment sp data ?ph k = (True, k1)"
      "elf_segments sp data is (if ?s < lo then ?s else lo) (if hi < ?e then ?e else hi) (n + 1) k1 = (ElfLoaded lo' hi' n', k')"
      using Cons.prems(2) True by (auto simp: Let_def loadable_def split: if_splits prod.splits)
    note S = segment_extends [OF Cons.prems(1) k1(1) phdr_bound k1(2)]
    have L1: "loading R sp k1" and r: "root_of sp k1 = root_of sp k" using S by (simp_all add: extends_def)
    note I = Cons.IH [OF L1 k1(3), unfolded r]
    have b: "lo' \<le> ?s" "?e \<le> hi'" "lo' \<le> lo" "hi \<le> hi'" using I by (auto split: if_splits)
    have "placed R (root_of sp k) data ?ph lo' hi' k'"
      by (rule placed_mono [OF conjunct2 [OF S] b(1,2)]) (use I r in \<open>simp add: extends_def\<close>)
    moreover have "extends R sp k k'" using extends_trans S I by blast
    ultimately show ?thesis using I b by auto
  qed
qed

text \<open>A segment in place reads as its file bytes followed by zeros.\<close>

lemma placed_read:
  assumes "loading R sp k" "placed R (root_of sp k) data ph lo hi k"
  shows "copy_from_user (Some (k_spaces k sp)) (root_of sp k) (ph_vaddr ph) (ph_memsz ph) (kvm k) (k_phys k) =
    Inr (take (ph_filesz ph) (drop (ph_offset ph) data) @ replicate (ph_memsz ph - ph_filesz ph) 0)"
proof -
  note l = loadingD [OF assms(1)]
  let ?r = "root_of sp k" and ?v = "ph_vaddr ph" and ?n = "ph_memsz ph" and ?s = "kvm k"
  have pl: "USER_VA_BASE \<le> ?v" "?v + ?n \<le> USER_VA_TOP" "ph_filesz ph \<le> ?n" "ph_offset ph + ph_filesz ph \<le> length data"
    "\<forall>j < ?n. user_byte R ?r k (?v + j) (segment_byte data ph j)" using assms(2) by (auto simp: placed_def)
  have b: "\<exists>pa. vmm_query (Some (k_spaces k sp)) (align_down PAGE_SIZE (?v + j)) ?s = Some (pa, 7) \<and> translate ?s ?r (?v + j) = Some (pa + (?v + j) mod PAGE_SIZE) \<and>
      k_phys k (pa + (?v + j) mod PAGE_SIZE) = segment_byte data ph j" if "j < ?n" for j
  proof -
    obtain pa where pa: "absv R ?s ?r (align_down PAGE_SIZE (?v + j)) = Some (pa, 7)" "k_phys k (pa + (?v + j) mod PAGE_SIZE) = segment_byte data ph j"
      using pl(5) \<open>j < ?n\<close> unfolding user_byte_def by blast
    have v: "?v + j < 2 ^ 48" using pl(2) that by simp
    show ?thesis using pa translate_abs [OF l(1,5) v] vmm_query_abs [OF l(1,4) vpage_align [OF v]] by simp
  qed
  have up: "user_page (Some (k_spaces k sp)) ?s (align_down PAGE_SIZE (?v + j))" if "j < ?n" for j
  proof -
    obtain pa where "vmm_query (Some (k_spaces k sp)) (align_down PAGE_SIZE (?v + j)) ?s = Some (pa, 7)" using b [OF \<open>j < ?n\<close>] by blast
    then show ?thesis by (auto simp: user_page_def)
  qed
  have v: "?v < two64" "?n < two64" using pl(2) by auto
  have ok: "user_range_ok (Some (k_spaces k sp)) ?v ?n ?s = 0" unfolding user_range_ok_iff [OF v] using pl(1,2) up by blast
  have t: "\<forall>j < ?n. translate ?s ?r (?v + j) \<noteq> None" using b by fastforce
  have "map (\<lambda>j. k_phys k (the (translate ?s ?r (?v + j)))) [0..<?n] =
      take (ph_filesz ph) (drop (ph_offset ph) data) @ replicate (?n - ph_filesz ph) 0" (is "?l = ?rhs")
  proof (rule nth_equalityI)
    show "length ?l = length ?rhs" using pl(3,4) by simp
    fix j assume "j < length ?l"
    then have j: "j < ?n" by simp
    then have "?l ! j = segment_byte data ph j" using b [OF j] by auto
    then show "?l ! j = ?rhs ! j" using pl(3,4) j by (simp add: segment_byte_def nth_append)
  qed
  then show ?thesis using ok memcpy_from_user_run [OF t, of "k_phys k"] by (simp add: copy_from_user_def)
qed

text \<open>C7: A successful \<open>elf_load\<close> puts the program in place: every loadable segment lies in the user range and inside
  the reported image, and reading it back from the new space gives its file bytes followed by zeros up to
  its memory size; the entry point is the one of the header, the mappings of all other spaces are unchanged, and
  the space of the calling thread is active again.\<close>

theorem elf_load_correct:
  assumes "vm_inv R (kvm k)" "sp \<noteq> 0" "user_space R (k_spaces k sp)"
    and "active_space (k_sched k) = th_space (threads (k_sched k) (current (k_sched k)))" "active_space (k_sched k) \<noteq> 0"
    and "elf_load sp data k = (Some img, k')"
  shows "img_entry img = e_entry data \<and> k_sched k' = k_sched k \<and>
    (\<forall>r. r \<noteq> root_of sp k \<longrightarrow> absv R (kvm k') r = absv R (kvm k) r) \<and>
    (\<forall>i < e_phnum data. loadable (phdr data i) \<longrightarrow>
      img_load_base img \<le> ph_vaddr (phdr data i) \<and>
      ph_vaddr (phdr data i) + ph_memsz (phdr data i) \<le> img_load_base img + img_load_size img \<and>
      copy_from_user (Some (k_spaces k sp)) (root_of sp k) (ph_vaddr (phdr data i)) (ph_memsz (phdr data i)) (kvm k') (k_phys k') =
        Inr (take (ph_filesz (phdr data i)) (drop (ph_offset (phdr data i)) data) @ replicate (ph_memsz (phdr data i) - ph_filesz (phdr data i)) 0))"
proof -
  define prev where "prev = th_space (threads (k_sched k) (current (k_sched k)))"
  define k0 where "k0 = (if prev \<noteq> sp then vmm_switch sp k else k)"
  have k0: "kvm k0 = kvm k" "k_spaces k0 = k_spaces k" "k_sched k0 = (k_sched k)\<lparr>active_space := sp\<rparr>"
    using assms(2,4) by (auto simp: k0_def vmm_switch_def kvm_def prev_def)
  have L: "loading R sp k0" using assms(1-3) k0 by (simp add: loading_def)
  obtain e k1 where e: "elf_segments sp data [0..<e_phnum data] (two64 - 1) 0 0 k0 = (e, k1)" by fastforce
  define k2 where "k2 = (if prev \<noteq> sp then vmm_switch prev k1 else k1)"
  have sh: "elf_header_ok data" using assms(6) by (auto simp: elf_load_def split: if_splits)
  have run: "elf_load sp data k = (case e of ElfReturn \<Rightarrow> (None, k1) | ElfDone \<Rightarrow> (None, k2)
      | ElfLoaded lo hi n \<Rightarrow> if n = 0 then (None, k2) else (Some \<lparr>img_entry = e_entry data, img_load_base = lo, img_load_size = hi - lo\<rparr>, k2))"
    using sh assms(2) e unfolding elf_load_def Let_def prev_def [symmetric] k0_def [symmetric]
    by (auto simp: k2_def split: elf_exit.splits)
  obtain lo hi n where ex: "e = ElfLoaded lo hi n" and img: "img = \<lparr>img_entry = e_entry data, img_load_base = lo, img_load_size = hi - lo\<rparr>"
    and k': "k' = k2" using assms(6) run by (auto split: elf_exit.splits if_splits)
  note S = elf_segments_ok [OF L e [unfolded ex]]
  have s1: "loading R sp k1" "k_spaces k1 = k_spaces k" "k_sched k1 = (k_sched k)\<lparr>active_space := sp\<rparr>"
    "\<forall>r. r \<noteq> root_of sp k \<longrightarrow> absv R (kvm k1) r = absv R (kvm k) r" using S k0 by (simp_all add: extends_def)
  have k2: "kvm k2 = kvm k1" "k_phys k2 = k_phys k1" "k_sched k2 = k_sched k"
    using s1(3) assms(4,5) by (auto simp: k2_def vmm_switch_def kvm_def prev_def)
  have seg: "img_load_base img \<le> ph_vaddr ph \<and> ph_vaddr ph + ph_memsz ph \<le> img_load_base img + img_load_size img \<and>
      copy_from_user (Some (k_spaces k sp)) (root_of sp k) (ph_vaddr ph) (ph_memsz ph) (kvm k') (k_phys k') =
        Inr (take (ph_filesz ph) (drop (ph_offset ph) data) @ replicate (ph_memsz ph - ph_filesz ph) 0)"
    if "placed R (root_of sp k) data ph lo hi k1" for ph
  proof -
    have "lo \<le> ph_vaddr ph" "ph_vaddr ph + ph_memsz ph \<le> hi" using that by (simp_all add: placed_def)
    then show ?thesis using placed_read [OF s1(1), of data ph lo hi] that unfolding s1(2) by (simp add: k' k2 img)
  qed
  have "\<forall>i \<in> set [0..<e_phnum data]. loadable (phdr data i) \<longrightarrow> placed R (root_of sp k) data (phdr data i) lo hi k1"
    using S unfolding k0(2) by blast
  then show ?thesis using seg s1(4) k2 by (simp add: k' img)
qed


section \<open>A concrete image\<close>

text \<open>One loadable segment at the start of the user range with the given file and memory sizes, whose file bytes
  start at offset 120.\<close>

definition wit_elf :: "nat \<Rightarrow> nat \<Rightarrow> byte list" where
  "wit_elf fsz msz = [0x7F, 0x45, 0x4C, 0x46, 2, 1, 1, 0, 0, 0, 0, 0, 0, 0, 0, 0] @ le_bytes 2 2 @ le_bytes 2 0x3E @ le_bytes 4 1 @
    le_bytes 8 0x8000000000 @ le_bytes 8 64 @ le_bytes 8 0 @ le_bytes 4 0 @ le_bytes 2 64 @ le_bytes 2 56 @ le_bytes 2 1 @
    le_bytes 2 0 @ le_bytes 2 0 @ le_bytes 2 0 @ le_bytes 4 1 @ le_bytes 4 7 @ le_bytes 8 120 @ le_bytes 8 0x8000000000 @
    le_bytes 8 0 @ le_bytes 8 fsz @ le_bytes 8 msz @ le_bytes 8 4096 @ [0xC3]"

lemma le_bytes_Suc: "le_bytes (Suc n) v = word_of_nat v # le_bytes n (v div 256)"
  by (simp add: le_bytes_def map_upt_Suc div_mult2_eq del: upt_Suc)

lemma length_le_bytes [simp]: "length (le_bytes n v) = n"
  by (simp add: le_bytes_def)

lemma le_val_bytes [simp]: "le_val (le_bytes n v) = v mod 256 ^ n"
proof (induction n arbitrary: v)
  case (Suc n)
  have "unat (word_of_nat v :: byte) = v mod 256" by (simp add: unat_of_nat)
  then have "le_val (le_bytes (Suc n) v) = v mod 256 + 256 * (v div 256 mod 256 ^ n)"
    using Suc by (simp add: le_bytes_Suc le_val_def)
  then show ?case by (simp add: mod_mult2_eq)
qed (simp add: le_bytes_def le_val_def)

lemma wit_elf_header:
  "elf_header_ok (wit_elf 1 2)" "elf_header_ok (wit_elf 2 1)" "e_phnum (wit_elf f m) = 1" "e_phoff (wit_elf f m) = 64"
  by (simp_all add: elf_header_ok_def wit_elf_def field_def e_phnum_def e_phoff_def e_entry_def)

lemma wit_elf_phdr:
  "phdr (wit_elf 1 2) 0 = \<lparr>ph_type = 1, ph_offset = 120, ph_vaddr = 0x8000000000, ph_filesz = 1, ph_memsz = 2\<rparr>"
  "phdr (wit_elf 2 1) 0 = \<lparr>ph_type = 1, ph_offset = 120, ph_vaddr = 0x8000000000, ph_filesz = 2, ph_memsz = 1\<rparr>"
  unfolding wit_elf_header by (simp_all add: elf_phdr_def wit_elf_def field_def)


lemma wit_load: "\<exists>img k'. elf_load 2 (wit_elf 1 2) wit_kernel = (Some img, k')"
proof -
  let ?ph = "\<lparr>ph_type = 1, ph_offset = 120, ph_vaddr = 0x8000000000, ph_filesz = 1, ph_memsz = 2\<rparr>" and ?d = "wit_elf 1 2"
  have len: "length (wit_elf f m) = 121" for f m by (simp add: wit_elf_def)
  have al: "align_down PAGE_SIZE 0x8000000000 = 0x8000000000" "align_down PAGE_SIZE 0x8000000001 = 0x8000000000"
    "align_up PAGE_SIZE 0x8000000002 = 0x8000001000" by (simp_all add: align_down_def align_up_def)
  have good: "\<not> segment_bad ?d ?ph" by (simp add: segment_bad_def len al)
  have vas: "addr_steps 0x8000000000 0x8000001000 = [0x8000000000]" by (simp add: addr_steps_def)
  have kv: "kvm wit_kernel = wit_vm\<lparr>vm_pmm := wit_pmm1\<rparr>" by (simp add: kvm_def wit_kernel_def)
  have sp: "k_spaces wit_kernel 2 = wit_sp" "sp_pml4 wit_sp = 4096" by (simp_all add: wit_kernel_def wit_sp_def)
  have us: "user_space {4096} wit_sp" by (simp add: user_space_def wit_sp_def)
  obtain a m where am: "pmm_alloc_page wit_pmm1 = (a, m)" by fastforce
  have a: "a = 28672" using pmm_alloc_page_law [OF wit_pmm1_ok _ am] wit_pmm1_free(2) by simp
  have "\<exists>s1. map_fresh (Some wit_sp) 7 [0x8000000000] (kvm wit_kernel) = (1, s1)"
    using am unfolding a by (simp add: kv vmm_map_def wit_sp_def wit_vm_def lower_bound_def descend_or_alloc_def idx_pml4_def idx_pdpt_def
        idx_pd_def idx_pt_def pte_addr_def vm_alloc_page_def Let_def)
  then obtain s1 where f: "map_fresh (Some wit_sp) 7 [0x8000000000] (kvm wit_kernel) = (1, s1)" by blast
  have "\<forall>va \<in> set [0x8000000000]. user_va va" by (simp add: user_va_def vpage_def)
  from map_fresh_ok [OF wit_kernel_vm us this _ f] obtain pas where p: "length pas = 1" "vm_inv {4096} s1"
    "absv {4096} s1 = (absv {4096} (kvm wit_kernel))(4096 := (absv {4096} (kvm wit_kernel) 4096)([0x8000000000] [\<mapsto>] map (\<lambda>pa. (pa, 7)) pas))"
    by (auto simp: sp)
  then obtain pa where q: "absv {4096} s1 4096 0x8000000000 = Some (pa, 7)" by (cases pas) auto
  define k1 where "k1 = set_vm s1 wit_kernel"
  have k1: "kvm (k1\<lparr>k_phys := ph\<rparr>) = s1" "cr3 (k1\<lparr>k_phys := ph\<rparr>) = 4096" "space_of 2 (k1\<lparr>k_phys := ph\<rparr>) = Some wit_sp" for ph
    by (simp_all add: k1_def kvm_def set_vm_def cr3_def space_of_def wit_kernel_def wit_sp_def)
  have vp: "vpage 0x8000000000" by (simp add: vpage_def)
  have up: "user_page (Some wit_sp) s1 0x8000000000"
    using vmm_query_abs [OF p(2) us vp] q by (simp add: sp user_page_def)
  have ok: "user_range_ok (Some wit_sp) 0x8000000000 n s1 = 0" if "n = 1 \<or> n = 2" for n
  proof -
    have "align_down PAGE_SIZE (0x8000000000 + i) = 0x8000000000" if "i < n" for i
      using that \<open>n = 1 \<or> n = 2\<close> al by (cases "i = 0") (auto simp: numeral_2_eq_2 less_Suc_eq)
    then show ?thesis using user_range_ok_iff [of "0x8000000000" n "Some wit_sp" s1] that up by auto
  qed
  have tr: "translate s1 4096 0x8000000000 = Some pa" "translate s1 4096 0x8000000001 = Some (pa + 1)"
    using translate_abs [OF p(2), of 4096] q al by simp_all
  have cp: "\<exists>ph'. k_copy_to_user 2 0x8000000000 bs (k1\<lparr>k_phys := ph\<rparr>) = (0, k1\<lparr>k_phys := ph'\<rparr>)" if "length bs = 1 \<or> length bs = 2" for bs ph
  proof -
    consider b where "bs = [b]" | b c where "bs = [b, c]"
      by (metis (no_types) One_nat_def Suc_1 length_0_conv length_Suc_conv \<open>length bs = 1 \<or> length bs = 2\<close>)
    then obtain ph' where "uaccess_memcpy_to_user s1 4096 0x8000000000 bs ph = (0, ph')"
      by cases (simp_all add: tr)
    then show ?thesis using ok [OF that] by (auto simp: k_copy_to_user_def copy_to_user_def k1 [simplified] Let_def)
  qed
  have z: "\<exists>ph'. zero_user 2 0x8000000000 2 (k1\<lparr>k_phys := ph\<rparr>) = (True, k1\<lparr>k_phys := ph'\<rparr>)" for ph
    using cp [of "replicate 2 0" ph] by (subst zero_user.simps) (auto simp: Let_def zero_user.simps)
  have cp1: "\<exists>ph'. k_copy_to_user 2 0x8000000000 (take 1 (drop 120 ?d)) (k1\<lparr>k_phys := ph\<rparr>) = (0, k1\<lparr>k_phys := ph'\<rparr>)" for ph
    by (rule cp) (simp add: len)
  obtain ph2 where z2: "zero_user 2 0x8000000000 2 k1 = (True, k1\<lparr>k_phys := ph2\<rparr>)" using z [of "k_phys k1"] by auto
  obtain ph3 where c3: "k_copy_to_user 2 0x8000000000 (take 1 (drop 120 ?d)) (k1\<lparr>k_phys := ph2\<rparr>) = (0, k1\<lparr>k_phys := ph3\<rparr>)" using cp1 by blast
  have "space_of 2 wit_kernel = Some wit_sp" by (simp add: space_of_def sp)
  then have ld: "load_segment 2 ?d ?ph wit_kernel = (True, k1\<lparr>k_phys := ph3\<rparr>)"
    using f z2 c3 by (simp add: load_segment_def al vas Let_def k1_def [symmetric] del: map_fresh.simps)
  define d where "d = ?d"
  have "[0..<e_phnum d] = [0]" by (simp add: d_def wit_elf_header)
  moreover have "elf_segments 2 d [0] (two64 - 1) 0 0 wit_kernel = (ElfLoaded 0x8000000000 0x8000001000 1, k1\<lparr>k_phys := ph3\<rparr>)"
    unfolding elf_segments.simps wit_elf_phdr(1) [folded d_def] using ld [folded d_def] good [folded d_def] by (simp add: al)
  moreover have "th_space (threads (k_sched wit_kernel) (current (k_sched wit_kernel))) = 2" by (simp add: wit_kernel_def)
  moreover have "elf_header_ok d" unfolding d_def by (rule wit_elf_header)
  ultimately show ?thesis unfolding d_def [symmetric] elf_load_def Let_def by simp
qed

theorem elf_load_correct_witness:
  "\<exists>img k'. elf_load 2 (wit_elf 1 2) wit_kernel = (Some img, k') \<and>
    copy_from_user (Some wit_sp) 4096 0x8000000000 2 (kvm k') (k_phys k') = Inr [0xC3, 0]"
proof -
  obtain img k' where e: "elf_load 2 (wit_elf 1 2) wit_kernel = (Some img, k')" using wit_load by blast
  have sp: "k_spaces wit_kernel 2 = wit_sp" "sp_pml4 wit_sp = 4096" by (simp_all add: wit_kernel_def wit_sp_def)
  have us: "user_space {4096} (k_spaces wit_kernel 2)" by (simp add: user_space_def sp) (simp add: wit_sp_def)
  have d: "take 1 (drop 120 (wit_elf 1 2)) = [0xC3]" by (simp add: wit_elf_def)
  have ld: "loadable (phdr (wit_elf 1 2) 0)" unfolding wit_elf_phdr by (simp add: loadable_def)
  have n: "0 < e_phnum (wit_elf 1 2)" by (simp add: wit_elf_header)
  have act: "active_space (k_sched wit_kernel) = th_space (threads (k_sched wit_kernel) (current (k_sched wit_kernel)))"
    "active_space (k_sched wit_kernel) \<noteq> 0" by (simp_all add: wit_kernel_def)
  have two: "(2 :: nat) \<noteq> 0" by simp
  note C = elf_load_correct [OF wit_kernel_vm two us act e]
  have "copy_from_user (Some wit_sp) 4096 0x8000000000 2 (kvm k') (k_phys k') = Inr (take 1 (drop 120 (wit_elf 1 2)) @ replicate (2 - 1) 0)"
    using conjunct2 [OF conjunct2 [OF conjunct2 [OF C]], rule_format, OF n ld] unfolding wit_elf_phdr sp by simp
  then have "copy_from_user (Some wit_sp) 4096 0x8000000000 2 (kvm k') (k_phys k') = Inr [0xC3, 0]" unfolding d by simp
  then show ?thesis using e by blast
qed

end
