(* ===== verification/Release.thy ===== *)
theory Release
  imports Kernel
begin

text \<open>
  The fuel of \<open>handle_release\<close> is enough.  Every nested level of process destruction has just brought the
  reference count of one more process to zero, and no release raises a count; so any fuel above the number
  of processes with a non-zero count gives the same result, and \<open>None\<close> is then a panic of the code or a
  cycle in a list, never the fuel.
\<close>

definition counted :: "kernel \<Rightarrow> nat set" where
  "counted k = {p. p_refcount (k_procs k p) \<noteq> 0}"

lemma counted_cong: "k_procs k' = k_procs k \<Longrightarrow> counted k' = counted k"
  by (simp add: counted_def)

lemma counted_upd [simp]:
  "counted (upd_proc p (p_handles_update f) k) = counted k" "counted (upd_proc p (p_list_next_update g) k) = counted k"
  "counted (k\<lparr>k_proc_head := h\<rparr>) = counted k"
  by (auto simp: counted_def upd_proc_def)

lemma kfree_procs: "kfree a k = Some k' \<Longrightarrow> k_procs k' = k_procs k"
  by (auto simp: kfree_def bind_eq_Some_conv)

lemma set_vm_procs [simp]: "k_procs (set_vm s k) = k_procs k"
  by (simp add: set_vm_def)

lemma space_unref_procs: "vmm_space_unref sp k = Some k' \<Longrightarrow> k_procs k' = k_procs k"
  by (auto simp: vmm_space_unref_def destroy_space_def Let_def dest!: kfree_procs split: if_splits)

lemma channel_destroy_procs: "channel_destroy c k = Some k' \<Longrightarrow> k_procs k' = k_procs k"
  unfolding channel_destroy_def by (simp add: bind_eq_Some_conv split: if_splits) (metis kfree_procs)

lemma unlink_counted: "unlink_process p k = Some k' \<Longrightarrow> counted k' = counted k"
  by (auto simp: unlink_process_def bind_eq_Some_conv Let_def split: if_splits)

text \<open>Two callbacks that agree, and keep the counted processes within \<open>L\<close>, on every state with counted processes
  within \<open>L\<close>.\<close>

definition agree :: "nat set \<Rightarrow> (u32 \<Rightarrow> nat \<Rightarrow> kernel \<Rightarrow> kernel option) \<Rightarrow> (u32 \<Rightarrow> nat \<Rightarrow> kernel \<Rightarrow> kernel option) \<Rightarrow> bool" where
  "agree L rel rel' \<longleftrightarrow> (\<forall>kd ob k. counted k \<subseteq> L \<longrightarrow>
    rel kd ob k = rel' kd ob k \<and> (\<forall>k'. rel kd ob k = Some k' \<longrightarrow> counted k' \<subseteq> L))"

lemma fold_cong_inv:
  assumes "\<And>x s. J s \<Longrightarrow> f x s = g x s \<and> J (f x s)" "J s"
  shows "fold f xs s = fold g xs s \<and> J (fold f xs s)"
  using assms(2)
proof (induction xs arbitrary: s)
  case (Cons x xs)
  have "f x s = g x s" "J (f x s)" using assms(1) [OF Cons.prems, of x] by blast+
  then show ?case using Cons.IH [of "g x s"] by (metis fold_simps(2))
qed simp

lemma table_destroy_agree:
  assumes ag: "agree L rel rel'" and k: "counted k \<subseteq> L"
  shows "proc_table_destroy rel p k = proc_table_destroy rel' p k \<and> (\<forall>k'. proc_table_destroy rel p k = Some k' \<longrightarrow> counted k' \<subseteq> L)"
proof -
  let ?c = "\<lambda>_ kd ob ko. Option.bind ko (rel kd ob)" and ?d = "\<lambda>_ kd ob ko. Option.bind ko (rel' kd ob)"
  let ?J = "\<lambda>x :: handle_table \<times> kernel option. \<forall>k. snd x = Some k \<longrightarrow> counted k \<subseteq> L"
  have step: "destroy_slot ?c i x = destroy_slot ?d i x \<and> ?J (destroy_slot ?c i x)" if "?J x" for i x
  proof -
    obtain t ko where x: "x = (t, ko)" by fastforce
    have "Option.bind ko (rel kd ob) = Option.bind ko (rel' kd ob) \<and> (\<forall>k. Option.bind ko (rel kd ob) = Some k \<longrightarrow> counted k \<subseteq> L)" for kd ob
      using that ag by (cases ko) (auto simp: x agree_def)
    then show ?thesis using that by (auto simp: x destroy_slot_def handle_close_def Let_def)
  qed
  obtain t ko where f: "fold (destroy_slot ?c) [0..<HANDLE_MAX] (p_handles (k_procs k p), Some k) = (t, ko)" by fastforce
  have "fold (destroy_slot ?d) [0..<HANDLE_MAX] (p_handles (k_procs k p), Some k) = (t, ko) \<and> ?J (t, ko)"
    using fold_cong_inv [of ?J "destroy_slot ?c" "destroy_slot ?d", OF step, of "(p_handles (k_procs k p), Some k)"] k
    unfolding f [symmetric] by simp
  then show ?thesis
    unfolding proc_table_destroy_def handle_table_destroy_eq by (auto simp: f bind_eq_Some_conv)
qed

lemma process_destroy_agree:
  assumes ag: "agree L rel rel'" and k: "counted k \<subseteq> L"
  shows "process_destroy_with rel p k = process_destroy_with rel' p k \<and> (\<forall>k'. process_destroy_with rel p k = Some k' \<longrightarrow> counted k' \<subseteq> L)"
proof (cases "p = 0 \<or> unlink_process p k = None")
  case True
  then show ?thesis using k by (auto simp: process_destroy_with_def)
next
  case False
  then obtain k1 where k1: "unlink_process p k = Some k1" "p \<noteq> 0" by blast
  then have "counted k1 \<subseteq> L" using unlink_counted k by blast
  note T = table_destroy_agree [OF ag this, of p]
  have "counted k' = counted k2" if "proc_table_destroy rel p k1 = Some k2" "process_destroy_with rel p k = Some k'" for k2 k'
    using that k1 by (auto simp: process_destroy_with_def bind_eq_Some_conv dest!: kfree_procs space_unref_procs intro!: counted_cong split: if_splits)
  moreover have "\<exists>k2. proc_table_destroy rel p k1 = Some k2" if "process_destroy_with rel p k = Some k'" for k'
    using that k1 by (auto simp: process_destroy_with_def bind_eq_Some_conv)
  moreover have "process_destroy_with rel p k = process_destroy_with rel' p k"
    using T k1 by (simp add: process_destroy_with_def)
  ultimately show ?thesis using T by metis
qed

lemma handle_release_fuel:
  assumes "finite (counted k)" "card (counted k) < n" "card (counted k) < m"
  shows "handle_release n kd ob k = handle_release m kd ob k \<and> (\<forall>k'. handle_release n kd ob k = Some k' \<longrightarrow> counted k' \<subseteq> counted k)"
  using assms
proof (induction n arbitrary: m kd ob k)
  case (Suc n)
  obtain m' where m: "m = Suc m'" using Suc.prems(3) by (cases m) auto
  let ?p = "k_procs k ob"
  define k1 where "k1 = upd_proc ob (p_refcount_update (\<lambda>n. n - 1)) k"
  have sub: "counted k1 \<subseteq> counted k" by (auto simp: k1_def counted_def upd_proc_def split: if_splits)
  show ?case
  proof (cases "kd = HANDLE_KIND_PROCESS \<and> ob \<noteq> 0 \<and> p_refcount ?p \<noteq> 0 \<and> p_refcount (k_procs k1 ob) = 0")
    case True
    then have "ob \<in> counted k" "ob \<notin> counted k1" by (simp_all add: counted_def)
    then have "counted k1 \<subset> counted k" using sub by blast
    then have c: "finite (counted k1)" "card (counted k1) < card (counted k)"
      using Suc.prems(1) psubset_card_mono finite_subset [OF sub] by auto
    have "agree (counted k1) (handle_release n) (handle_release m')"
      unfolding agree_def
    proof (intro allI impI)
      fix kd ob k assume s: "counted k \<subseteq> counted k1"
      then have "card (counted k) \<le> card (counted k1)" using c(1) card_mono by blast
      then have "card (counted k) < n" "card (counted k) < m'" using c(2) Suc.prems m by auto
      from Suc.IH [OF finite_subset [OF s c(1)] this] s
      show "handle_release n kd ob k = handle_release m' kd ob k \<and> (\<forall>k'. handle_release n kd ob k = Some k' \<longrightarrow> counted k' \<subseteq> counted k1)"
        by blast
    qed
    note D = process_destroy_agree [OF this subset_refl, of ob]
    have "handle_release (Suc n) kd ob k = process_destroy_with (handle_release n) ob k1"
      "handle_release m kd ob k = process_destroy_with (handle_release m') ob k1"
      using True by (simp_all add: m process_unref_with_def Let_def k1_def)
    then show ?thesis using D sub by (metis subset_trans)
  next
    case False
    then have "handle_release (Suc n) kd ob k = handle_release m kd ob k \<and>
        (handle_release (Suc n) kd ob k = Some k \<or> handle_release (Suc n) kd ob k = Some k1 \<or> handle_release (Suc n) kd ob k = channel_destroy ob k)"
      by (auto simp: m process_unref_with_def Let_def k1_def)
    then show ?thesis using sub by (auto dest!: channel_destroy_procs counted_cong)
  qed
qed simp

end
