(* ===== verification/Spec2Isabelle.thy ===== *)
theory Spec2Isabelle
  imports Pmm Handle Sync Channel Cstring VfsServer Stdlib Umalloc Heap Typed Ipc Loader Release
begin

text \<open>
  Exyde is a microkernel for x86-64 with a small C library, a file server and a few programs.  This library
  models the kernel below the C system-call dispatcher, the file server, and the memory, string and
  conversion functions of the C library, and proves them correct.  Source paths are relative to
  \<^verbatim>\<open>src/src\<close>.

  \<^bold>\<open>The program and its parts.\<close>  At boot the kernel records the memory map, builds the page allocator over it,
  takes over the page tables and starts a heap on mapped pages.  Threads share one processor; every
  blocking object (mutex, semaphore, condition variable, channel, process exit) parks threads on intrusive wait
  queues and wakes them through the scheduler.  A process owns an address space and a table of capabilities
  to channels and other processes; a system call checks its handle and user pointers, works on those
  objects and copies bytes between user and kernel memory.  The file server is a user program that answers requests
  from channels on an in-memory file system.

  \<^bold>\<open>Kernel memory.\<close>
  \<^item> \<open>Memmap\<close> is \<^verbatim>\<open>kernel/core/memmap.c\<close>: the region array and its queries.
  \<^item> \<open>Pmm\<close> is \<^verbatim>\<open>kernel/core/pmm.c\<close>: the record \<open>pmm\<close> holds the two bitmaps as lists of 64-bit words; \<open>pmm_init\<close>,
    \<open>pmm_alloc_pages\<close> and \<open>pmm_free_pages\<close> are the functions of that name.  Its lemmas show that initialisation
    frees exactly the whole usable pages outside reserved regions, that allocation is first fit and that a free is
    accepted exactly for a run of used unreserved pages.  The locale \<open>page_allocator\<close> is the contract the
    page tables and the heap rely on.
  \<^item> \<open>Vmm\<close> is \<^verbatim>\<open>kernel/arch/x86_64/mm/vmm.c\<close>: frames of 512 entries in a store, the four-level walk, \<open>vmm_map\<close>,
    \<open>vmm_unmap\<close>, \<open>vmm_query\<close> and the construction and release of tables.  The tables refine a partial
    function from pages to frames and flags, kept for several roots at once.
  \<^item> \<open>Blocks\<close> is the abstract view of memory cut into blocks; \<open>Heap\<close> is \<^verbatim>\<open>kernel/core/heap.c\<close> and \<open>Umalloc\<close>
    the allocator of \<^verbatim>\<open>userspace/libc/stdlib.c\<close>.  Both keep a tiling of their range, hand out disjoint blocks and
    leave the other allocated blocks alone.
  \<^item> \<open>Uaccess\<close> is \<^verbatim>\<open>kernel/core/uaccess.c\<close>, \<^verbatim>\<open>extable.c\<close> and the copy loops of \<^verbatim>\<open>uaccess_asm.asm\<close>: bytes go
    one at a time through the loaded page tables.

  \<^bold>\<open>Threads and objects.\<close>
  \<^item> \<open>Iqueue\<close> relates pointer chains to lists.  \<open>Sched\<close> is \<^verbatim>\<open>kernel/core/sched.c\<close> and
    \<^verbatim>\<open>include/exyde/waitq.h\<close>: the record \<open>sched\<close> holds the thread store, the queues and the current thread;
    its invariant says that the state of each thread tells where it is.
  \<^item> \<open>Sync\<close> is \<^verbatim>\<open>mutex.c\<close>, \<^verbatim>\<open>semaphore.c\<close> and \<^verbatim>\<open>condvar.c\<close>, \<open>Channel\<close> is \<^verbatim>\<open>channel.c\<close>.  A blocking call is one pass
    of its loop; inductive step relations interleave passes of any number of threads, and the invariants
    give mutual exclusion, conservation and in-order delivery.  The locale \<open>bounded_fifo\<close> is the contract of a ring.
  \<^item> \<open>Handle\<close> is \<^verbatim>\<open>handle.c\<close>.  The release callback is a code pointer, so its effect is an argument of the
    definitions.  The locale \<open>cap_table\<close> is the contract of a table.
  \<^item> \<open>Kernel\<close> puts these together in the record \<open>kernel\<close>: scheduler, heap, and stores of address spaces, processes and
    channels.  It models the object life cycles of \<^verbatim>\<open>vmm.c\<close>, \<^verbatim>\<open>channel.c\<close> and \<^verbatim>\<open>process.c\<close>.  \<open>Exec\<close> models \<^verbatim>\<open>elf.c\<close>,
    \<^verbatim>\<open>exec.c\<close>, \<^verbatim>\<open>thread.c\<close> and the reaping of threads.  \<open>Syscall\<close> models every handler and the dispatcher of
    \<^verbatim>\<open>kernel/core/syscall.c\<close>.
  \<^item> \<open>Typed\<close>, \<open>Ipc\<close>, \<open>Loader\<close> and \<open>Release\<close> hold the properties that span these: all system calls keep the kernel state
    well typed; a message arrives unchanged in another process; a loaded program reads back as its image;
    nested release of objects needs no more than the fuel it is given.

  \<^bold>\<open>User space.\<close>
  \<^item> \<open>Cstring\<close> is \<^verbatim>\<open>userspace/libc/string.c\<close> over a byte memory; \<open>Stdlib\<close> is the conversions, sorting and
    searching of \<^verbatim>\<open>stdlib.c\<close>.
  \<^item> \<open>Ramfs\<close>, \<open>Vfs\<close> and \<open>VfsServer\<close> are \<^verbatim>\<open>userspace/vfs/ramfs.c\<close>, \<^verbatim>\<open>vfs.c\<close> with \<^verbatim>\<open>fd_table.c\<close>, and \<^verbatim>\<open>main.c\<close>.  The
    invariant accounts for every reference to every node; path resolution refines a walk of the tree, and the server
    keeps the invariant over any sequence of messages.  Failing allocations are an argument of the file system.

  \<^bold>\<open>Conventions.\<close>  Bit patterns are words of their width.  Addresses, sizes and counters are natural numbers, with
  \<open>wrap32\<close> and \<open>wrap64\<close> written where the C arithmetic can wrap.  Results with an error number are
  integers.  Pointers are natural numbers with \<open>0\<close> for null, and objects live in stores indexed by them.
  \<open>None\<close> is a panic or a memory fault of the code.

  \<^bold>\<open>Loops and bounds.\<close>  Loops over arrays are folds or structural recursion; other loops are \<open>function\<close>s with a
  measure.  Walks of pointer chains and the search for an unmapped range, which a damaged state could make
  endless, are \<open>partial_function (option)\<close>; the properties of the heap and of \<open>sys_map\<close> prove that they
  return, the typing of system calls is about whatever result there is.  Only
  \<open>handle_release\<close> has fuel, because a table can hold handles on processes that hold tables.  The callers give
  it \<open>k_next_pid\<close>, one more than the number of processes ever created; \<open>Release\<close> proves that any fuel above the
  number of processes with a non-zero count gives the same result.

  \<^bold>\<open>Not modelled.\<close>  Boot code, descriptor tables, interrupt entry and exit, register switching, device drivers and
  panic output are hardware set-up and input or output without a state the C code inspects.  The kernel main
  function and the user programs order calls of the parts above and print.  Standard input and output, the
  environment and the client side of the servers are input and output over system calls.  The kernel is
  taken as running with interrupts off on one processor between the points where the code blocks or yields; a timer
  interrupt acts at those points through \<open>sched_tick\<close> and \<open>sched_preempt_point\<close>.
\<close>

end
